(* ===== verification/HS_Prelude.thy ===== *)
theory HS_Prelude
  imports Main "HOL-Library.Word"
begin

text \<open>
  The shared prelude of the development: byte strings, the fixed-width reading of natural numbers,
  the exceptions the C++ code throws, results as a sum type with the exception on the left, and the
  generic list lemmas the component theories use.

  Two collections of theorems are grown by the component theories:
  \<^item> \<open>result_simps\<close>: equations that take a sequence of fallible calls apart;
  \<^item> \<open>hs_frame\<close>: what an operation leaves unchanged.
\<close>

named_theorems result_simps "decomposition of fallible sequences"
named_theorems hs_frame "fields an operation does not write"

section \<open>Bytes and fixed-width integers\<close>

type_synonym byte = "8 word"
type_synonym bytes = "byte list"

text \<open>Conversion of an unsigned value to \<open>uint32_t\<close> and \<open>uint64_t\<close>.\<close>

definition u32 :: "nat \<Rightarrow> nat" where
  "u32 n = n mod 2 ^ 32"

definition u64 :: "nat \<Rightarrow> nat" where
  "u64 n = n mod 2 ^ 64"

lemma u32_id [simp]: "n < 4294967296 \<Longrightarrow> u32 n = n"
  by (simp add: u32_def)

lemma u64_id [simp]: "n < 18446744073709551616 \<Longrightarrow> u64 n = n"
  by (simp add: u64_def)

lemma u32_less [simp]: "u32 n < 4294967296"
  by (simp add: u32_def)

lemma u64_less [simp]: "u64 n < 18446744073709551616"
  by (simp add: u64_def)

lemma u32_le: "u32 n \<le> n"
  by (simp add: u32_def)

section \<open>Exceptions and results\<close>

text \<open>
  One constructor per exception type the source throws, with its message where the source gives a
  fixed one. \<open>Undefined_behaviour\<close> marks a step the C++ standard gives no meaning to (a null
  dereference, an empty \<open>optional\<close> that is dereferenced); \<open>Out_of_fuel\<close> marks a loop that
  has not ended within the bound given to its model.
\<close>

datatype error =
    Runtime_error string
  | Invalid_argument string
  | Out_of_range
  | Db_error int
  | Xdr_overflow
  | Xdr_stack_overflow
  | Xdr_bad_message_size
  | Xdr_should_be_zero
  | Xdr_bad_discriminant
  | Xdr_runtime_error string
  | Xdr_call_error string
  | Xdr_system_error
  | Xdr_wrong_union
  | Undefined_behaviour string
  | Out_of_fuel

type_synonym 'a result = "error + 'a"

text \<open>A call whose exception, if any, ends the caller too.\<close>

definition rbind :: "'a result \<Rightarrow> ('a \<Rightarrow> 'b result) \<Rightarrow> 'b result" where
  "rbind m f = (case m of Inl e \<Rightarrow> Inl e | Inr x \<Rightarrow> f x)"

lemma rbind_Inl [simp]: "rbind (Inl e) f = Inl e"
  by (simp add: rbind_def)

lemma rbind_Inr [simp]: "rbind (Inr x) f = f x"
  by (simp add: rbind_def)

lemma rbind_eq_Inr [result_simps]: "rbind m f = Inr y \<longleftrightarrow> (\<exists>x. m = Inr x \<and> f x = Inr y)"
  by (cases m) (auto simp: rbind_def)

lemma rbind_eq_Inl [result_simps]:
  "rbind m f = Inl e \<longleftrightarrow> m = Inl e \<or> (\<exists>x. m = Inr x \<and> f x = Inl e)"
  by (cases m) (auto simp: rbind_def)

lemma rbind_cong [fundef_cong]:
  "m = n \<Longrightarrow> (\<And>x. n = Inr x \<Longrightarrow> f x = g x) \<Longrightarrow> rbind m f = rbind n g"
  by (cases n) (auto simp: rbind_def)

lemma rbind_assoc: "rbind (rbind m f) g = rbind m (\<lambda>x. rbind (f x) g)"
  by (cases m) (auto simp: rbind_def)

text \<open>A loop that runs a fallible body over a list and stops at the first exception.\<close>

fun rfold :: "('a \<Rightarrow> 's \<Rightarrow> 's result) \<Rightarrow> 'a list \<Rightarrow> 's \<Rightarrow> 's result" where
  "rfold f [] s = Inr s"
| "rfold f (x # xs) s = rbind (f x s) (rfold f xs)"

lemma rfold_append: "rfold f (xs @ ys) s = rbind (rfold f xs s) (rfold f ys)"
  by (induction xs arbitrary: s) (auto simp: rbind_def split: sum.splits)

lemma rfold_invariant:
  assumes "rfold f xs s = Inr t" and "P s"
    and "\<And>x s t. x \<in> set xs \<Longrightarrow> P s \<Longrightarrow> f x s = Inr t \<Longrightarrow> P t"
  shows "P t"
  using assms
proof (induction xs arbitrary: s)
  case Nil
  then show ?case by simp
next
  case (Cons x xs)
  from Cons.prems(1) obtain u where u: "f x s = Inr u" and t: "rfold f xs u = Inr t"
    by (auto simp: result_simps)
  from Cons.prems(2,3) u have "P u" by auto
  with t show ?case
    by (rule Cons.IH) (use Cons.prems(3) in auto)
qed

lemma rfold_total:
  assumes "P s" and "\<And>x s. x \<in> set xs \<Longrightarrow> P s \<Longrightarrow> \<exists>t. f x s = Inr t \<and> P t"
  shows "\<exists>t. rfold f xs s = Inr t \<and> P t"
  using assms
proof (induction xs arbitrary: s)
  case Nil
  then show ?case by simp
next
  case (Cons x xs)
  from Cons.prems obtain u where u: "f x s = Inr u" "P u" by auto
  then have "\<exists>t. rfold f xs u = Inr t \<and> P t"
    by (intro Cons.IH) (use Cons.prems(2) in auto)
  with u show ?case by auto
qed

section \<open>Ordered maps as sorted association lists\<close>

text \<open>
  \<open>std::map\<close> with iteration in key order: a list of pairs with strictly increasing keys.
  \<open>emplace\<close> leaves an existing entry as it is.
\<close>

fun emplace :: "'k::linorder \<Rightarrow> 'v \<Rightarrow> ('k \<times> 'v) list \<Rightarrow> ('k \<times> 'v) list" where
  "emplace k v [] = [(k, v)]"
| "emplace k v ((k', v') # m) =
     (if k < k' then (k, v) # (k', v') # m
      else if k = k' then (k', v') # m
      else (k', v') # emplace k v m)"

definition map_keys_ok :: "('k::linorder \<times> 'v) list \<Rightarrow> bool" where
  "map_keys_ok m \<longleftrightarrow> sorted_wrt (<) (map fst m)"

lemma keys_emplace: "fst ` set (emplace k v m) = insert k (fst ` set m)"
  by (induction k v m rule: emplace.induct) (simp_all add: insert_commute)

lemma map_keys_ok_emplace [intro]: "map_keys_ok m \<Longrightarrow> map_keys_ok (emplace k v m)"
proof (induction m)
  case Nil
  then show ?case by (simp add: map_keys_ok_def)
next
  case (Cons e m)
  obtain k' v' where e: "e = (k', v')" by (cases e)
  have "map_keys_ok (emplace k v m)"
    using Cons by (simp add: map_keys_ok_def)
  moreover have "\<forall>x \<in> fst ` set (emplace k v m). k' < x" if "k' < k"
    using Cons.prems that e by (auto simp: keys_emplace map_keys_ok_def)
  ultimately show ?case
    using Cons.prems e by (auto simp: map_keys_ok_def)
qed

lemma map_of_emplace:
  "map_keys_ok m \<Longrightarrow>
   map_of (emplace k v m) x = (if x = k \<and> map_of m k = None then Some v else map_of m x)"
proof (induction m)
  case Nil
  then show ?case by simp
next
  case (Cons e m)
  obtain k' v' where e: "e = (k', v')" by (cases e)
  have no: "map_of m k = None" if "k < k'"
  proof -
    have "k \<notin> fst ` set m" using Cons.prems that e by (auto simp: map_keys_ok_def)
    then show ?thesis by (simp add: map_of_eq_None_iff)
  qed
  from Cons.prems have "map_keys_ok m" by (simp add: map_keys_ok_def)
  then have IH: "map_of (emplace k v m) x = (if x = k \<and> map_of m k = None then Some v else map_of m x)"
    by (rule Cons.IH)
  then show ?case using e no by auto
qed

lemma emplace_last:
  "\<forall>x \<in> fst ` set m. x < k \<Longrightarrow> emplace k v m = m @ [(k, v)]"
  by (induction m) auto

lemma length_emplace_new: "k \<notin> fst ` set m \<Longrightarrow> length (emplace k v m) = Suc (length m)"
  by (induction k v m rule: emplace.induct) auto

lemma length_emplace_old:
  "k \<in> fst ` set m \<Longrightarrow> map_keys_ok m \<Longrightarrow> length (emplace k v m) = length m"
proof (induction m)
  case Nil
  then show ?case by simp
next
  case (Cons e m)
  obtain k' v' where e: "e = (k', v')" by (cases e)
  have "\<not> k < k'" using Cons.prems e by (auto simp: map_keys_ok_def)
  moreover have "map_keys_ok m" using Cons.prems by (simp add: map_keys_ok_def)
  ultimately show ?case using Cons e by auto
qed

section \<open>First-in first-out buffers\<close>

text \<open>
  The buffers between threads (event queues, work queues, the proposals of the non-speculative
  bridge) promise that what is put in comes out once and in order.
\<close>

fun drain :: "('q \<Rightarrow> ('a \<times> 'q) option) \<Rightarrow> nat \<Rightarrow> 'q \<Rightarrow> 'a list \<times> 'q" where
  "drain deq 0 q = ([], q)"
| "drain deq (Suc n) q =
     (case deq q of None \<Rightarrow> ([], q) | Some (x, q) \<Rightarrow> let (xs, q) = drain deq n q in (x # xs, q))"

locale fifo_queue =
  fixes enq :: "'a \<Rightarrow> 'q \<Rightarrow> 'q"
    and deq :: "'q \<Rightarrow> ('a \<times> 'q) option"
    and items :: "'q \<Rightarrow> 'a list"
  assumes items_enq: "items (enq x q) = items q @ [x]"
    and deq_Nil: "items q = [] \<Longrightarrow> deq q = None"
    and deq_Cons: "items q = x # xs \<Longrightarrow> \<exists>q'. deq q = Some (x, q') \<and> items q' = xs"
begin

lemma items_fold: "items (fold enq xs q) = items q @ xs"
  by (induction xs arbitrary: q) (simp_all add: items_enq)

lemma drain_items:
  "fst (drain deq n q) = take n (items q) \<and> items (snd (drain deq n q)) = drop n (items q)"
proof (induction n arbitrary: q)
  case (Suc n)
  show ?case
  proof (cases "items q")
    case Nil
    then show ?thesis using deq_Nil[OF Nil] by simp
  next
    case (Cons x xs)
    then obtain q' where "deq q = Some (x, q')" "items q' = xs" using deq_Cons by blast
    then show ?thesis using Suc.IH[of q'] Cons by (simp split: prod.split) (metis fst_conv snd_conv)
  qed
qed simp

lemma in_order:
  assumes "items q = []"
  shows "fst (drain deq (length xs) (fold enq xs q)) = xs"
  using drain_items[of "length xs" "fold enq xs q"] items_fold[of xs q] assms by simp

end

end
