(* ===== verification/Big_Endian.thy ===== *)
theory Big_Endian
  imports HS_Prelude
begin

unbundle bit_operations_syntax

text \<open>
  \<open>utils/serialize_big_endian.h\<close>: unsigned integers to and from big-endian bytes. The functions
  are templates over the integer type; here they are polymorphic in the word, with the byte count
  \<open>sizeof(T)\<close> as the parameter \<open>sz\<close>. The bytes are the LMDB keys of the decided-block
  index, so besides the round trip the theory shows that comparing the bytes lexicographically is
  comparing the numbers.
\<close>

section \<open>Definitions\<close>

text \<open>The byte stored at position \<open>loc\<close>: \<open>(value >> ((sz - loc - 1) * 8)) & 0xFF\<close>.\<close>

definition be_byte :: "nat \<Rightarrow> 'a::len word \<Rightarrow> nat \<Rightarrow> byte" where
  "be_byte sz value loc = ucast (drop_bit ((sz - loc - 1) * 8) value AND 0xFF)"

text \<open>
  \<open>write_unsigned_big_endian(array&, value, offset)\<close>: writes with \<open>buf.at\<close>, which throws
  \<open>out_of_range\<close>.
\<close>

definition write_unsigned_big_endian :: "nat \<Rightarrow> bytes \<Rightarrow> 'a::len word \<Rightarrow> nat \<Rightarrow> bytes result" where
  "write_unsigned_big_endian sz buf value offset =
     rfold (\<lambda>loc b. if loc + offset < length b then Inr (b[loc + offset := be_byte sz value loc])
                    else Inl Out_of_range) [0..<sz] buf"

definition append_unsigned_big_endian :: "nat \<Rightarrow> bytes \<Rightarrow> 'a::len word \<Rightarrow> bytes" where
  "append_unsigned_big_endian sz buf value = fold (\<lambda>loc b. b @ [be_byte sz value loc]) [0..<sz] buf"

text \<open>
  \<open>read_unsigned_big_endian\<close>: \<open>output <<= 8; output += buf[loc]\<close> for the first \<open>sz\<close>
  bytes; reading past the end of the buffer is undefined.
\<close>

definition read_unsigned_big_endian :: "nat \<Rightarrow> bytes \<Rightarrow> 'a::len word result" where
  "read_unsigned_big_endian sz buf =
     (if sz \<le> length buf then Inr (foldl (\<lambda>out b. push_bit 8 out + ucast b) 0 (take sz buf))
      else Inl (Undefined_behaviour ''read past the end of the buffer''))"

section \<open>The bytes written\<close>

definition be_bytes :: "nat \<Rightarrow> 'a::len word \<Rightarrow> bytes" where
  "be_bytes sz value = map (be_byte sz value) [0..<sz]"

lemma length_be_bytes [simp]: "length (be_bytes sz v) = sz"
  by (simp add: be_bytes_def)

lemma be_bytes_0 [simp]: "be_bytes 0 v = []"
  by (simp add: be_bytes_def)

lemma be_bytes_Suc: "be_bytes (Suc n) v = be_bytes n (drop_bit 8 v) @ [ucast (v AND 0xFF)]"
proof -
  have "be_byte (Suc n) v loc = be_byte n (drop_bit 8 v) loc" if "loc < n" for loc
  proof -
    have "(Suc n - loc - 1) * 8 = (n - loc - 1) * 8 + 8" using that by simp
    then show ?thesis by (simp add: be_byte_def add.commute)
  qed
  then show ?thesis
    by (simp add: be_bytes_def be_byte_def)
qed

lemma append_unsigned_big_endian_eq: "append_unsigned_big_endian sz buf v = buf @ be_bytes sz v"
proof -
  have "fold (\<lambda>loc b. b @ [f loc]) xs buf = buf @ map f xs" for f :: "nat \<Rightarrow> byte" and xs
    by (induction xs arbitrary: buf) auto
  then show ?thesis by (simp add: append_unsigned_big_endian_def be_bytes_def)
qed

lemma write_unsigned_big_endian_eq:
  assumes "length buf = sz"
  shows "write_unsigned_big_endian sz buf v 0 = Inr (be_bytes sz v)"
proof -
  have "rfold (\<lambda>loc b. if loc < length b then Inr (b[loc := be_byte sz v loc]) else Inl Out_of_range)
          [0..<n] buf = Inr (map (be_byte sz v) [0..<n] @ drop n buf)" if "n \<le> length buf" for n
    using that
  proof (induction n)
    case 0
    then show ?case by simp
  next
    case (Suc n)
    then have "(map (be_byte sz v) [0..<n] @ drop n buf)[n := be_byte sz v n]
        = map (be_byte sz v) [0..<n] @ be_byte sz v n # drop (Suc n) buf"
      by (simp add: list_update_append Cons_nth_drop_Suc [symmetric])
    with Suc show ?case by (simp add: rfold_append)
  qed
  from this[of sz] assms show ?thesis
    by (simp add: write_unsigned_big_endian_def be_bytes_def cong: if_cong)
qed

section \<open>Round trip\<close>

lemma and_FF: "v AND 0xFF = take_bit 8 v" for v :: "'a::len word"
  by (simp add: take_bit_eq_mask mask_eq_exp_minus_1)

lemma ucast_low_byte: "ucast (ucast (v AND 0xFF) :: byte) = take_bit 8 v" for v :: "'a::len word"
  unfolding and_FF by (rule bit_word_eqI) (auto simp: bit_simps)

lemma shift_in_byte:
  fixes v :: "'a::len word"
  shows "push_bit 8 (take_bit k (drop_bit 8 v)) + take_bit 8 v = take_bit (k + 8) v"
proof -
  have "push_bit 8 (take_bit k (drop_bit 8 v)) AND take_bit 8 v = 0"
    by (rule bit_word_eqI) (auto simp: bit_simps)
  then have "push_bit 8 (take_bit k (drop_bit 8 v)) + take_bit 8 v
      = push_bit 8 (take_bit k (drop_bit 8 v)) OR take_bit 8 v"
    by (simp add: disjunctive_add_eq_or)
  also have "\<dots> = take_bit (k + 8) v"
    by (rule bit_word_eqI) (auto simp: bit_simps)
  finally show ?thesis .
qed

lemma read_be_bytes_take:
  "foldl (\<lambda>out b. push_bit 8 out + ucast b) 0 (be_bytes n v) = take_bit (8 * n) v"
  for v :: "'a::len word"
proof (induction n arbitrary: v)
  case 0
  then show ?case by simp
next
  case (Suc n)
  then show ?case
    using shift_in_byte[of "8 * n" v]
    by (simp add: be_bytes_Suc ucast_low_byte algebra_simps)
qed

lemma read_be_bytes:
  assumes "LENGTH('a::len) \<le> 8 * sz"
  shows "read_unsigned_big_endian sz (be_bytes sz (v :: 'a word) @ rest) = Inr v"
proof -
  have "take_bit (8 * sz) v = v"
    by (rule bit_word_eqI) (use assms in \<open>auto simp: bit_simps\<close>)
  then show ?thesis
    by (simp add: read_unsigned_big_endian_def read_be_bytes_take)
qed

section \<open>Byte order is numeric order\<close>

text \<open>The number a byte string denotes.\<close>

fun be_val :: "bytes \<Rightarrow> nat" where
  "be_val [] = 0"
| "be_val (b # bs) = unat b * 256 ^ length bs + be_val bs"

text \<open>Lexicographic comparison of byte strings (\<open>memcmp\<close> on strings of equal length).\<close>

fun bytes_less :: "bytes \<Rightarrow> bytes \<Rightarrow> bool" where
  "bytes_less [] ys \<longleftrightarrow> ys \<noteq> []"
| "bytes_less (x # xs) [] \<longleftrightarrow> False"
| "bytes_less (x # xs) (y # ys) \<longleftrightarrow> x < y \<or> (x = y \<and> bytes_less xs ys)"

lemma unat_byte_less: "unat (b :: byte) < 256"
  using unsigned_less[of b, where 'a = nat] by simp

lemma be_val_bound: "be_val bs < 256 ^ length bs"
proof (induction bs)
  case Nil
  then show ?case by simp
next
  case (Cons b bs)
  have "unat b * 256 ^ length bs + be_val bs < (unat b + 1) * 256 ^ length bs"
    using Cons by simp
  also have "\<dots> \<le> 256 * 256 ^ length bs"
    using unat_byte_less[of b] by (intro mult_right_mono) auto
  finally show ?case by simp
qed

lemma be_val_append: "be_val (xs @ [b]) = be_val xs * 256 + unat b"
  by (induction xs) (auto simp: algebra_simps)

lemma bytes_less_be_val: "length xs = length ys \<Longrightarrow> bytes_less xs ys \<longleftrightarrow> be_val xs < be_val ys"
proof (induction xs ys rule: bytes_less.induct)
  case (3 x xs y ys)
  then have len: "length xs = length ys" by simp
  let ?B = "256 ^ length ys :: nat"
  have step: "u * ?B + p < v * ?B + q" if "u < v" "p < ?B" for u v p q :: nat
  proof -
    have "u * ?B + p < (u + 1) * ?B" using that by simp
    also have "\<dots> \<le> v * ?B" using that by (intro mult_right_mono) auto
    finally show ?thesis by simp
  qed
  have bx: "be_val xs < ?B" using be_val_bound[of xs] len by simp
  have byy: "be_val ys < ?B" by (rule be_val_bound)
  consider "x < y" | "x = y" | "y < x" by (rule linorder_cases)
  then show ?case
  proof cases
    case 1
    then have "unat x < unat y" by (simp add: word_less_nat_alt)
    from step[OF this bx] 1 show ?thesis by (simp add: len)
  next
    case 2
    with 3 len show ?thesis by simp
  next
    case 3
    then have "unat y < unat x" by (simp add: word_less_nat_alt)
    from step[OF this byy] have "be_val (y # ys) < be_val (x # xs)" by (simp add: len)
    with 3 show ?thesis by auto
  qed
qed auto

lemma be_val_be_bytes: "be_val (be_bytes n v) = unat v mod 256 ^ n" for v :: "'a::len word"
proof (induction n arbitrary: v)
  case 0
  then show ?case by simp
next
  case (Suc n)
  have low: "unat (ucast (v AND 0xFF) :: byte) = unat v mod 256"
  proof -
    have "ucast (v AND 0xFF) = (ucast v :: byte)"
      unfolding and_FF by (rule bit_word_eqI) (auto simp: bit_simps)
    then show ?thesis by (simp add: unsigned_ucast_eq take_bit_eq_mod)
  qed
  have "unat (drop_bit 8 v) = unat v div 256"
    by (subst unat_drop_bit_eq) (simp add: drop_bit_eq_div)
  then have "be_val (be_bytes (Suc n) v) = (unat v div 256) mod 256 ^ n * 256 + unat v mod 256"
    using Suc low by (simp add: be_bytes_Suc be_val_append)
  also have "\<dots> = unat v mod 256 ^ Suc n"
    by (simp add: mod_mult2_eq mult.commute)
  finally show ?case .
qed

lemma be_bytes_order:
  assumes "LENGTH('a::len) \<le> 8 * sz"
  shows "bytes_less (be_bytes sz (v :: 'a word)) (be_bytes sz w) \<longleftrightarrow> v < w"
proof -
  have p: "unat x < 256 ^ sz" for x :: "'a word"
  proof -
    have "unat x < 2 ^ LENGTH('a)" by simp
    also have "\<dots> \<le> (2 :: nat) ^ (8 * sz)" using assms by (intro power_increasing) auto
    also have "\<dots> = 256 ^ sz" by (simp add: power_mult)
    finally show ?thesis .
  qed
  show ?thesis
    by (simp add: bytes_less_be_val be_val_be_bytes p word_less_nat_alt)
qed

section \<open>Properties\<close>

text \<open>A height is written as the database key whose byte order is the order of heights, and reading
the key back gives the height, whatever follows it.\<close>

lemma big_endian_key:
  fixes v w :: "64 word"
  shows "(bytes_less (append_unsigned_big_endian 8 [] v) (append_unsigned_big_endian 8 [] w) \<longleftrightarrow> v < w)
    \<and> read_unsigned_big_endian 8 (append_unsigned_big_endian 8 [] v @ rest) = Inr v"
  using be_bytes_order[of 8 v w] read_be_bytes[of 8 v rest] by (simp add: append_unsigned_big_endian_eq)

end
