(* ===== verification/Xdr_Marshal.thy ===== *)
theory Xdr_Marshal
  imports Big_Endian
begin

unbundle bit_operations_syntax

text \<open>
  The XDR marshalling layer of \<open>xdrpp/marshal.h\<close>, \<open>marshal.cc\<close>, \<open>types.h\<close> and
  \<open>endian.h\<close> on a little-endian machine: the byte swaps, the numeric put and get, opaque data
  with its padding, containers with their length limits, and the whole-message entry points
  \<open>xdr_to_opaque\<close> and \<open>xdr_from_opaque\<close>.

  A put appends to the output; a get takes the unread bytes and returns the value and the bytes
  that remain, or the XDR exception. The locale \<open>xdr_codec\<close> states what the traits of a type
  promise (the size is the length written, a load undoes a save); it is interpreted on every
  message type in the theory of the wire types.
\<close>

section \<open>Byte order (\<open>endian.h\<close>)\<close>

definition swap32 :: "32 word \<Rightarrow> 32 word" where
  "swap32 v = push_bit 24 v OR push_bit 8 (v AND 0xff00) OR (drop_bit 8 v AND 0xff00) OR drop_bit 24 v"

definition swap64 :: "64 word \<Rightarrow> 64 word" where
  "swap64 v = push_bit 32 (ucast (swap32 (ucast v))) OR ucast (swap32 (ucast (drop_bit 32 v)))"

text \<open>A 32-bit store and load on a little-endian machine.\<close>

definition le_store32 :: "32 word \<Rightarrow> bytes" where
  "le_store32 w = [ucast w, ucast (drop_bit 8 w), ucast (drop_bit 16 w), ucast (drop_bit 24 w)]"

fun le_load32 :: "bytes \<Rightarrow> 32 word" where
  "le_load32 (a # b # c # d # _) =
     ucast a OR push_bit 8 (ucast b) OR push_bit 16 (ucast c) OR push_bit 24 (ucast d)"
| "le_load32 _ = 0"

section \<open>Numeric put and get (\<open>marshal_swap\<close>)\<close>

definition put32 :: "32 word \<Rightarrow> bytes" where
  "put32 v = le_store32 (swap32 v)"

text \<open>\<open>u.u32[1]\<close> is the high half of a 64-bit value on a little-endian machine.\<close>

definition put64 :: "64 word \<Rightarrow> bytes" where
  "put64 u = le_store32 (swap32 (ucast (drop_bit 32 u))) @ le_store32 (swap32 (ucast u))"

definition get32 :: "bytes \<Rightarrow> 32 word \<times> bytes" where
  "get32 p = (swap32 (le_load32 p), drop 4 p)"

definition get64 :: "bytes \<Rightarrow> 64 word \<times> bytes" where
  "get64 p = (push_bit 32 (ucast (swap32 (le_load32 p))) OR ucast (swap32 (le_load32 (drop 4 p))), drop 8 p)"

section \<open>Bounds check and the archive operators\<close>

definition xdr_check :: "nat \<Rightarrow> bytes \<Rightarrow> unit result" where
  "xdr_check n p = (if n > length p then Inl Xdr_overflow else Inr ())"

definition xdr_get_u32 :: "bytes \<Rightarrow> (32 word \<times> bytes) result" where
  "xdr_get_u32 p = rbind (xdr_check 4 p) (\<lambda>_. Inr (get32 p))"

definition xdr_get_u64 :: "bytes \<Rightarrow> (64 word \<times> bytes) result" where
  "xdr_get_u64 p = rbind (xdr_check 8 p) (\<lambda>_. Inr (get64 p))"

text \<open>The number of padding bytes that bring a length to a multiple of four.\<close>

definition padding :: "nat \<Rightarrow> nat" where
  "padding len = (4 - len mod 4) mod 4"

definition put_bytes :: "bytes \<Rightarrow> bytes" where
  "put_bytes buf = (if buf = [] then [] else buf @ replicate (padding (length buf)) 0)"

definition get_bytes :: "nat \<Rightarrow> bytes \<Rightarrow> (bytes \<times> bytes) result" where
  "get_bytes len p =
     (if len = 0 then Inr ([], p)
      else if length p < len + padding len then Inl (Undefined_behaviour ''read past the end'')
      else if \<forall>b \<in> set (take (padding len) (drop len p)). b = 0
        then Inr (take len p, drop (len + padding len) p)
        else Inl Xdr_should_be_zero)"

text \<open>\<open>opaque_array<N>\<close>: fixed length, no size word.\<close>

definition put_opaque_array :: "bytes \<Rightarrow> bytes" where
  "put_opaque_array t = put_bytes t"

definition get_opaque_array :: "nat \<Rightarrow> bytes \<Rightarrow> (bytes \<times> bytes) result" where
  "get_opaque_array n p = rbind (xdr_check n p) (\<lambda>_. get_bytes n p)"

text \<open>\<open>opaque_vec<N>\<close>: a size word, then the bytes; \<open>resize\<close> rejects a size above \<open>N\<close>.\<close>

definition size32 :: "nat \<Rightarrow> 32 word" where
  "size32 s = word_of_nat s"

definition put_opaque_vec :: "bytes \<Rightarrow> bytes" where
  "put_opaque_vec t = put32 (size32 (length t)) @ put_bytes t"

definition get_opaque_vec :: "nat \<Rightarrow> bytes \<Rightarrow> (bytes \<times> bytes) result" where
  "get_opaque_vec max_size p =
     rbind (xdr_get_u32 p) (\<lambda>(size, p).
     rbind (xdr_check (unat size) p) (\<lambda>_.
     if unat size > max_size then Inl Xdr_overflow else get_bytes (unat size) p))"

definition XDR_MAX_LEN :: nat where
  "XDR_MAX_LEN = 0xfffffffc"

text \<open>\<open>xvector<T, N>\<close> (\<open>xdr_container_base\<close>): a size word, then the elements.\<close>

definition put_xvector :: "('a \<Rightarrow> bytes) \<Rightarrow> 'a list \<Rightarrow> bytes" where
  "put_xvector save t = put32 (size32 (length t)) @ concat (map save t)"

fun get_elems :: "(bytes \<Rightarrow> ('a \<times> bytes) result) \<Rightarrow> nat \<Rightarrow> bytes \<Rightarrow> ('a list \<times> bytes) result" where
  "get_elems load 0 p = Inr ([], p)"
| "get_elems load (Suc n) p =
     rbind (load p) (\<lambda>(x, p). rbind (get_elems load n p) (\<lambda>(xs, p). Inr (x # xs, p)))"

definition get_xvector :: "nat \<Rightarrow> (bytes \<Rightarrow> ('a \<times> bytes) result) \<Rightarrow> bytes \<Rightarrow> ('a list \<times> bytes) result" where
  "get_xvector max_size load p =
     rbind (xdr_get_u32 p) (\<lambda>(n, p).
     if unat n > max_size then Inl Xdr_overflow else get_elems load (unat n) p)"

text \<open>The sizes the traits compute.\<close>

definition opaque_array_size :: "nat \<Rightarrow> nat" where
  "opaque_array_size n = (n + 3) div 4 * 4"

definition opaque_vec_size :: "bytes \<Rightarrow> nat" where
  "opaque_vec_size a = (length a + 7) div 4 * 4"

definition xvector_size :: "('a \<Rightarrow> nat) \<Rightarrow> 'a list \<Rightarrow> nat" where
  "xvector_size serial_size t = 4 + sum_list (map serial_size t)"

section \<open>Whole messages\<close>

text \<open>
  \<open>xdr_to_opaque\<close> allocates exactly \<open>serial_size\<close> bytes; the put archive throws
  \<open>xdr_overflow\<close> if they are too few, and the closing assertion says that they are all used.
\<close>

definition xdr_to_opaque :: "('a \<Rightarrow> nat) \<Rightarrow> ('a \<Rightarrow> bytes) \<Rightarrow> 'a \<Rightarrow> bytes result" where
  "xdr_to_opaque serial_size save v =
     (if length (save v) > serial_size v then Inl Xdr_overflow
      else if length (save v) < serial_size v then Inl (Undefined_behaviour ''assert p.p_ == p.e_'')
      else Inr (save v))"

definition xdr_from_opaque :: "(bytes \<Rightarrow> ('a \<times> bytes) result) \<Rightarrow> bytes \<Rightarrow> 'a result" where
  "xdr_from_opaque load m =
     (if length m mod 4 \<noteq> 0 then Inl Xdr_bad_message_size
      else rbind (load m) (\<lambda>(v, p). if p \<noteq> [] then Inl Xdr_bad_message_size else Inr v))"

section \<open>Byte swaps agree with big-endian bytes\<close>

lemma div4_cases:
  obtains q r where "(n::nat) = 4 * q + r" and "r = 0 \<or> r = 1 \<or> r = 2 \<or> r = 3"
proof (rule that)
  show "n = 4 * (n div 4) + n mod 4" by simp
  show "n mod 4 = 0 \<or> n mod 4 = 1 \<or> n mod 4 = 2 \<or> n mod 4 = 3" by linarith
qed

lemma bit_index_cases:
  assumes "i < (32::nat)"
  obtains q m where "i = 8 * q + m" and "m < 8" and "q = 0 \<or> q = 1 \<or> q = 2 \<or> q = 3"
proof (rule that)
  show "i = 8 * (i div 8) + i mod 8" by simp
  show "i mod 8 < 8" by simp
  show "i div 8 = 0 \<or> i div 8 = 1 \<or> i div 8 = 2 \<or> i div 8 = 3" using assms by linarith
qed

lemma bit_FF00: "bit (0xff00 :: 32 word) i \<longleftrightarrow> 8 \<le> i \<and> i < 16"
proof -
  have "(0xff00 :: 32 word) = push_bit 8 (mask 8)" by (simp add: mask_eq_exp_minus_1)
  then show ?thesis by (auto simp only: bit_simps) (auto simp: bit_simps)
qed

lemma bit_swap32:
  assumes "m < 8" and "q = 0 \<or> q = 1 \<or> q = 2 \<or> q = 3"
  shows "bit (swap32 v) (8 * q + m) \<longleftrightarrow> bit v (8 * (3 - q) + m)"
proof -
  have big: "\<not> bit v n" if "32 \<le> n" for n
    using that bit_imp_le_length[of v n] by auto
  show ?thesis
    unfolding swap32_def bit_or_iff bit_and_iff bit_push_bit_iff bit_drop_bit_eq o_def bit_FF00
    using assms by (auto simp: big)
qed

lemma swap32_swap32 [simp]: "swap32 (swap32 v) = v"
proof (rule bit_word_eqI)
  fix i assume "i < LENGTH(32)"
  then have "i < 32" by simp
  then obtain q m where i: "i = 8 * q + m" "m < 8" "q = 0 \<or> q = 1 \<or> q = 2 \<or> q = 3"
    by (rule bit_index_cases)
  then have "3 - (3 - q) = q" "3 - q = 0 \<or> 3 - q = 1 \<or> 3 - q = 2 \<or> 3 - q = 3" by auto
  then show "bit (swap32 (swap32 v)) i = bit v i"
    using i by (simp only: bit_swap32)
qed

lemma le_load_store [simp]: "le_load32 (le_store32 w @ rest) = w"
proof (rule bit_word_eqI)
  fix i assume "i < LENGTH(32)"
  then have "i < 32" by simp
  then obtain q m where i: "i = 8 * q + m" "m < 8" "q = 0 \<or> q = 1 \<or> q = 2 \<or> q = 3"
    by (rule bit_index_cases)
  from i(3) show "bit (le_load32 (le_store32 w @ rest)) i = bit w i"
    by (elim disjE) (use i(1,2) in \<open>auto simp: le_store32_def bit_simps\<close>)
qed

lemma length_le_store32 [simp]: "length (le_store32 w) = 4"
  by (simp add: le_store32_def)

lemma put32_be_bytes: "put32 v = be_bytes 4 v"
proof -
  have e: "be_bytes 4 v = [be_byte 4 v 0, be_byte 4 v 1, be_byte 4 v 2, be_byte 4 v 3]"
    by (simp add: be_bytes_def upt_conv_Cons numeral_eq_Suc)
  have k: "ucast (drop_bit (8 * k) (swap32 v)) = be_byte 4 v k" if "k < 4" for k
  proof (rule bit_word_eqI)
    fix i assume "i < LENGTH(8)"
    then have i: "i < 8" by simp
    have q: "k = 0 \<or> k = 1 \<or> k = 2 \<or> k = 3" using that by auto
    have "bit (ucast (drop_bit (8 * k) (swap32 v)) :: byte) i = bit (swap32 v) (8 * k + i)"
      using i by (simp add: bit_simps)
    also have "\<dots> = bit v (8 * (3 - k) + i)"
      using i q by (rule bit_swap32)
    also have "\<dots> = bit (be_byte 4 v k) i"
      using i q by (elim disjE) (auto simp: be_byte_def and_FF bit_simps)
    finally show "bit (ucast (drop_bit (8 * k) (swap32 v)) :: byte) i = bit (be_byte 4 v k) i" .
  qed
  show ?thesis
    using k[of 0] k[of 1] k[of 2] k[of 3] by (simp add: put32_def le_store32_def e)
qed

lemma length_put32 [simp]: "length (put32 v) = 4"
  by (simp add: put32_def)

lemma length_put64 [simp]: "length (put64 v) = 8"
  by (simp add: put64_def)

lemma get32_put32 [simp]: "get32 (put32 v @ rest) = (v, rest)"
  by (simp add: get32_def put32_def)

lemma get64_put64 [simp]: "get64 (put64 v @ rest) = (v, rest)"
proof -
  have "push_bit 32 (ucast (ucast (drop_bit 32 v) :: 32 word)) OR ucast (ucast v :: 32 word) = v"
    by (rule bit_word_eqI) (auto simp: bit_simps dest: bit_imp_le_length)
  then show ?thesis by (simp add: get64_def put64_def)
qed

section \<open>Round trips of the primitive codecs\<close>

lemma xdr_get_u32_put [simp]: "xdr_get_u32 (put32 v @ rest) = Inr (v, rest)"
  by (simp add: xdr_get_u32_def xdr_check_def)

lemma xdr_get_u64_put [simp]: "xdr_get_u64 (put64 v @ rest) = Inr (v, rest)"
  by (simp add: xdr_get_u64_def xdr_check_def)

lemma length_put_bytes: "length (put_bytes b) = length b + padding (length b)"
  by (simp add: put_bytes_def padding_def)

lemma padding_round_up: "n + padding n = (n + 3) div 4 * 4"
proof -
  obtain q r where "n = 4 * q + r" "r = 0 \<or> r = 1 \<or> r = 2 \<or> r = 3" by (rule div4_cases)
  then show ?thesis by (auto simp: padding_def)
qed

lemma padding_dvd: "4 dvd n + padding n"
  by (simp add: padding_round_up)

lemma get_bytes_put [simp]: "get_bytes (length b) (put_bytes b @ rest) = Inr (b, rest)"
  by (auto simp: get_bytes_def put_bytes_def)

lemma get_opaque_array_put [simp]:
  "length b = n \<Longrightarrow> get_opaque_array n (put_opaque_array b @ rest) = Inr (b, rest)"
  by (auto simp: get_opaque_array_def put_opaque_array_def xdr_check_def length_put_bytes)

lemma unat_size32 [simp]: "n < 4294967296 \<Longrightarrow> unat (size32 n) = n"
  by (simp add: size32_def unsigned_of_nat take_bit_eq_mod)

lemma get_opaque_vec_put [simp]:
  assumes "length b \<le> n" and "n < 4294967296"
  shows "get_opaque_vec n (put_opaque_vec b @ rest) = Inr (b, rest)"
  using assms
  by (simp add: get_opaque_vec_def put_opaque_vec_def xdr_check_def length_put_bytes)

lemma get_elems_put:
  assumes "\<And>x rest. x \<in> set xs \<Longrightarrow> load (save x @ rest) = Inr (x, rest)"
  shows "get_elems load (length xs) (concat (map save xs) @ rest) = Inr (xs, rest)"
  using assms by (induction xs) auto

lemma get_xvector_put:
  assumes "length xs \<le> n" and "n < 4294967296"
    and "\<And>x rest. x \<in> set xs \<Longrightarrow> load (save x @ rest) = Inr (x, rest)"
  shows "get_xvector n load (put_xvector save xs @ rest) = Inr (xs, rest)"
  using assms by (simp add: get_xvector_def put_xvector_def get_elems_put)

lemma opaque_array_size_put: "length b = n \<Longrightarrow> length (put_opaque_array b) = opaque_array_size n"
  by (simp add: put_opaque_array_def length_put_bytes opaque_array_size_def padding_round_up)

lemma opaque_vec_size_put: "length (put_opaque_vec b) = opaque_vec_size b"
proof -
  have "(length b + 7) div 4 = Suc ((length b + 3) div 4)"
    using div_add_self1[of 4 "length b + 3"] by (simp add: add.commute)
  then show ?thesis
    by (simp add: put_opaque_vec_def length_put_bytes opaque_vec_size_def padding_round_up)
qed

lemma xvector_size_put:
  assumes "\<And>x. x \<in> set xs \<Longrightarrow> length (save x) = serial_size x"
  shows "length (put_xvector save xs) = xvector_size serial_size xs"
  using assms by (simp add: put_xvector_def xvector_size_def length_concat o_def cong: map_cong)

text \<open>A length limit is enforced on every path of the load.\<close>

lemma get_xvector_limit: "get_xvector n load p = Inr (xs, q) \<Longrightarrow> length xs \<le> n"
proof -
  have len: "get_elems load k p = Inr (xs, q) \<Longrightarrow> length xs = k" for k p xs
    by (induction k arbitrary: p xs) (auto simp: result_simps)
  assume "get_xvector n load p = Inr (xs, q)"
  then show ?thesis
    by (auto simp: get_xvector_def result_simps dest!: len split: if_splits)
qed

section \<open>Accepted input is canonical\<close>

text \<open>A load that succeeds has read exactly the bytes a save of its result writes.\<close>

lemma le_store_load: "le_store32 (le_load32 (a # b # c # d # r)) = [a, b, c, d]"
proof -
  let ?w = "ucast a OR push_bit 8 (ucast b) OR push_bit 16 (ucast c) OR push_bit 24 (ucast d) :: 32 word"
  have big: "\<not> bit x n" if "8 \<le> n" for x :: byte and n
    using that bit_imp_le_length[of x n] by auto
  have "ucast ?w = a" "ucast (drop_bit 8 ?w) = b" "ucast (drop_bit 16 ?w) = c" "ucast (drop_bit 24 ?w) = d"
    by (rule bit_word_eqI, auto simp: bit_simps big)+
  then show ?thesis by (simp add: le_store32_def)
qed

lemma get32_canonical:
  assumes "get32 p = (v, q)" and "4 \<le> length p"
  shows "p = put32 v @ q"
proof -
  obtain a b c d r where p: "p = a # b # c # d # r"
  proof -
    from assms(2) obtain a p1 where 1: "p = a # p1" by (cases p) auto
    with assms(2) obtain b p2 where 2: "p1 = b # p2" by (cases p1) auto
    with 1 assms(2) obtain c p3 where 3: "p2 = c # p3" by (cases p2) auto
    with 1 2 assms(2) obtain d r where "p3 = d # r" by (cases p3) auto
    with 1 2 3 show ?thesis using that by simp
  qed
  with assms(1) have v: "swap32 v = le_load32 (a # b # c # d # r)" and q: "q = r"
    by (auto simp: get32_def simp del: le_load32.simps)
  show ?thesis unfolding put32_def v le_store_load using p q by simp
qed

lemma xdr_get_u32_canonical: "xdr_get_u32 p = Inr (v, q) \<Longrightarrow> p = put32 v @ q"
  by (auto simp: xdr_get_u32_def xdr_check_def result_simps split: if_splits intro: get32_canonical)

lemma get_bytes_canonical:
  assumes "get_bytes n p = Inr (b, q)" and "n \<le> length p"
  shows "length b = n \<and> p = put_bytes b @ q"
proof (cases "n = 0")
  case True
  then show ?thesis using assms by (simp add: get_bytes_def put_bytes_def)
next
  case False
  from assms False have le: "n + padding n \<le> length p"
    and z: "\<forall>x \<in> set (take (padding n) (drop n p)). x = 0"
    and b: "b = take n p" "q = drop (n + padding n) p"
    by (auto simp: get_bytes_def split: if_splits)
  have "take (padding n) (drop n p) = replicate (padding n) 0"
    using z le by (intro replicate_eqI) auto
  then have "drop n p = replicate (padding n) 0 @ q"
    using b(2) append_take_drop_id[of "padding n" "drop n p"] by (simp add: add.commute)
  then have "p = take n p @ replicate (padding n) 0 @ q"
    using append_take_drop_id[of n p] by simp
  moreover have "length b = n" "b \<noteq> []" using b le False by auto
  ultimately show ?thesis using b by (simp add: put_bytes_def)
qed

lemma get_opaque_array_canonical:
  "get_opaque_array n p = Inr (b, q) \<Longrightarrow> length b = n \<and> p = put_opaque_array b @ q"
  unfolding get_opaque_array_def put_opaque_array_def xdr_check_def result_simps
  by (auto split: if_splits dest: get_bytes_canonical)

lemma size32_unat: "size32 (unat w) = w"
  by (simp add: size32_def)

lemma get_opaque_vec_canonical:
  assumes "get_opaque_vec n p = Inr (b, q)"
  shows "length b \<le> n \<and> p = put_opaque_vec b @ q"
proof -
  from assms obtain w p1 where w: "xdr_get_u32 p = Inr (w, p1)"
    and len: "unat w \<le> length p1" "unat w \<le> n" and g: "get_bytes (unat w) p1 = Inr (b, q)"
    by (auto simp: get_opaque_vec_def xdr_check_def result_simps split: if_splits)
  from get_bytes_canonical[OF g len(1)] xdr_get_u32_canonical[OF w] len(2)
  show ?thesis by (auto simp: put_opaque_vec_def size32_unat)
qed

lemma get_elems_canonical:
  assumes "\<And>p x q. load p = Inr (x, q) \<Longrightarrow> ok x \<and> p = save x @ q"
  shows "get_elems load n p = Inr (xs, q) \<Longrightarrow>
    length xs = n \<and> list_all ok xs \<and> p = concat (map save xs) @ q"
proof (induction n arbitrary: p xs)
  case 0
  then show ?case by simp
next
  case (Suc n)
  then obtain x p1 ys where x: "load p = Inr (x, p1)" and ys: "get_elems load n p1 = Inr (ys, q)"
    and xs: "xs = x # ys"
    by (auto simp: result_simps)
  from assms[OF x] Suc.IH[OF ys] xs show ?case by simp
qed

lemma get_xvector_canonical:
  assumes "\<And>p x q. load p = Inr (x, q) \<Longrightarrow> ok x \<and> p = save x @ q"
    and "get_xvector n load p = Inr (xs, q)"
  shows "length xs \<le> n \<and> list_all ok xs \<and> p = put_xvector save xs @ q"
proof -
  from assms(2) obtain w p1 where w: "xdr_get_u32 p = Inr (w, p1)"
    and n: "unat w \<le> n" and g: "get_elems load (unat w) p1 = Inr (xs, q)"
    by (auto simp: get_xvector_def result_simps split: if_splits)
  from get_elems_canonical[where load = load, OF assms(1) g] xdr_get_u32_canonical[OF w] n
  show ?thesis by (auto simp: put_xvector_def size32_unat)
qed

section \<open>What the traits of a type promise\<close>

locale xdr_codec =
  fixes save :: "'a \<Rightarrow> bytes"
    and load :: "bytes \<Rightarrow> ('a \<times> bytes) result"
    and serial_size :: "'a \<Rightarrow> nat"
    and wf :: "'a \<Rightarrow> bool"
  assumes load_save: "wf v \<Longrightarrow> load (save v @ rest) = Inr (v, rest)"
    and length_save: "wf v \<Longrightarrow> length (save v) = serial_size v"
    and size_aligned: "wf v \<Longrightarrow> 4 dvd serial_size v"
    and load_canonical: "load p = Inr (v, q) \<Longrightarrow> wf v \<and> p = save v @ q"
begin

lemma to_opaque: "wf v \<Longrightarrow> xdr_to_opaque serial_size save v = Inr (save v)"
  by (simp add: xdr_to_opaque_def length_save)

lemma roundtrip:
  assumes "wf v"
  shows "rbind (xdr_to_opaque serial_size save v) (xdr_from_opaque load) = Inr v"
  using assms load_save[of v "[]"]
  by (simp add: to_opaque xdr_from_opaque_def length_save size_aligned dvd_imp_mod_0)

lemma from_opaque_save: "wf v \<Longrightarrow> xdr_from_opaque load (save v) = Inr v"
  using roundtrip[of v] by (simp add: to_opaque)

lemma trailing_bytes:
  assumes "wf v" and "rest \<noteq> []"
  shows "xdr_from_opaque load (save v @ rest) = Inl Xdr_bad_message_size"
  using assms by (simp add: xdr_from_opaque_def load_save)

lemma save_injective:
  assumes "wf v" and "wf w" and "save v = save w"
  shows "v = w"
  using from_opaque_save[OF assms(1)] from_opaque_save[OF assms(2)] unfolding assms(3) by simp

lemma save_prefix_free:
  assumes "wf v" and "wf w" and "save v @ p = save w @ q"
  shows "v = w \<and> p = q"
  using load_save[OF assms(1), of p] load_save[OF assms(2), of q] unfolding assms(3) by simp

text \<open>Exactly the encodings are accepted, each with its own value.\<close>

lemma from_opaque_iff: "xdr_from_opaque load m = Inr v \<longleftrightarrow> wf v \<and> m = save v"
proof
  assume "xdr_from_opaque load m = Inr v"
  then have "load m = Inr (v, [])"
    by (auto simp: xdr_from_opaque_def result_simps split: if_splits)
  then show "wf v \<and> m = save v" using load_canonical by fastforce
qed (auto simp: from_opaque_save)

lemma xvector_canonical:
  "get_xvector n load p = Inr (vs, q) \<Longrightarrow>
   length vs \<le> n \<and> list_all wf vs \<and> p = put_xvector save vs @ q"
  by (rule get_xvector_canonical[where load = load, OF load_canonical])

lemma xvector_load_save:
  assumes "list_all wf vs" and "length vs \<le> n" and "n < 4294967296"
  shows "get_xvector n load (put_xvector save vs @ rest) = Inr (vs, rest)"
  using assms by (intro get_xvector_put) (auto simp: load_save list_all_iff)

lemma xvector_length_save:
  "list_all wf vs \<Longrightarrow> length (put_xvector save vs) = xvector_size serial_size vs"
  by (intro xvector_size_put) (auto simp: length_save list_all_iff)

lemma xvector_aligned: "list_all wf vs \<Longrightarrow> 4 dvd xvector_size serial_size vs"
  unfolding xvector_size_def by (induction vs) (auto simp: size_aligned intro: dvd_add)

end

end
