(* ===== verification/Wire_Types.thy ===== *)
theory Wire_Types
  imports Xdr_Marshal
begin

text \<open>
  The message types of \<open>hotstuff/xdr/types.x\<close> and \<open>hotstuff/xdr/hotstuff.x\<close> with their
  marshalling: a struct is its fields in order. The generated header is not part of the repository;
  the save, load and size functions follow the struct rules of \<open>xdrpp/types.h\<close> field by field.
  Each type interprets \<open>xdr_codec\<close>, which gives its round trip and the injectivity of its
  encoding.
\<close>

section \<open>Basic types and constants (\<open>types.x\<close>)\<close>

type_synonym hash = bytes
type_synonym signature = bytes
type_synonym public_key = bytes
type_synonym secret_key = bytes
type_synonym replica_id = nat

definition HASH_LEN :: nat where "HASH_LEN = 32"
definition SIGNATURE_LEN :: nat where "SIGNATURE_LEN = 64"
definition MAX_REPLICAS :: nat where "MAX_REPLICAS = 32"
definition UNKNOWN_REPLICA :: replica_id where "UNKNOWN_REPLICA = 32"

text \<open>\<open>Hash()\<close>: the zero-initialised opaque array.\<close>

definition zero_hash :: hash where
  "zero_hash = replicate HASH_LEN 0"

definition save_replica_id :: "replica_id \<Rightarrow> bytes" where
  "save_replica_id r = put32 (word_of_nat r)"

definition load_replica_id :: "bytes \<Rightarrow> (replica_id \<times> bytes) result" where
  "load_replica_id p = rbind (xdr_get_u32 p) (\<lambda>(w, p). Inr (unat w, p))"

section \<open>Structs (\<open>hotstuff.x\<close>)\<close>

record PartialCertificateWire =
  pc_hash :: hash
  pc_sig :: signature

record QuorumCertificateWire =
  justify :: hash
  bmp :: "32 word"
  wire_sigs :: "signature list"

record HotstuffBlockHeader =
  parent_hash :: hash
  header_qc :: QuorumCertificateWire
  body_hash :: hash

record HotstuffBlockWire =
  header :: HotstuffBlockHeader
  body :: bytes

record BlockFetchRequest =
  reqs :: "hash list"

record BlockFetchResponse =
  responses :: "HotstuffBlockWire list"

record VoteMessage =
  vote :: PartialCertificateWire
  voter :: replica_id

record ProposeMessage =
  proposal :: HotstuffBlockWire
  msg_proposer :: replica_id

section \<open>Marshalling\<close>

definition save_partial_cert :: "PartialCertificateWire \<Rightarrow> bytes" where
  "save_partial_cert c = put_opaque_array (pc_hash c) @ put_opaque_array (pc_sig c)"

definition load_partial_cert :: "bytes \<Rightarrow> (PartialCertificateWire \<times> bytes) result" where
  "load_partial_cert p =
     rbind (get_opaque_array HASH_LEN p) (\<lambda>(h, p).
     rbind (get_opaque_array SIGNATURE_LEN p) (\<lambda>(s, p).
     Inr (\<lparr>pc_hash = h, pc_sig = s\<rparr>, p)))"

definition size_partial_cert :: "PartialCertificateWire \<Rightarrow> nat" where
  "size_partial_cert c = opaque_array_size HASH_LEN + opaque_array_size SIGNATURE_LEN"

definition save_qc :: "QuorumCertificateWire \<Rightarrow> bytes" where
  "save_qc q = put_opaque_array (justify q) @ put32 (bmp q) @ put_xvector put_opaque_array (wire_sigs q)"

definition load_qc :: "bytes \<Rightarrow> (QuorumCertificateWire \<times> bytes) result" where
  "load_qc p =
     rbind (get_opaque_array HASH_LEN p) (\<lambda>(h, p).
     rbind (xdr_get_u32 p) (\<lambda>(b, p).
     rbind (get_xvector MAX_REPLICAS (get_opaque_array SIGNATURE_LEN) p) (\<lambda>(ss, p).
     Inr (\<lparr>justify = h, bmp = b, wire_sigs = ss\<rparr>, p))))"

definition size_qc :: "QuorumCertificateWire \<Rightarrow> nat" where
  "size_qc q = opaque_array_size HASH_LEN + 4
     + xvector_size (\<lambda>_. opaque_array_size SIGNATURE_LEN) (wire_sigs q)"

definition save_header :: "HotstuffBlockHeader \<Rightarrow> bytes" where
  "save_header h = put_opaque_array (parent_hash h) @ save_qc (header_qc h) @ put_opaque_array (body_hash h)"

definition load_header :: "bytes \<Rightarrow> (HotstuffBlockHeader \<times> bytes) result" where
  "load_header p =
     rbind (get_opaque_array HASH_LEN p) (\<lambda>(ph, p).
     rbind (load_qc p) (\<lambda>(q, p).
     rbind (get_opaque_array HASH_LEN p) (\<lambda>(bh, p).
     Inr (\<lparr>parent_hash = ph, header_qc = q, body_hash = bh\<rparr>, p))))"

definition size_header :: "HotstuffBlockHeader \<Rightarrow> nat" where
  "size_header h = opaque_array_size HASH_LEN + size_qc (header_qc h) + opaque_array_size HASH_LEN"

definition save_block_wire :: "HotstuffBlockWire \<Rightarrow> bytes" where
  "save_block_wire b = save_header (header b) @ put_opaque_vec (body b)"

definition load_block_wire :: "bytes \<Rightarrow> (HotstuffBlockWire \<times> bytes) result" where
  "load_block_wire p =
     rbind (load_header p) (\<lambda>(h, p).
     rbind (get_opaque_vec XDR_MAX_LEN p) (\<lambda>(b, p).
     Inr (\<lparr>header = h, body = b\<rparr>, p)))"

definition size_block_wire :: "HotstuffBlockWire \<Rightarrow> nat" where
  "size_block_wire b = size_header (header b) + opaque_vec_size (body b)"

definition save_fetch_request :: "BlockFetchRequest \<Rightarrow> bytes" where
  "save_fetch_request r = put_xvector put_opaque_array (reqs r)"

definition load_fetch_request :: "bytes \<Rightarrow> (BlockFetchRequest \<times> bytes) result" where
  "load_fetch_request p =
     rbind (get_xvector XDR_MAX_LEN (get_opaque_array HASH_LEN) p) (\<lambda>(hs, p). Inr (\<lparr>reqs = hs\<rparr>, p))"

definition size_fetch_request :: "BlockFetchRequest \<Rightarrow> nat" where
  "size_fetch_request r = xvector_size (\<lambda>_. opaque_array_size HASH_LEN) (reqs r)"

definition save_fetch_response :: "BlockFetchResponse \<Rightarrow> bytes" where
  "save_fetch_response r = put_xvector save_block_wire (responses r)"

definition load_fetch_response :: "bytes \<Rightarrow> (BlockFetchResponse \<times> bytes) result" where
  "load_fetch_response p =
     rbind (get_xvector XDR_MAX_LEN load_block_wire p) (\<lambda>(bs, p). Inr (\<lparr>responses = bs\<rparr>, p))"

definition size_fetch_response :: "BlockFetchResponse \<Rightarrow> nat" where
  "size_fetch_response r = xvector_size size_block_wire (responses r)"

definition save_vote_message :: "VoteMessage \<Rightarrow> bytes" where
  "save_vote_message m = save_partial_cert (vote m) @ save_replica_id (voter m)"

definition load_vote_message :: "bytes \<Rightarrow> (VoteMessage \<times> bytes) result" where
  "load_vote_message p =
     rbind (load_partial_cert p) (\<lambda>(c, p).
     rbind (load_replica_id p) (\<lambda>(r, p). Inr (\<lparr>vote = c, voter = r\<rparr>, p)))"

definition size_vote_message :: "VoteMessage \<Rightarrow> nat" where
  "size_vote_message m = size_partial_cert (vote m) + 4"

definition save_propose_message :: "ProposeMessage \<Rightarrow> bytes" where
  "save_propose_message m = save_block_wire (proposal m) @ save_replica_id (msg_proposer m)"

definition load_propose_message :: "bytes \<Rightarrow> (ProposeMessage \<times> bytes) result" where
  "load_propose_message p =
     rbind (load_block_wire p) (\<lambda>(b, p).
     rbind (load_replica_id p) (\<lambda>(r, p). Inr (\<lparr>proposal = b, msg_proposer = r\<rparr>, p)))"

definition size_propose_message :: "ProposeMessage \<Rightarrow> nat" where
  "size_propose_message m = size_block_wire (proposal m) + 4"

section \<open>Well-formed values\<close>

text \<open>The lengths the C++ types fix.\<close>

definition wf_hash :: "hash \<Rightarrow> bool" where "wf_hash h \<longleftrightarrow> length h = HASH_LEN"
definition wf_signature :: "signature \<Rightarrow> bool" where "wf_signature s \<longleftrightarrow> length s = SIGNATURE_LEN"

definition wf_partial_cert :: "PartialCertificateWire \<Rightarrow> bool" where
  "wf_partial_cert c \<longleftrightarrow> wf_hash (pc_hash c) \<and> wf_signature (pc_sig c)"

definition wf_qc :: "QuorumCertificateWire \<Rightarrow> bool" where
  "wf_qc q \<longleftrightarrow> wf_hash (justify q) \<and> list_all wf_signature (wire_sigs q)
     \<and> length (wire_sigs q) \<le> MAX_REPLICAS"

definition wf_header :: "HotstuffBlockHeader \<Rightarrow> bool" where
  "wf_header h \<longleftrightarrow> wf_hash (parent_hash h) \<and> wf_qc (header_qc h) \<and> wf_hash (body_hash h)"

definition wf_block_wire :: "HotstuffBlockWire \<Rightarrow> bool" where
  "wf_block_wire b \<longleftrightarrow> wf_header (header b) \<and> length (body b) \<le> XDR_MAX_LEN"

definition wf_fetch_request :: "BlockFetchRequest \<Rightarrow> bool" where
  "wf_fetch_request r \<longleftrightarrow> list_all wf_hash (reqs r) \<and> length (reqs r) \<le> XDR_MAX_LEN"

definition wf_fetch_response :: "BlockFetchResponse \<Rightarrow> bool" where
  "wf_fetch_response r \<longleftrightarrow> list_all wf_block_wire (responses r) \<and> length (responses r) \<le> XDR_MAX_LEN"

definition wf_replica_id :: "replica_id \<Rightarrow> bool" where "wf_replica_id r \<longleftrightarrow> r < 2 ^ 32"

definition wf_vote_message :: "VoteMessage \<Rightarrow> bool" where
  "wf_vote_message m \<longleftrightarrow> wf_partial_cert (vote m) \<and> wf_replica_id (voter m)"

definition wf_propose_message :: "ProposeMessage \<Rightarrow> bool" where
  "wf_propose_message m \<longleftrightarrow> wf_block_wire (proposal m) \<and> wf_replica_id (msg_proposer m)"

lemmas wire_consts = HASH_LEN_def SIGNATURE_LEN_def MAX_REPLICAS_def XDR_MAX_LEN_def

lemma wf_zero_hash [simp]: "wf_hash zero_hash"
  by (simp add: wf_hash_def zero_hash_def)

lemma load_replica_id_save:
  "wf_replica_id r \<Longrightarrow> load_replica_id (save_replica_id r @ rest) = Inr (r, rest)"
  by (simp add: load_replica_id_def save_replica_id_def wf_replica_id_def unsigned_of_nat take_bit_eq_mod)

lemma length_save_replica_id [simp]: "length (save_replica_id r) = 4"
  by (simp add: save_replica_id_def)

lemma load_replica_id_canonical:
  "load_replica_id p = Inr (r, q) \<Longrightarrow> wf_replica_id r \<and> p = save_replica_id r @ q"
proof -
  assume "load_replica_id p = Inr (r, q)"
  then obtain w where w: "xdr_get_u32 p = Inr (w, q)" and r: "r = unat w"
    by (auto simp: load_replica_id_def result_simps)
  have "unat w < 2 ^ LENGTH(32)" by (rule unsigned_less)
  with r xdr_get_u32_canonical[OF w] show ?thesis
    by (simp add: wf_replica_id_def save_replica_id_def)
qed

section \<open>Every message type is a codec\<close>

interpretation hash_codec: xdr_codec put_opaque_array "get_opaque_array HASH_LEN"
  "\<lambda>_. opaque_array_size HASH_LEN" wf_hash
  by unfold_locales
    (auto simp: wf_hash_def opaque_array_size_put opaque_array_size_def
      dest: get_opaque_array_canonical)

interpretation sig_codec: xdr_codec put_opaque_array "get_opaque_array SIGNATURE_LEN"
  "\<lambda>_. opaque_array_size SIGNATURE_LEN" wf_signature
  by unfold_locales
    (auto simp: wf_signature_def opaque_array_size_put opaque_array_size_def
      dest: get_opaque_array_canonical)

lemmas leaf_codecs =
  hash_codec.load_save hash_codec.length_save sig_codec.load_save sig_codec.length_save

lemma load_partial_cert_canonical:
  "load_partial_cert p = Inr (v, q) \<Longrightarrow> wf_partial_cert v \<and> p = save_partial_cert v @ q"
  by (auto simp: load_partial_cert_def save_partial_cert_def wf_partial_cert_def result_simps
      dest!: hash_codec.load_canonical sig_codec.load_canonical)

interpretation partial_cert_codec: xdr_codec save_partial_cert load_partial_cert
  size_partial_cert wf_partial_cert
  by unfold_locales
    (auto simp: wf_partial_cert_def save_partial_cert_def load_partial_cert_def size_partial_cert_def
      leaf_codecs opaque_array_size_def dest: load_partial_cert_canonical[unfolded
        wf_partial_cert_def save_partial_cert_def load_partial_cert_def])

lemma load_qc_canonical: "load_qc p = Inr (v, q) \<Longrightarrow> wf_qc v \<and> p = save_qc v @ q"
  by (auto simp: load_qc_def save_qc_def wf_qc_def result_simps
      dest!: hash_codec.load_canonical sig_codec.xvector_canonical xdr_get_u32_canonical)

interpretation qc_codec: xdr_codec save_qc load_qc size_qc wf_qc
proof unfold_locales
  fix v rest assume w: "wf_qc v"
  then show "load_qc (save_qc v @ rest) = Inr (v, rest)"
    by (simp add: wf_qc_def save_qc_def load_qc_def leaf_codecs sig_codec.xvector_load_save
        wire_consts(3))
  from w show "length (save_qc v) = size_qc v"
    by (simp add: wf_qc_def save_qc_def size_qc_def leaf_codecs sig_codec.xvector_length_save)
  from w show "4 dvd size_qc v"
    unfolding size_qc_def wf_qc_def
    by (intro dvd_add sig_codec.xvector_aligned) (auto simp: opaque_array_size_def)
qed (rule load_qc_canonical)

lemma load_header_canonical: "load_header p = Inr (v, q) \<Longrightarrow> wf_header v \<and> p = save_header v @ q"
  by (auto simp: load_header_def save_header_def wf_header_def result_simps
      dest!: hash_codec.load_canonical qc_codec.load_canonical)

interpretation header_codec: xdr_codec save_header load_header size_header wf_header
proof unfold_locales
  fix v rest assume w: "wf_header v"
  then show "load_header (save_header v @ rest) = Inr (v, rest)"
    by (simp add: wf_header_def save_header_def load_header_def leaf_codecs qc_codec.load_save)
  from w show "length (save_header v) = size_header v"
    by (simp add: wf_header_def save_header_def size_header_def leaf_codecs qc_codec.length_save)
  from w show "4 dvd size_header v"
    unfolding size_header_def wf_header_def
    by (intro dvd_add qc_codec.size_aligned) (auto simp: opaque_array_size_def)
qed (rule load_header_canonical)

lemma load_block_wire_canonical:
  "load_block_wire p = Inr (v, q) \<Longrightarrow> wf_block_wire v \<and> p = save_block_wire v @ q"
  by (auto simp: load_block_wire_def save_block_wire_def wf_block_wire_def result_simps
      dest!: header_codec.load_canonical get_opaque_vec_canonical)

interpretation block_codec: xdr_codec save_block_wire load_block_wire size_block_wire wf_block_wire
proof unfold_locales
  fix b :: HotstuffBlockWire and rest
  assume w: "wf_block_wire b"
  then have "get_opaque_vec XDR_MAX_LEN (put_opaque_vec (body b) @ rest) = Inr (body b, rest)"
    by (intro get_opaque_vec_put) (auto simp: wf_block_wire_def wire_consts(4))
  with w show "load_block_wire (save_block_wire b @ rest) = Inr (b, rest)"
    by (simp add: load_block_wire_def save_block_wire_def wf_block_wire_def header_codec.load_save)
  from w show "length (save_block_wire b) = size_block_wire b"
    by (simp add: save_block_wire_def size_block_wire_def wf_block_wire_def
        header_codec.length_save opaque_vec_size_put)
  from w show "4 dvd size_block_wire b"
    by (auto simp: size_block_wire_def wf_block_wire_def opaque_vec_size_def
        intro!: dvd_add header_codec.size_aligned)
qed (rule load_block_wire_canonical)

lemma load_fetch_request_canonical:
  "load_fetch_request p = Inr (v, q) \<Longrightarrow> wf_fetch_request v \<and> p = save_fetch_request v @ q"
  by (auto simp: load_fetch_request_def save_fetch_request_def wf_fetch_request_def result_simps
      dest!: hash_codec.xvector_canonical)

interpretation fetch_request_codec: xdr_codec save_fetch_request load_fetch_request
  size_fetch_request wf_fetch_request
proof unfold_locales
  fix v rest assume w: "wf_fetch_request v"
  then show "load_fetch_request (save_fetch_request v @ rest) = Inr (v, rest)"
    "length (save_fetch_request v) = size_fetch_request v" "4 dvd size_fetch_request v"
    by (simp_all add: wf_fetch_request_def save_fetch_request_def load_fetch_request_def
        size_fetch_request_def wire_consts(4) hash_codec.xvector_load_save
        hash_codec.xvector_length_save hash_codec.xvector_aligned)
qed (rule load_fetch_request_canonical)

lemma load_fetch_response_canonical:
  "load_fetch_response p = Inr (v, q) \<Longrightarrow> wf_fetch_response v \<and> p = save_fetch_response v @ q"
  by (auto simp: load_fetch_response_def save_fetch_response_def wf_fetch_response_def result_simps
      dest!: block_codec.xvector_canonical)

interpretation fetch_response_codec: xdr_codec save_fetch_response load_fetch_response
  size_fetch_response wf_fetch_response
proof unfold_locales
  fix v rest assume w: "wf_fetch_response v"
  then show "load_fetch_response (save_fetch_response v @ rest) = Inr (v, rest)"
    "length (save_fetch_response v) = size_fetch_response v" "4 dvd size_fetch_response v"
    by (simp_all add: wf_fetch_response_def save_fetch_response_def load_fetch_response_def
        size_fetch_response_def wire_consts(4) block_codec.xvector_load_save
        block_codec.xvector_length_save block_codec.xvector_aligned)
qed (rule load_fetch_response_canonical)

lemma load_vote_message_canonical:
  "load_vote_message p = Inr (v, q) \<Longrightarrow> wf_vote_message v \<and> p = save_vote_message v @ q"
  by (auto simp: load_vote_message_def save_vote_message_def wf_vote_message_def result_simps
      dest!: partial_cert_codec.load_canonical load_replica_id_canonical)

interpretation vote_codec: xdr_codec save_vote_message load_vote_message size_vote_message
  wf_vote_message
proof unfold_locales
  fix v rest assume w: "wf_vote_message v"
  then show "load_vote_message (save_vote_message v @ rest) = Inr (v, rest)"
    "length (save_vote_message v) = size_vote_message v"
    by (simp_all add: wf_vote_message_def save_vote_message_def load_vote_message_def
        size_vote_message_def partial_cert_codec.load_save partial_cert_codec.length_save
        load_replica_id_save)
  from w show "4 dvd size_vote_message v"
    unfolding size_vote_message_def wf_vote_message_def
    by (intro dvd_add partial_cert_codec.size_aligned) auto
qed (rule load_vote_message_canonical)

lemma load_propose_message_canonical:
  "load_propose_message p = Inr (v, q) \<Longrightarrow> wf_propose_message v \<and> p = save_propose_message v @ q"
  by (auto simp: load_propose_message_def save_propose_message_def wf_propose_message_def result_simps
      dest!: block_codec.load_canonical load_replica_id_canonical)

interpretation propose_codec: xdr_codec save_propose_message load_propose_message
  size_propose_message wf_propose_message
proof unfold_locales
  fix v rest assume w: "wf_propose_message v"
  then show "load_propose_message (save_propose_message v @ rest) = Inr (v, rest)"
    "length (save_propose_message v) = size_propose_message v"
    by (simp_all add: wf_propose_message_def save_propose_message_def load_propose_message_def
        size_propose_message_def block_codec.load_save block_codec.length_save
        load_replica_id_save)
  from w show "4 dvd size_propose_message v"
    unfolding size_propose_message_def wf_propose_message_def
    by (intro dvd_add block_codec.size_aligned) auto
qed (rule load_propose_message_canonical)

section \<open>Claims\<close>

text \<open>C25: the bytes a block is read from (a proposal, a fetch response, a block file) determine it and
are determined by it: \<open>xdr_from_opaque\<close> accepts exactly the encodings of well-formed blocks, with
no padding, length or trailing bytes left open.\<close>

theorem block_wire_accepts:
  "xdr_from_opaque load_block_wire m = Inr b \<longleftrightarrow> wf_block_wire b \<and> m = save_block_wire b"
  by (rule block_codec.from_opaque_iff)

end
