(* ===== verification/Replica_Config.thy ===== *)
theory Replica_Config
  imports Wire_Types
begin

text \<open>
  \<open>hotstuff/config/replica_config.{h,cc}\<close>: the replica table and the quorum size. The
  \<open>unordered_map\<close> is an association list; nothing in the program depends on its order.

  The locale \<open>quorum_system\<close> is the interface the certificate and safety theories rely on: two
  quorums overlap in a known number of members, so that fewer faulty members than that leave an
  honest one in common. It is interpreted on \<open>ReplicaConfig\<close> after \<open>finish_init\<close>.
\<close>

section \<open>Definitions\<close>

datatype ReplicaService = BLOCK_FETCH_SERVICE | PROTOCOL_SERVICE

record ReplicaInfo =
  hostname :: string
  block_fetch_port :: string
  protocol_port :: string
  data_dir :: string
  info_id :: replica_id
  pk :: public_key

fun get_service_name :: "ReplicaInfo \<Rightarrow> ReplicaService \<Rightarrow> string" where
  "get_service_name info BLOCK_FETCH_SERVICE = block_fetch_port info"
| "get_service_name info PROTOCOL_SERVICE = protocol_port info"

definition get_data_dir :: "ReplicaInfo \<Rightarrow> string" where
  "get_data_dir info = data_dir info"

record ReplicaConfig =
  replica_map :: "(replica_id \<times> ReplicaInfo) list"
  nreplicas :: nat
  nmajority :: nat

definition empty_config :: ReplicaConfig where
  "empty_config = \<lparr>replica_map = [], nreplicas = 0, nmajority = 0\<rparr>"

definition add_replica :: "ReplicaInfo \<Rightarrow> ReplicaConfig \<Rightarrow> ReplicaConfig result" where
  "add_replica info c =
     (let rid = info_id info in
      if map_of (replica_map c) rid \<noteq> None then Inl (Runtime_error ''can't add replicaid twice!'')
      else Inr (c\<lparr>replica_map := (rid, info) # replica_map c, nreplicas := nreplicas c + 1\<rparr>))"

definition finish_init :: "ReplicaConfig \<Rightarrow> ReplicaConfig" where
  "finish_init c =
     (let nfaulty = nreplicas c div 3 in c\<lparr>nmajority := nreplicas c - nfaulty\<rparr>)"

definition get_info :: "ReplicaConfig \<Rightarrow> replica_id \<Rightarrow> ReplicaInfo result" where
  "get_info c rid =
     (case map_of (replica_map c) rid of
        None \<Rightarrow> Inl (Runtime_error ''rid not found'')
      | Some info \<Rightarrow> Inr info)"

definition get_publickey :: "ReplicaConfig \<Rightarrow> replica_id \<Rightarrow> public_key result" where
  "get_publickey c rid = rbind (get_info c rid) (\<lambda>info. Inr (pk info))"

definition list_info :: "ReplicaConfig \<Rightarrow> ReplicaInfo list" where
  "list_info c = map snd (replica_map c)"

definition is_valid_replica :: "ReplicaConfig \<Rightarrow> replica_id \<Rightarrow> bool" where
  "is_valid_replica c replica \<longleftrightarrow> map_of (replica_map c) replica \<noteq> None"

text \<open>The set-up code: add every replica, then \<open>finish_init\<close>.\<close>

definition make_config :: "ReplicaInfo list \<Rightarrow> ReplicaConfig result" where
  "make_config infos = rbind (rfold add_replica infos empty_config) (\<lambda>c. Inr (finish_init c))"

section \<open>Invariant\<close>

definition config_table_ok :: "ReplicaConfig \<Rightarrow> bool" where
  "config_table_ok c \<longleftrightarrow> distinct (map fst (replica_map c)) \<and> nreplicas c = length (replica_map c)
     \<and> (\<forall>(rid, info) \<in> set (replica_map c). info_id info = rid)"

definition config_ok :: "ReplicaConfig \<Rightarrow> bool" where
  "config_ok c \<longleftrightarrow> config_table_ok c \<and> nmajority c = nreplicas c - nreplicas c div 3"

definition members :: "ReplicaConfig \<Rightarrow> replica_id set" where
  "members c = fst ` set (replica_map c)"

lemma is_valid_replica_iff: "is_valid_replica c r \<longleftrightarrow> r \<in> members c"
  using map_of_eq_None_iff[of "replica_map c" r] by (simp add: is_valid_replica_def members_def)

lemma get_info_valid: "is_valid_replica c r \<Longrightarrow> \<exists>info. get_info c r = Inr info"
  by (auto simp: is_valid_replica_def get_info_def)

lemma get_info_id: "config_table_ok c \<Longrightarrow> get_info c r = Inr info \<Longrightarrow> info_id info = r"
  by (auto simp: config_table_ok_def get_info_def split: option.splits dest!: map_of_SomeD)

lemma get_info_error_iff: "(\<exists>e. get_info c r = Inl e) \<longleftrightarrow> \<not> is_valid_replica c r"
  by (auto simp: is_valid_replica_def get_info_def split: option.splits)

lemma add_replica_table_ok:
  assumes "config_table_ok c" and "add_replica info c = Inr c'"
  shows "config_table_ok c' \<and> members c' = insert (info_id info) (members c)
     \<and> get_info c' (info_id info) = Inr info"
  using assms
  by (auto simp: add_replica_def config_table_ok_def members_def get_info_def Let_def map_of_eq_None_iff
      split: if_splits)

lemma rfold_add_replica:
  assumes "rfold add_replica infos c = Inr c'" and "config_table_ok c"
  shows "config_table_ok c' \<and> members c' = members c \<union> info_id ` set infos"
  using assms
proof (induction infos arbitrary: c)
  case Nil
  then show ?case by simp
next
  case (Cons info infos)
  from Cons.prems(1) obtain d where d: "add_replica info c = Inr d" "rfold add_replica infos d = Inr c'"
    by (auto simp: result_simps)
  from add_replica_table_ok[OF Cons.prems(2) d(1)]
  have "config_table_ok d" and m: "members d = insert (info_id info) (members c)" by auto
  with Cons.IH[OF d(2)] show ?case by auto
qed

lemma config_ok_finish_init: "config_table_ok c \<Longrightarrow> config_ok (finish_init c)"
  by (simp add: config_ok_def config_table_ok_def finish_init_def Let_def)

lemma make_config_ok:
  assumes "make_config infos = Inr c"
  shows "config_ok c \<and> members c = info_id ` set infos"
proof -
  from assms obtain d where d: "rfold add_replica infos empty_config = Inr d" "c = finish_init d"
    by (auto simp: make_config_def result_simps)
  have "config_table_ok empty_config" "members empty_config = {}"
    by (auto simp: config_table_ok_def empty_config_def members_def)
  with rfold_add_replica[OF d(1)] have "config_table_ok d" "members d = info_id ` set infos" by auto
  moreover have "members (finish_init d) = members d"
    by (simp add: finish_init_def members_def Let_def)
  ultimately show ?thesis using d(2) by (simp add: config_ok_finish_init)
qed

lemma card_members: "config_table_ok c \<Longrightarrow> card (members c) = nreplicas c"
  by (metis config_table_ok_def distinct_card length_map list.set_map members_def)

lemma finite_members [simp]: "finite (members c)"
  by (simp add: members_def)

section \<open>Quorums\<close>

definition is_quorum :: "ReplicaConfig \<Rightarrow> replica_id set \<Rightarrow> bool" where
  "is_quorum c Q \<longleftrightarrow> Q \<subseteq> members c \<and> nmajority c \<le> card Q"

text \<open>The number of members any two quorums have in common.\<close>

definition quorum_overlap :: "ReplicaConfig \<Rightarrow> nat" where
  "quorum_overlap c = nreplicas c - 2 * (nreplicas c div 3)"

lemma quorum_overlap_card:
  assumes "config_ok c" and "is_quorum c Q" and "is_quorum c Q'"
  shows "quorum_overlap c \<le> card (Q \<inter> Q')"
proof -
  have fin: "finite Q" "finite Q'"
    using assms(2,3) finite_subset[OF _ finite_members] by (auto simp: is_quorum_def)
  have "card (Q \<union> Q') \<le> nreplicas c"
    using assms card_mono[OF finite_members, of "Q \<union> Q'" c] card_members[of c]
    by (auto simp: is_quorum_def config_ok_def)
  moreover have "card Q + card Q' = card (Q \<union> Q') + card (Q \<inter> Q')"
    using fin by (rule card_Un_Int)
  moreover have "nreplicas c - nreplicas c div 3 \<le> card Q" "nreplicas c - nreplicas c div 3 \<le> card Q'"
    using assms by (auto simp: is_quorum_def config_ok_def)
  ultimately show ?thesis unfolding quorum_overlap_def by linarith
qed

locale quorum_system =
  fixes quorum :: "'c \<Rightarrow> 'r set \<Rightarrow> bool"
    and overlap :: "'c \<Rightarrow> nat"
    and valid :: "'c \<Rightarrow> bool"
  assumes overlap_card: "valid c \<Longrightarrow> quorum c Q \<Longrightarrow> quorum c Q' \<Longrightarrow> overlap c \<le> card (Q \<inter> Q')"
    and quorum_finite: "valid c \<Longrightarrow> quorum c Q \<Longrightarrow> finite Q"
begin

text \<open>With fewer faulty members than the overlap, two quorums share an honest member.\<close>

lemma honest_in_common:
  assumes "valid c" and "quorum c Q" and "quorum c Q'"
    and "finite faulty" and "card faulty < overlap c"
  shows "\<exists>r. r \<in> Q \<and> r \<in> Q' \<and> r \<notin> faulty"
proof (rule ccontr)
  assume "\<not> ?thesis"
  then have "Q \<inter> Q' \<subseteq> faulty" by auto
  then have "card (Q \<inter> Q') \<le> card faulty" by (rule card_mono[OF assms(4)])
  with overlap_card[OF assms(1-3)] assms(5) show False by simp
qed

lemma honest_member:
  assumes "valid c" and "quorum c Q" and "finite faulty" and "card faulty < overlap c"
  shows "\<exists>r. r \<in> Q \<and> r \<notin> faulty"
  using honest_in_common[OF assms(1,2,2) assms(3,4)] by auto

end

interpretation replica_quorums: quorum_system is_quorum quorum_overlap config_ok
  by unfold_locales
    (auto intro: quorum_overlap_card finite_subset[OF _ finite_members] simp: is_quorum_def)

text \<open>How many faults that is: at least one third, rounded down, unless the count divides by three.\<close>

lemma quorum_overlap_faults:
  assumes "nreplicas c mod 3 \<noteq> 0"
  shows "nreplicas c div 3 < quorum_overlap c"
  using assms div_mult_mod_eq[of "nreplicas c" 3] unfolding quorum_overlap_def by linarith

lemma quorum_overlap_multiple_of_3:
  assumes "nreplicas c mod 3 = 0"
  shows "quorum_overlap c = nreplicas c div 3"
  using assms div_mult_mod_eq[of "nreplicas c" 3] unfolding quorum_overlap_def by linarith

section \<open>Claims\<close>

text \<open>C20: with up to a third of the replicas faulty, any two quorums of a finished configuration share an
honest replica, unless the number of replicas divides by three.\<close>

theorem quorums_share_honest:
  assumes "make_config infos = Inr c" and "nreplicas c mod 3 \<noteq> 0"
    and "finite faulty" and "card faulty \<le> nreplicas c div 3"
    and "is_quorum c Q" and "is_quorum c Q'"
  shows "\<exists>r. r \<in> Q \<and> r \<in> Q' \<and> r \<notin> faulty"
  using replica_quorums.honest_in_common[of c Q Q' faulty] make_config_ok[OF assms(1)]
    quorum_overlap_faults[OF assms(2)] assms(3-6) by simp

definition sample_info :: "replica_id \<Rightarrow> ReplicaInfo" where
  "sample_info r = \<lparr>hostname = ''localhost'', block_fetch_port = ''9000'', protocol_port = ''9001'',
     data_dir = ''data/'', info_id = r, pk = []\<rparr>"

lemma four_replicas:
  shows "make_config (map sample_info [0, 1, 2, 3]) =
      Inr \<lparr>replica_map = map (\<lambda>r. (r, sample_info r)) [3, 2, 1, 0], nreplicas = 4, nmajority = 3\<rparr>"
  by (simp add: make_config_def add_replica_def empty_config_def finish_init_def sample_info_def MAX_REPLICAS_def Let_def)

theorem quorums_share_honest_witness:
  "\<exists>r. r \<in> {0, 1, 2} \<and> r \<in> {1, 2, 3 :: nat} \<and> r \<notin> {2}"
  by (rule quorums_share_honest[OF four_replicas, of "{2}" "{0, 1, 2}" "{1, 2, 3}"])
    (auto simp: is_quorum_def members_def)

text \<open>With three replicas (or any multiple of three) the majority that \<open>finish_init\<close> computes is too
small for a third of faults: two quorums meet in the faulty replica only.\<close>

lemma three_replicas_unsafe:
  "\<exists>c. make_config (map sample_info [0, 1, 2]) = Inr c \<and> nmajority c = 2
     \<and> is_quorum c {0, 1} \<and> is_quorum c {1, 2} \<and> {0, 1} \<inter> {1, 2} \<subseteq> {1 :: nat}
     \<and> card {1 :: nat} \<le> nreplicas c div 3"
  by (simp add: make_config_def add_replica_def empty_config_def finish_init_def sample_info_def MAX_REPLICAS_def
      Let_def is_quorum_def members_def)

end
