(* ===== verification/Bit_Vector.thy ===== *)
theory Bit_Vector
  imports Big_Endian
begin

unbundle bit_operations_syntax

text \<open>
  The bit set of \<open>utils/bitvector.h\<close>: \<open>BitVector<uint_type>\<close> over a machine word of any
  width, with the three specialisations of \<open>detail::BVManipFns\<close> (\<open>uint16_t\<close>,
  \<open>uint32_t\<close>, \<open>uint64_t\<close>) as the widths 16, 32 and 64. The abstract value of a bit vector
  is the ascending list of its elements, \<open>bv_elems\<close>; the lemmas say what every operation does
  to it.
\<close>

section \<open>Definitions\<close>

text \<open>\<open>__builtin_ffs(bv) - 1\<close> read as \<open>uint8_t\<close>: 255 when no bit is set.\<close>

definition get_lowest :: "'a::len word \<Rightarrow> nat" where
  "get_lowest bv = (case filter (bit bv) [0..<LENGTH('a)] of [] \<Rightarrow> 255 | i # _ \<Rightarrow> i)"

text \<open>\<open>__builtin_popcount\<close>.\<close>

definition bv_size :: "'a::len word \<Rightarrow> nat" where
  "bv_size bv = length (filter (bit bv) [0..<LENGTH('a)])"

definition size_in_bytes :: "'a::len word \<Rightarrow> nat" where
  "size_in_bytes bv = LENGTH('a) div 8"

definition bv_add :: "'a::len word \<Rightarrow> nat \<Rightarrow> 'a word" where
  "bv_add bv loc = bv OR push_bit loc 1"

text \<open>\<open>pop\<close>: undefined when the vector is empty (it shifts by 255).\<close>

definition bv_pop :: "'a::len word \<Rightarrow> (nat \<times> 'a word) result" where
  "bv_pop bv =
     (if bv = 0 then Inl (Undefined_behaviour ''pop of an empty BitVector'')
      else let loc = get_lowest bv in Inr (loc, bv - push_bit loc 1))"

definition bv_erase :: "'a::len word \<Rightarrow> nat \<Rightarrow> 'a word" where
  "bv_erase bv loc = bv AND NOT (push_bit loc 1)"

definition bv_contains :: "'a::len word \<Rightarrow> nat \<Rightarrow> bool" where
  "bv_contains bv loc \<longleftrightarrow> push_bit loc 1 AND bv \<noteq> 0"

definition bv_drop_lt :: "'a::len word \<Rightarrow> nat \<Rightarrow> 'a word" where
  "bv_drop_lt bv lowest_remaining = push_bit lowest_remaining (- 1) AND bv"

definition bv_empty :: "'a::len word \<Rightarrow> bool" where
  "bv_empty bv \<longleftrightarrow> bv = 0"

definition bv_lowest :: "'a::len word \<Rightarrow> nat" where
  "bv_lowest bv = get_lowest bv"

text \<open>\<open>write\<close>: \<open>needed_bytes\<close> bytes, the highest first.\<close>

definition bv_write :: "bytes \<Rightarrow> 'a::len word \<Rightarrow> bytes" where
  "bv_write vec bv = append_unsigned_big_endian (size_in_bytes bv) vec bv"

definition bv_clear :: "'a::len word \<Rightarrow> 'a word" where
  "bv_clear bv = 0"

text \<open>The elements, lowest first.\<close>

definition bv_elems :: "'a::len word \<Rightarrow> nat list" where
  "bv_elems bv = filter (bit bv) [0..<LENGTH('a)]"

section \<open>What the operations do to the elements\<close>

lemma bv_elems_iff [simp]: "i \<in> set (bv_elems bv) \<longleftrightarrow> bit bv i"
  for bv :: "'a::len word"
  by (auto simp: bv_elems_def dest: bit_imp_le_length)

lemma bv_elems_sorted: "sorted_wrt (<) (bv_elems bv)"
  by (simp add: bv_elems_def sorted_wrt_filter)

lemma bv_elems_less: "i \<in> set (bv_elems bv) \<Longrightarrow> i < LENGTH('a)" for bv :: "'a::len word"
  by (auto simp: bv_elems_def)

lemma bv_elems_inject: "bv_elems v = bv_elems w \<longleftrightarrow> v = w" for v w :: "'a::len word"
proof
  assume "bv_elems v = bv_elems w"
  then have "bit v i \<longleftrightarrow> bit w i" for i
    using bv_elems_iff[of i v] bv_elems_iff[of i w] by simp
  then show "v = w" by (simp add: bit_eq_iff)
qed simp

lemma bv_elems_unique:
  fixes bv :: "'a::len word"
  assumes "sorted_wrt (<) xs" and "\<And>i. i \<in> set xs \<longleftrightarrow> bit bv i"
  shows "bv_elems bv = xs"
proof -
  have "set (bv_elems bv) = set xs" by (rule set_eqI) (simp only: bv_elems_iff assms(2))
  then show ?thesis
    by (rule strict_sorted_equal [OF assms(1) bv_elems_sorted])
qed

lemma bv_size_elems: "bv_size bv = length (bv_elems bv)"
  by (simp add: bv_size_def bv_elems_def)

lemma bv_elems_zero [simp]: "bv_elems (0 :: 'a::len word) = []"
  unfolding bv_elems_def by (rule filter_False) simp

lemma bv_elems_Nil_iff: "bv_elems bv = [] \<longleftrightarrow> bv = 0" for bv :: "'a::len word"
  using bv_elems_inject[of bv 0] unfolding bv_elems_zero .

lemma bv_size_le: "bv_size bv \<le> LENGTH('a)" for bv :: "'a::len word"
  using length_filter_le[of "bit bv" "[0..<LENGTH('a)]"] by (simp add: bv_size_def)

lemma bit_bv_add: "bit (bv_add bv loc) i \<longleftrightarrow> bit bv i \<or> (i = loc \<and> loc < LENGTH('a))"
  for bv :: "'a::len word"
  by (auto simp: bv_add_def bit_simps)

lemma bit_bv_erase: "bit (bv_erase bv loc) i \<longleftrightarrow> bit bv i \<and> i \<noteq> loc"
  for bv :: "'a::len word"
  by (auto simp: bv_erase_def bit_simps dest: bit_imp_le_length)

lemma bv_contains_bit: "bv_contains bv loc \<longleftrightarrow> bit bv loc" for bv :: "'a::len word"
proof -
  have b: "bit (push_bit loc 1 AND bv) i \<longleftrightarrow> i = loc \<and> bit bv loc" for i
    by (auto simp: bit_simps dest: bit_imp_le_length)
  have "push_bit loc 1 AND bv = 0 \<longleftrightarrow> (\<forall>i. \<not> bit (push_bit loc 1 AND bv) i)"
    by (auto simp: bit_eq_iff dest: bit_imp_le_length)
  then show ?thesis by (simp only: bv_contains_def b) blast
qed

lemma bit_bv_drop_lt: "bit (bv_drop_lt bv k) i \<longleftrightarrow> bit bv i \<and> k \<le> i"
  for bv :: "'a::len word"
  by (auto simp: bv_drop_lt_def bit_simps dest: bit_imp_le_length)

lemma bv_elems_add_above:
  fixes bv :: "'a::len word"
  assumes "loc < LENGTH('a)" and "\<forall>i \<in> set (bv_elems bv). i < loc"
  shows "bv_elems (bv_add bv loc) = bv_elems bv @ [loc]"
proof (rule bv_elems_unique)
  show "sorted_wrt (<) (bv_elems bv @ [loc])"
    using assms(2) bv_elems_sorted by (auto simp: sorted_wrt_append)
qed (use assms(1) in \<open>auto simp: bit_bv_add\<close>)

lemma bv_elems_drop_lt: "bv_elems (bv_drop_lt bv k) = filter (\<lambda>i. k \<le> i) (bv_elems bv)"
  by (rule bv_elems_unique)
    (auto simp: bit_bv_drop_lt intro: sorted_wrt_filter bv_elems_sorted)

text \<open>
  \<open>pop\<close> subtracts the lowest power of two. No borrow happens, because that bit is set: the
  other bits stay.
\<close>

lemma sub_bit_erase:
  fixes bv :: "'a::len word"
  assumes "bit bv loc"
  shows "bv - push_bit loc 1 = bv_erase bv loc"
proof -
  have disj: "bv_erase bv loc AND push_bit loc 1 = 0"
    by (rule bit_word_eqI) (auto simp: bit_simps bv_erase_def)
  have "bv = bv_erase bv loc OR push_bit loc 1"
    by (rule bit_word_eqI) (use assms in \<open>auto simp: bit_simps bv_erase_def\<close>)
  also have "\<dots> = bv_erase bv loc + push_bit loc 1"
    using disj by (simp add: disjunctive_add_eq_or)
  finally show ?thesis by (metis add_diff_cancel_right')
qed

lemma get_lowest_elems: "bv_elems bv = i # is \<Longrightarrow> get_lowest bv = i"
  by (simp add: get_lowest_def bv_elems_def)

lemma bv_pop_elems:
  fixes bv :: "'a::len word"
  assumes "bv_elems bv = i # is"
  shows "\<exists>bv'. bv_pop bv = Inr (i, bv') \<and> bv_elems bv' = is"
proof -
  from assms have b: "bit bv i" using bv_elems_iff[of i bv] by simp
  have nz: "bv \<noteq> 0" using assms bv_elems_Nil_iff[of bv] by auto
  have srt: "sorted_wrt (<) (i # is)" using bv_elems_sorted[of bv] assms by simp
  have "bv_elems (bv_erase bv i) = is"
  proof (rule bv_elems_unique)
    show "sorted_wrt (<) is" using srt by simp
    show "\<And>j. j \<in> set is \<longleftrightarrow> bit (bv_erase bv i) j"
      using srt assms bv_elems_iff[of _ bv] by (auto simp: bit_bv_erase)
  qed
  then show ?thesis
    using get_lowest_elems[OF assms] b nz sub_bit_erase[OF b] by (simp add: bv_pop_def Let_def)
qed

lemma bv_pop_empty: "bv_pop (0 :: 'a::len word) = Inl (Undefined_behaviour ''pop of an empty BitVector'')"
  by (simp add: bv_pop_def)

text \<open>Popping until the vector is empty lists its elements in ascending order.\<close>

fun bv_pop_n :: "nat \<Rightarrow> 'a::len word \<Rightarrow> (nat list \<times> 'a word) result" where
  "bv_pop_n 0 bv = Inr ([], bv)"
| "bv_pop_n (Suc n) bv =
     rbind (bv_pop bv) (\<lambda>(i, bv'). rbind (bv_pop_n n bv') (\<lambda>(is, bv''). Inr (i # is, bv'')))"

lemma bv_pop_n_all: "bv_pop_n (bv_size bv) bv = Inr (bv_elems bv, 0)"
proof -
  have "bv_elems bv = is \<Longrightarrow> bv_pop_n (length is) bv = Inr (is, 0)" for "is"
  proof (induction "is" arbitrary: bv)
    case Nil
    then show ?case by (simp add: bv_elems_Nil_iff)
  next
    case (Cons i "is")
    from bv_pop_elems[OF Cons.prems] obtain bv' where
      "bv_pop bv = Inr (i, bv')" "bv_elems bv' = is" by blast
    with Cons.IH[of bv'] show ?case by simp
  qed
  then show ?thesis by (simp add: bv_size_elems)
qed

text \<open>Adding ascending elements to an empty vector.\<close>

lemma bv_elems_fold_add:
  fixes bv :: "'a::len word"
  assumes "sorted_wrt (<) (bv_elems bv @ xs)" and "\<forall>x \<in> set xs. x < LENGTH('a)"
  shows "bv_elems (fold (\<lambda>x b. bv_add b x) xs bv) = bv_elems bv @ xs"
  using assms
proof (induction xs arbitrary: bv)
  case Nil
  then show ?case by simp
next
  case (Cons x xs)
  have "bv_elems (bv_add bv x) = bv_elems bv @ [x]"
    using Cons.prems by (intro bv_elems_add_above) (auto simp: sorted_wrt_append)
  with Cons show ?case by simp
qed

text \<open>A written vector is read back, for the widths that are whole bytes.\<close>

lemma bv_write_read:
  fixes bv :: "'a::len word"
  assumes "8 dvd LENGTH('a)"
  shows "read_unsigned_big_endian (size_in_bytes bv) (drop (length vec) (bv_write vec bv)) = Inr bv"
proof -
  have "LENGTH('a) \<le> 8 * size_in_bytes bv" using assms by (simp add: size_in_bytes_def)
  from read_be_bytes[OF this, of bv "[]"] show ?thesis
    by (simp add: bv_write_def append_unsigned_big_endian_eq)
qed

text \<open>Erasing and dropping as filters, the lowest element as the head.\<close>

lemma bv_elems_erase: "bv_elems (bv_erase bv i) = filter (\<lambda>j. j \<noteq> i) (bv_elems bv)"
  by (rule bv_elems_unique) (auto simp: bit_bv_erase intro: sorted_wrt_filter bv_elems_sorted)

lemma bv_lowest_elems: "bv_lowest bv = (if bv_empty bv then 255 else hd (bv_elems bv))"
  using bv_elems_Nil_iff[of bv]
  by (cases "bv_elems bv") (simp_all add: bv_lowest_def get_lowest_def bv_empty_def bv_elems_def)

end
