(* ===== verification/Certs.thy ===== *)
theory Certs
  imports Replica_Config Bit_Vector
begin

text \<open>
  \<open>hotstuff/crypto/hash.h\<close> and \<open>certs.{h,cc}\<close>: hashing of serialised values, partial
  certificates (one signed vote) and quorum certificates. libsodium is not part of the repository:
  its three primitives are the fields of the parameter \<open>crypto\<close>, and a \<open>None\<close> is a nonzero
  return code.

  The theory shows that a quorum certificate survives the trip through its wire form, that
  \<open>verify\<close> counts distinct configured signers, and that building a certificate vote by vote
  from checked votes yields one that verifies.
\<close>

section \<open>libsodium as a parameter\<close>

record crypto =
  generichash :: "bytes \<Rightarrow> hash option"
  sign_detached :: "secret_key \<Rightarrow> hash \<Rightarrow> signature option"
  verify_detached :: "signature \<Rightarrow> hash \<Rightarrow> public_key \<Rightarrow> bool"

definition hash_xdr :: "crypto \<Rightarrow> bytes \<Rightarrow> hash result" where
  "hash_xdr cr serialized =
     (case generichash cr serialized of
        None \<Rightarrow> Inl (Runtime_error ''error in crypto_generichash'')
      | Some h \<Rightarrow> Inr h)"

definition check_sig :: "crypto \<Rightarrow> signature \<Rightarrow> hash \<Rightarrow> public_key \<Rightarrow> bool" where
  "check_sig cr sig val key = verify_detached cr sig val key"

section \<open>Partial certificates\<close>

definition make_partial_cert :: "crypto \<Rightarrow> hash \<Rightarrow> secret_key \<Rightarrow> PartialCertificateWire result" where
  "make_partial_cert cr h sk =
     (case sign_detached cr sk h of
        None \<Rightarrow> Inl (Runtime_error ''failed to sign message'')
      | Some s \<Rightarrow> Inr \<lparr>pc_hash = h, pc_sig = s\<rparr>)"

definition partial_cert_validate :: "crypto \<Rightarrow> PartialCertificateWire \<Rightarrow> ReplicaInfo \<Rightarrow> bool" where
  "partial_cert_validate cr c info = check_sig cr (pc_sig c) (pc_hash c) (pk info)"

section \<open>Quorum certificates\<close>

text \<open>\<open>sigs\<close> is a \<open>std::map\<close>, iterated from the lowest replica id.\<close>

record QuorumCertificate =
  obj_hash :: hash
  sigs :: "(replica_id \<times> signature) list"

definition new_qc :: "hash \<Rightarrow> QuorumCertificate" where
  "new_qc h = \<lparr>obj_hash = h, sigs = []\<rparr>"

text \<open>The constructor's loop: pop a replica id for each signature.\<close>

fun qc_wire_loop :: "32 word \<Rightarrow> signature list \<Rightarrow> (replica_id \<times> signature) list
    \<Rightarrow> (replica_id \<times> signature) list result" where
  "qc_wire_loop bv [] m = Inr m"
| "qc_wire_loop bv (s # ss) m = rbind (bv_pop bv) (\<lambda>(i, bv'). qc_wire_loop bv' ss (emplace i s m))"

definition qc_of_wire :: "QuorumCertificateWire \<Rightarrow> QuorumCertificate result" where
  "qc_of_wire w =
     (if bv_size (bmp w) \<noteq> length (wire_sigs w) then Inr (new_qc (justify w))
      else rbind (qc_wire_loop (bmp w) (wire_sigs w) []) (\<lambda>m.
           Inr \<lparr>obj_hash = justify w, sigs = m\<rparr>))"

definition qc_serialize :: "QuorumCertificate \<Rightarrow> QuorumCertificateWire" where
  "qc_serialize qc =
     \<lparr>justify = obj_hash qc, bmp = fold (\<lambda>(rid, _) bv. bv_add bv rid) (sigs qc) 0,
      wire_sigs = map snd (sigs qc)\<rparr>"

definition add_partial_certificate ::
    "replica_id \<Rightarrow> PartialCertificateWire \<Rightarrow> QuorumCertificate \<Rightarrow> QuorumCertificate result" where
  "add_partial_certificate rid pc qc =
     (if pc_hash pc \<noteq> obj_hash qc
        then Inl (Invalid_argument ''partial certificate merged into different quorum certificate'')
      else if rid \<ge> MAX_REPLICAS then Inl (Invalid_argument ''invalid replica id'')
      else Inr (qc\<lparr>sigs := emplace rid (pc_sig pc) (sigs qc)\<rparr>))"

text \<open>\<open>verify\<close>: an id outside the configuration makes \<open>get_publickey\<close> throw.\<close>

definition qc_count_valid :: "crypto \<Rightarrow> ReplicaConfig \<Rightarrow> hash \<Rightarrow> (replica_id \<times> signature) list \<Rightarrow> nat result" where
  "qc_count_valid cr config h m =
     rfold (\<lambda>(rid, sig) n. rbind (get_publickey config rid) (\<lambda>key.
              Inr (if check_sig cr sig h key then n + 1 else n))) m 0"

definition qc_verify :: "crypto \<Rightarrow> ReplicaConfig \<Rightarrow> QuorumCertificate \<Rightarrow> bool result" where
  "qc_verify cr config qc =
     (if obj_hash qc = zero_hash then Inr True
      else if length (sigs qc) < nmajority config then Inr False
      else rbind (qc_count_valid cr config (obj_hash qc) (sigs qc)) (\<lambda>n_valid.
           Inr (n_valid \<ge> nmajority config)))"

definition has_quorum :: "ReplicaConfig \<Rightarrow> QuorumCertificate \<Rightarrow> bool" where
  "has_quorum config qc \<longleftrightarrow> nmajority config \<le> length (sigs qc)"

section \<open>Invariant of the signature map\<close>

definition qc_ok :: "QuorumCertificate \<Rightarrow> bool" where
  "qc_ok qc \<longleftrightarrow> map_keys_ok (sigs qc) \<and> (\<forall>(rid, _) \<in> set (sigs qc). rid < MAX_REPLICAS)"

lemma qc_ok_new [simp]: "qc_ok (new_qc h)"
  by (simp add: qc_ok_def new_qc_def map_keys_ok_def)

lemma set_emplace_subset: "set (emplace k v m) \<subseteq> insert (k, v) (set m)"
  by (induction k v m rule: emplace.induct) auto

lemma qc_ok_add_partial_certificate:
  assumes "qc_ok qc" and "add_partial_certificate rid pc qc = Inr qc'"
  shows "qc_ok qc'"
  using assms set_emplace_subset[of rid "pc_sig pc" "sigs qc"]
  by (auto simp: add_partial_certificate_def qc_ok_def split: if_splits)

text \<open>The parsing loop lists the bitmap's elements against the signatures: it never pops an empty vector.\<close>

lemma qc_wire_loop_zip:
  assumes "bv_elems bv = is" and "length is = length ss"
    and "\<forall>x \<in> fst ` set m. \<forall>i \<in> set is. x < i"
  shows "qc_wire_loop bv ss m = Inr (m @ zip is ss)"
  using assms
proof (induction ss arbitrary: bv "is" m)
  case Nil
  then show ?case by simp
next
  case (Cons s ss)
  then obtain i js where is_eq: "is = i # js" by (cases "is") auto
  from bv_pop_elems[of bv i js] Cons.prems(1) is_eq obtain bv' where
    pop: "bv_pop bv = Inr (i, bv')" "bv_elems bv' = js" by auto
  have srt: "sorted_wrt (<) (i # js)" using bv_elems_sorted[of bv] Cons.prems(1) is_eq by simp
  have last: "emplace i s m = m @ [(i, s)]"
    using Cons.prems(3) is_eq by (intro emplace_last) auto
  have "qc_wire_loop bv' ss (m @ [(i, s)]) = Inr ((m @ [(i, s)]) @ zip js ss)"
    using Cons.prems srt is_eq pop(2) by (intro Cons.IH) auto
  then show ?case using pop(1) last is_eq by simp
qed

lemma qc_of_wire_eq:
  "qc_of_wire w = Inr (if bv_size (bmp w) \<noteq> length (wire_sigs w) then new_qc (justify w)
      else \<lparr>obj_hash = justify w, sigs = zip (bv_elems (bmp w)) (wire_sigs w)\<rparr>)"
  using qc_wire_loop_zip[of "bmp w" "bv_elems (bmp w)" "wire_sigs w" "[]"]
  by (simp add: qc_of_wire_def bv_size_elems)

lemma qc_ok_zip:
  assumes "length is = length ss" and "sorted_wrt (<) is" and "\<forall>i \<in> set is. i < MAX_REPLICAS"
  shows "qc_ok \<lparr>obj_hash = h, sigs = zip is ss\<rparr>"
  using assms by (auto simp: qc_ok_def map_keys_ok_def dest: set_zip_leftD)

lemma qc_of_wire_ok:
  assumes "qc_of_wire w = Inr qc"
  shows "qc_ok qc \<and> obj_hash qc = justify w"
proof (cases "bv_size (bmp w) = length (wire_sigs w)")
  case True
  have "\<forall>i \<in> set (bv_elems (bmp w)). i < MAX_REPLICAS"
  proof
    fix i assume "i \<in> set (bv_elems (bmp w))"
    then have "i < LENGTH(32)" by (rule bv_elems_less)
    then show "i < MAX_REPLICAS" by (simp add: MAX_REPLICAS_def)
  qed
  then have "qc_ok \<lparr>obj_hash = justify w, sigs = zip (bv_elems (bmp w)) (wire_sigs w)\<rparr>"
    using True by (intro qc_ok_zip bv_elems_sorted) (simp_all add: bv_size_elems)
  then show ?thesis using assms True by (auto simp: qc_of_wire_eq)
next
  case False
  then have "qc = new_qc (justify w)" using assms by (simp add: qc_of_wire_eq)
  then show ?thesis by (simp add: new_qc_def[of "justify w"] qc_ok_def map_keys_ok_def)
qed

lemma qc_of_wire_hash: "qc_of_wire w = Inr qc \<Longrightarrow> obj_hash qc = justify w"
  using qc_of_wire_ok by blast

lemma qc_of_wire_total: "\<exists>qc. qc_of_wire w = Inr qc"
  by (simp add: qc_of_wire_eq)

lemma bv_elems_serialize:
  assumes "qc_ok qc"
  shows "bv_elems (bmp (qc_serialize qc)) = map fst (sigs qc)"
proof -
  have e: "fold (\<lambda>(rid, _) bv. bv_add bv rid) xs v = fold (\<lambda>x b. bv_add b x) (map fst xs) v"
    for xs :: "(nat \<times> signature) list" and v :: "32 word"
    by (induction xs arbitrary: v) auto
  have s: "sorted_wrt (<) (bv_elems (0 :: 32 word) @ map fst (sigs qc))"
    using assms unfolding bv_elems_zero qc_ok_def map_keys_ok_def by simp
  have l: "\<forall>x \<in> set (map fst (sigs qc)). x < LENGTH(32)"
    using assms by (auto simp: qc_ok_def MAX_REPLICAS_def)
  have "bv_elems (fold (\<lambda>x b. bv_add b x) (map fst (sigs qc)) (0 :: 32 word)) = map fst (sigs qc)"
    using bv_elems_fold_add[OF s l] unfolding bv_elems_zero by simp
  then show ?thesis unfolding qc_serialize_def e by simp
qed

text \<open>Serialising and parsing a certificate gives it back.\<close>

lemma qc_of_wire_serialize:
  assumes "qc_ok qc"
  shows "qc_of_wire (qc_serialize qc) = Inr qc"
proof -
  have sg: "wire_sigs (qc_serialize qc) = map snd (sigs qc)" "justify (qc_serialize qc) = obj_hash qc"
    by (simp_all add: qc_serialize_def)
  have "bv_size (bmp (qc_serialize qc)) = length (wire_sigs (qc_serialize qc))"
    unfolding bv_size_elems bv_elems_serialize[OF assms] sg by simp
  moreover have "zip (bv_elems (bmp (qc_serialize qc))) (wire_sigs (qc_serialize qc)) = sigs qc"
    unfolding bv_elems_serialize[OF assms] sg by (rule zip_map_fst_snd)
  ultimately show ?thesis
    by (simp add: qc_of_wire_eq sg)
qed

text \<open>The other direction: a wire certificate whose bitmap and signatures agree is canonical.\<close>

lemma qc_serialize_of_wire:
  assumes "bv_size (bmp w) = length (wire_sigs w)" and "qc_of_wire w = Inr qc"
  shows "qc_serialize qc = w"
proof -
  have qc: "qc = \<lparr>obj_hash = justify w, sigs = zip (bv_elems (bmp w)) (wire_sigs w)\<rparr>"
    using assms by (simp add: qc_of_wire_eq)
  have "qc_ok qc" using qc_of_wire_ok[OF assms(2)] by simp
  then have "bv_elems (bmp (qc_serialize qc)) = map fst (sigs qc)" by (rule bv_elems_serialize)
  also have "\<dots> = bv_elems (bmp w)" using qc assms(1) by (simp add: bv_size_elems)
  finally have "bmp (qc_serialize qc) = bmp w" by (simp add: bv_elems_inject)
  moreover have "wire_sigs (qc_serialize qc) = wire_sigs w" "justify (qc_serialize qc) = justify w"
    using qc assms(1) by (simp_all add: qc_serialize_def bv_size_elems)
  ultimately show ?thesis by simp
qed

section \<open>What \<open>verify\<close> counts\<close>

text \<open>The replicas of a certificate whose signature on its hash checks out.\<close>

definition valid_signers :: "crypto \<Rightarrow> ReplicaConfig \<Rightarrow> QuorumCertificate \<Rightarrow> replica_id set" where
  "valid_signers cr config qc =
     {rid. \<exists>sig key. (rid, sig) \<in> set (sigs qc) \<and> get_publickey config rid = Inr key
        \<and> check_sig cr sig (obj_hash qc) key}"

lemma qc_count_valid_card:
  assumes "map_keys_ok m"
  shows "rfold (\<lambda>(rid, sig) n. rbind (get_publickey config rid) (\<lambda>key.
            Inr (if check_sig cr sig h key then n + 1 else n))) m k = Inr n \<Longrightarrow>
         n = k + card {rid. \<exists>sig key. (rid, sig) \<in> set m \<and> get_publickey config rid = Inr key
              \<and> check_sig cr sig h key}"
  using assms
proof (induction m arbitrary: k)
  case Nil
  then show ?case by simp
next
  case (Cons e m)
  obtain rid sig where e: "e = (rid, sig)" by (cases e)
  let ?S = "\<lambda>m. {rid. \<exists>sig key. (rid, sig) \<in> set m \<and> get_publickey config rid = Inr key
              \<and> check_sig cr sig h key}"
  from Cons.prems(1) e obtain key where key: "get_publickey config rid = Inr key"
    and rest: "rfold (\<lambda>(rid, sig) n. rbind (get_publickey config rid) (\<lambda>key.
            Inr (if check_sig cr sig h key then n + 1 else n))) m
            (if check_sig cr sig h key then k + 1 else k) = Inr n"
    by (auto simp: result_simps)
  have fin: "finite (?S m)" by (rule finite_subset[of _ "fst ` set m"]) force+
  have new: "rid \<notin> ?S m" using Cons.prems(2) e by (force simp: map_keys_ok_def)
  have "?S (e # m) = (if check_sig cr sig h key then insert rid (?S m) else ?S m)"
    using e key by auto
  moreover have "n = (if check_sig cr sig h key then k + 1 else k) + card (?S m)"
    using Cons.IH[OF rest] Cons.prems(2) by (simp add: map_keys_ok_def)
  ultimately show ?case using fin new by simp
qed

text \<open>A certificate that verifies, and is not the genesis one, carries a quorum of valid signers.\<close>

lemma qc_verify_quorum:
  assumes "qc_ok qc" and "qc_verify cr config qc = Inr True" and "obj_hash qc \<noteq> zero_hash"
  shows "is_quorum config (valid_signers cr config qc)"
proof -
  from assms(2,3) obtain n where n: "qc_count_valid cr config (obj_hash qc) (sigs qc) = Inr n"
    and le: "nmajority config \<le> n"
    by (auto simp: qc_verify_def result_simps split: if_splits)
  have "n = card (valid_signers cr config qc)"
    using qc_count_valid_card[OF _ n[unfolded qc_count_valid_def]] assms(1)
    by (simp add: qc_ok_def valid_signers_def)
  moreover have "valid_signers cr config qc \<subseteq> members config"
    by (auto simp: valid_signers_def is_valid_replica_iff[symmetric] is_valid_replica_def
        get_publickey_def get_info_def split: option.splits)
  ultimately show ?thesis using le by (simp add: is_quorum_def)
qed

text \<open>Verification fails with an exception exactly when a signer is not configured.\<close>

lemma qc_count_valid_total:
  assumes "\<forall>(rid, _) \<in> set m. is_valid_replica config rid"
  shows "\<exists>n. qc_count_valid cr config h m = Inr n"
proof -
  have "\<exists>t. rfold (\<lambda>(rid, sig) n. rbind (get_publickey config rid) (\<lambda>key.
            Inr (if check_sig cr sig h key then n + 1 else n))) m 0 = Inr t \<and> True"
    by (rule rfold_total) (use assms get_info_valid in \<open>fastforce simp: get_publickey_def\<close>)+
  then show ?thesis by (simp add: qc_count_valid_def)
qed

lemma qc_count_valid_throws:
  assumes "(rid, sig) \<in> set m" and "\<not> is_valid_replica config rid"
  shows "\<exists>e. qc_count_valid cr config h m = Inl e"
proof (cases "qc_count_valid cr config h m")
  case (Inr n)
  have "rfold (\<lambda>(rid, sig) n. rbind (get_publickey config rid) (\<lambda>key.
            Inr (if check_sig cr sig h key then n + 1 else n))) m k = Inr n
        \<Longrightarrow> (rid, sig) \<in> set m \<Longrightarrow> is_valid_replica config rid" for k m
    by (induction m arbitrary: k)
      (auto simp: result_simps get_publickey_def get_info_def is_valid_replica_def split: option.splits)
  with Inr assms show ?thesis by (auto simp: qc_count_valid_def)
qed auto

lemma qc_verify_throws:
  assumes "obj_hash qc \<noteq> zero_hash" and "nmajority config \<le> length (sigs qc)"
    and "(rid, sig) \<in> set (sigs qc)" and "\<not> is_valid_replica config rid"
  shows "\<exists>e. qc_verify cr config qc = Inl e"
  using assms qc_count_valid_throws[OF assms(3,4), of cr "obj_hash qc"]
  by (auto simp: qc_verify_def)

section \<open>Certificates built from checked votes\<close>

text \<open>Every stored signature is configured and valid.\<close>

definition sigs_checked :: "crypto \<Rightarrow> ReplicaConfig \<Rightarrow> QuorumCertificate \<Rightarrow> bool" where
  "sigs_checked cr config qc \<longleftrightarrow>
     (\<forall>(rid, sig) \<in> set (sigs qc). \<exists>key. get_publickey config rid = Inr key
        \<and> check_sig cr sig (obj_hash qc) key)"

lemma sigs_checked_new [simp]: "sigs_checked cr config (new_qc h)"
  by (simp add: sigs_checked_def new_qc_def)

lemma sigs_checked_add:
  assumes "sigs_checked cr config qc" and "add_partial_certificate rid pc qc = Inr qc'"
    and "get_info config rid = Inr info" and "partial_cert_validate cr pc info"
  shows "sigs_checked cr config qc'"
proof -
  let ?ok = "\<lambda>(rid, sig). \<exists>key. get_publickey config rid = Inr key \<and> check_sig cr sig (obj_hash qc) key"
  have qc': "pc_hash pc = obj_hash qc" "qc' = qc\<lparr>sigs := emplace rid (pc_sig pc) (sigs qc)\<rparr>"
    using assms(2) by (auto simp: add_partial_certificate_def split: if_splits)
  have "?ok (rid, pc_sig pc)" "\<forall>e \<in> set (sigs qc). ?ok e"
    using assms qc'(1) by (auto simp: get_publickey_def partial_cert_validate_def sigs_checked_def)
  then have "\<forall>e \<in> set (emplace rid (pc_sig pc) (sigs qc)). ?ok e"
    using set_emplace_subset[of rid "pc_sig pc" "sigs qc"] by blast
  then show ?thesis using qc'(2) by (simp add: sigs_checked_def)
qed

text \<open>\<open>has_quorum\<close> counts all signatures, \<open>verify\<close> the valid ones: they agree here.\<close>

lemma has_quorum_verify:
  assumes "qc_ok qc" and "sigs_checked cr config qc" and "obj_hash qc \<noteq> zero_hash"
  shows "qc_verify cr config qc = Inr (has_quorum config qc)"
proof -
  have "\<exists>n. qc_count_valid cr config (obj_hash qc) (sigs qc) = Inr n"
    using assms(2)
    by (intro qc_count_valid_total)
      (auto simp: sigs_checked_def get_publickey_def get_info_def is_valid_replica_def split: option.splits)
  then obtain n where n: "qc_count_valid cr config (obj_hash qc) (sigs qc) = Inr n" by blast
  have "valid_signers cr config qc = fst ` set (sigs qc)"
    using assms(2) by (force simp: valid_signers_def sigs_checked_def)
  moreover have "distinct (map fst (sigs qc))"
    using assms(1) by (simp add: qc_ok_def map_keys_ok_def strict_sorted_iff)
  ultimately have "card (valid_signers cr config qc) = length (sigs qc)"
    by (metis distinct_card length_map list.set_map)
  moreover have "n = card (valid_signers cr config qc)"
    using qc_count_valid_card[OF _ n[unfolded qc_count_valid_def]] assms(1)
    by (simp add: qc_ok_def valid_signers_def)
  ultimately show ?thesis
    using n assms(3) by (auto simp: qc_verify_def has_quorum_def)
qed

section \<open>Claims\<close>

text \<open>C9: a certificate that arrives on the wire and passes \<open>verify\<close> carries valid signatures of a quorum
of the configuration, unless it is on the genesis block.\<close>

theorem received_certificate_quorum:
  assumes "qc_of_wire w = Inr qc" and "qc_verify cr config qc = Inr True" and "justify w \<noteq> zero_hash"
  shows "obj_hash qc = justify w \<and> is_quorum config (valid_signers cr config qc)"
  using qc_verify_quorum[OF conjunct1[OF qc_of_wire_ok[OF assms(1)]] assms(2)] qc_of_wire_hash[OF assms(1)] assms(3)
  by simp

definition sample_crypto :: crypto where
  "sample_crypto = \<lparr>generichash = (\<lambda>m. Some (replicate 32 7)), sign_detached = (\<lambda>key m. Some (replicate 64 5)),
     verify_detached = (\<lambda>s h key. s = replicate 64 5)\<rparr>"

definition sample_config :: ReplicaConfig where
  "sample_config = \<lparr>replica_map = [(0, sample_info 0)], nreplicas = 1, nmajority = 1\<rparr>"

definition sample_qc :: QuorumCertificate where
  "sample_qc = \<lparr>obj_hash = replicate 32 1, sigs = [(0, replicate 64 5)]\<rparr>"

lemma sample_qc_facts:
  shows "qc_ok sample_qc" and "qc_verify sample_crypto sample_config sample_qc = Inr True"
    and "obj_hash sample_qc \<noteq> zero_hash" and "qc_of_wire (qc_serialize sample_qc) = Inr sample_qc"
proof -
  show "qc_ok sample_qc" by (simp add: qc_ok_def sample_qc_def map_keys_ok_def MAX_REPLICAS_def)
  then show "qc_of_wire (qc_serialize sample_qc) = Inr sample_qc" by (rule qc_of_wire_serialize)
  have "hd (obj_hash sample_qc) \<noteq> hd zero_hash" by (simp add: sample_qc_def zero_hash_def HASH_LEN_def)
  then show "obj_hash sample_qc \<noteq> zero_hash" by metis
  then show "qc_verify sample_crypto sample_config sample_qc = Inr True"
    by (simp add: qc_verify_def qc_count_valid_def sample_qc_def sample_config_def get_publickey_def get_info_def
        check_sig_def sample_crypto_def)
qed

theorem received_certificate_quorum_witness:
  "is_quorum sample_config (valid_signers sample_crypto sample_config sample_qc)"
  using received_certificate_quorum[OF sample_qc_facts(4,2)] sample_qc_facts(3) by (simp add: qc_serialize_def)

text \<open>C21: a certificate built from votes that were checked on arrival passes \<open>verify\<close> exactly when
\<open>has_quorum\<close> says so: the quick count agrees with the check every receiver makes.\<close>

theorem has_quorum_agrees_with_verify:
  assumes "qc_ok qc" and "sigs_checked cr config qc" and "obj_hash qc \<noteq> zero_hash"
  shows "qc_verify cr config qc = Inr (has_quorum config qc)"
  by (rule has_quorum_verify[OF assms])

theorem has_quorum_agrees_with_verify_witness:
  "qc_verify sample_crypto sample_config sample_qc = Inr (has_quorum sample_config sample_qc)"
proof (rule has_quorum_agrees_with_verify[OF sample_qc_facts(1) _ sample_qc_facts(3)])
  show "sigs_checked sample_crypto sample_config sample_qc"
    by (simp add: sigs_checked_def sample_qc_def sample_config_def get_publickey_def get_info_def check_sig_def
        sample_crypto_def)
qed

text \<open>C26: a certificate survives the wire: what \<open>serialize\<close> writes is read back as the same hash and the
same signatures under the same replica ids.\<close>

theorem certificate_roundtrip:
  assumes "qc_ok qc"
  shows "qc_of_wire (qc_serialize qc) = Inr qc"
  by (rule qc_of_wire_serialize[OF assms])

theorem certificate_roundtrip_witness: "qc_of_wire (qc_serialize sample_qc) = Inr sample_qc"
  by (rule certificate_roundtrip[OF sample_qc_facts(1)])

text \<open>C29: a certificate is a well-formed map (sorted distinct replica ids below 32) on one hash whatever it is built from: any
wire message, then any votes.\<close>

theorem certificates_well_formed:
  assumes "qc_of_wire w = Inr qc" and "rfold (\<lambda>(rid, pc). add_partial_certificate rid pc) votes qc = Inr qc'"
  shows "qc_ok qc' \<and> obj_hash qc' = justify w"
proof (rule rfold_invariant[OF assms(2), of "\<lambda>q. qc_ok q \<and> obj_hash q = justify w"])
  show "qc_ok qc \<and> obj_hash qc = justify w" by (rule qc_of_wire_ok[OF assms(1)])
  fix p q q'
  assume "qc_ok q \<and> obj_hash q = justify w" and "(case p of (rid, pc) \<Rightarrow> add_partial_certificate rid pc) q = Inr q'"
  then show "qc_ok q' \<and> obj_hash q' = justify w"
    using qc_ok_add_partial_certificate[of q "fst p" "snd p" q']
    by (cases p) (auto simp: add_partial_certificate_def split: if_splits)
qed

theorem certificates_well_formed_witness:
  "qc_ok (sample_qc\<lparr>sigs := [(0, replicate 64 5), (3, replicate 64 6)]\<rparr>)"
  using certificates_well_formed[OF sample_qc_facts(4), where
      votes = "[(3, \<lparr>pc_hash = replicate 32 1, pc_sig = replicate 64 6\<rparr>)]"]
  by (simp add: add_partial_certificate_def sample_qc_def MAX_REPLICAS_def)

text \<open>A certificate with enough signatures, one of them under an id the configuration does not have,
makes \<open>verify\<close> throw: any peer can raise the exception in the receiver's thread.\<close>

lemma unknown_signer_throws:
  assumes "bv_size (bmp w) = length (wire_sigs w)" and "justify w \<noteq> zero_hash"
    and "nmajority config \<le> length (wire_sigs w)" and "bv_contains (bmp w) r" and "\<not> is_valid_replica config r"
  shows "\<exists>qc e. qc_of_wire w = Inr qc \<and> qc_verify cr config qc = Inl e"
proof -
  have l: "length (bv_elems (bmp w)) = length (wire_sigs w)" using assms(1) by (simp add: bv_size_elems)
  have q: "qc_of_wire w = Inr \<lparr>obj_hash = justify w, sigs = zip (bv_elems (bmp w)) (wire_sigs w)\<rparr>"
    using assms(1) qc_of_wire_eq[of w] by simp
  have "r \<in> set (bv_elems (bmp w))" using assms(4) by (simp add: bv_contains_bit bv_elems_iff)
  then obtain s where "(r, s) \<in> set (zip (bv_elems (bmp w)) (wire_sigs w))"
    using l by (metis in_set_impl_in_set_zip1)
  then show ?thesis
    using q qc_verify_throws[of "\<lparr>obj_hash = justify w, sigs = zip (bv_elems (bmp w)) (wire_sigs w)\<rparr>" config r s cr]
      assms(2,3,5) l by simp
qed

lemma unknown_signer_throws_witness:
  "\<exists>qc e. qc_of_wire \<lparr>justify = replicate 32 1, bmp = 2, wire_sigs = [replicate 64 0]\<rparr> = Inr qc
     \<and> qc_verify sample_crypto sample_config qc = Inl e"
  by (rule unknown_signer_throws[where r = 1])
    (use sample_qc_facts(3) in \<open>simp_all add: sample_qc_def sample_config_def is_valid_replica_def
        bv_size_elems bv_elems_def bv_contains_bit upt_rec\<close>)

end
