(* ===== verification/Rpc_Client.thy ===== *)
theory Rpc_Client
  imports Certs
begin

text \<open>
  \<open>utils/async_worker.h\<close>, \<open>generic_event_queue.h\<close>, \<open>nonblocking_rpc_client.h\<close> and
  \<open>protocol/hotstuff_protocol_client\<close>: the queues between threads and the client that delivers the
  protocol messages to one peer.

  What the network does is an argument: the list of outcomes of the successive connection attempts,
  each with the value of \<open>done_flag\<close> read after it, and the list of outcomes of the successive remote
  calls. A list that runs out is a thread that still waits. The theory shows that both queues are
  first-in first-out and that a round of the client that is not told to end delivers every message, in
  order, once.
\<close>

section \<open>Event queues\<close>

text \<open>
  \<open>GenericEventQueue\<close>: \<open>events\<close> is the vector under the mutex, \<open>work_list\<close> the local vector of the
  thread, which takes all of \<open>events\<close> when it has run its own.
\<close>

record 'e GenericEventQueue =
  events :: "'e list"
  work_list :: "'e list"

definition new_queue :: "'e GenericEventQueue" where
  "new_queue = \<lparr>events = [], work_list = []\<rparr>"

definition queue_exists_work_to_do :: "'e GenericEventQueue \<Rightarrow> bool" where
  "queue_exists_work_to_do q \<longleftrightarrow> length (events q) > 0"

definition add_event :: "'e \<Rightarrow> 'e GenericEventQueue \<Rightarrow> 'e GenericEventQueue" where
  "add_event e q = q\<lparr>events := events q @ [e]\<rparr>"

definition add_events :: "'e list \<Rightarrow> 'e GenericEventQueue \<Rightarrow> 'e GenericEventQueue" where
  "add_events es q = q\<lparr>events := events q @ es\<rparr>"

text \<open>The critical section of \<open>run\<close>, and the next step of \<open>run_events\<close>.\<close>

definition take_work :: "'e GenericEventQueue \<Rightarrow> 'e GenericEventQueue" where
  "take_work q =
     (if work_list q = [] \<and> queue_exists_work_to_do q then \<lparr>events = [], work_list = events q\<rparr> else q)"

definition next_event :: "'e GenericEventQueue \<Rightarrow> ('e \<times> 'e GenericEventQueue) option" where
  "next_event q =
     (let q = take_work q in
      case work_list q of [] \<Rightarrow> None | e # es \<Rightarrow> Some (e, q\<lparr>work_list := es\<rparr>))"

abbreviation queued :: "'e GenericEventQueue \<Rightarrow> 'e list" where
  "queued q \<equiv> work_list q @ events q"

lemma queued_add [simp]:
  "queued (add_event e q) = queued q @ [e]" "queued (add_events es q) = queued q @ es"
  by (simp_all add: add_event_def add_events_def)

lemma queued_new [simp]: "queued new_queue = []"
  by (simp add: new_queue_def)

interpretation event_fifo: fifo_queue add_event next_event "\<lambda>q. queued q"
proof
  fix q :: "'a GenericEventQueue" and x xs
  assume "queued q = x # xs"
  then show "\<exists>q'. next_event q = Some (x, q') \<and> queued q' = xs"
    by (cases "work_list q") (auto simp: next_event_def take_work_def queue_exists_work_to_do_def)
qed (auto simp: next_event_def take_work_def queue_exists_work_to_do_def)

lemma next_event_queued:
  assumes "next_event q = Some (e, q')"
  shows "queued q = e # queued q'"
proof (cases "queued q")
  case Nil
  then show ?thesis using event_fifo.deq_Nil[OF Nil] assms by simp
next
  case (Cons x xs)
  then obtain q'' where "next_event q = Some (x, q'')" "queued q'' = xs"
    using event_fifo.deq_Cons[OF Cons] by auto
  then show ?thesis using assms Cons by simp
qed

section \<open>The connection\<close>

record NonblockingRpcClient =
  rpc_info :: ReplicaInfo
  client_open :: bool
  rpc_done_flag :: bool

definition new_rpc_client :: "ReplicaInfo \<Rightarrow> NonblockingRpcClient" where
  "new_rpc_client i = \<lparr>rpc_info = i, client_open = False, rpc_done_flag = False\<rparr>"

definition connection_is_open :: "NonblockingRpcClient \<Rightarrow> bool" where
  "connection_is_open c = client_open c"

definition clear_connection :: "NonblockingRpcClient \<Rightarrow> NonblockingRpcClient" where
  "clear_connection c = c\<lparr>client_open := False\<rparr>"

text \<open>\<open>try_open_connection\<close>: \<open>connected\<close> is whether \<open>open_connection\<close> returned.\<close>

definition try_open_connection :: "bool \<Rightarrow> NonblockingRpcClient \<Rightarrow> NonblockingRpcClient" where
  "try_open_connection connected c =
     (if connected then c\<lparr>client_open := True\<rparr> else clear_connection c)"

fun open_loop :: "(bool \<times> bool) list \<Rightarrow> NonblockingRpcClient
    \<Rightarrow> (NonblockingRpcClient \<times> (bool \<times> bool) list) result" where
  "open_loop [] c = Inl Out_of_fuel"
| "open_loop ((connected, fin) # attempts) c =
     (let c = (try_open_connection connected c)\<lparr>rpc_done_flag := fin\<rparr> in
      if connection_is_open c \<or> rpc_done_flag c then Inr (c, attempts) else open_loop attempts c)"

definition wait_for_try_open_connection :: "(bool \<times> bool) list \<Rightarrow> NonblockingRpcClient
    \<Rightarrow> (NonblockingRpcClient \<times> (bool \<times> bool) list) result" where
  "wait_for_try_open_connection attempts c =
     (if connection_is_open c \<or> rpc_done_flag c then Inr (c, attempts) else open_loop attempts c)"

text \<open>
  \<open>try_action\<close>: \<open>calls\<close> are the outcomes of remote calls, \<open>None\<close> an exception. The call goes through
  \<open>client\<close>, which is null when the wait ended because of \<open>done_flag\<close>.
\<close>

definition try_action :: "(bool \<times> bool) list \<Rightarrow> 'r option list \<Rightarrow> NonblockingRpcClient
    \<Rightarrow> ('r option \<times> NonblockingRpcClient \<times> (bool \<times> bool) list \<times> 'r option list) result" where
  "try_action attempts calls c =
     rbind (wait_for_try_open_connection attempts c) (\<lambda>(c, attempts).
     if \<not> client_open c then Inl (Undefined_behaviour ''call through a null client'')
     else case calls of
       [] \<Rightarrow> Inl Out_of_fuel
     | Some r # calls \<Rightarrow> Inr (Some r, c, attempts, calls)
     | None # calls \<Rightarrow> Inr (None, clear_connection c, attempts, calls))"

definition try_action_void :: "(bool \<times> bool) list \<Rightarrow> unit option list \<Rightarrow> NonblockingRpcClient
    \<Rightarrow> (bool \<times> NonblockingRpcClient \<times> (bool \<times> bool) list \<times> unit option list) result" where
  "try_action_void attempts calls c =
     rbind (try_action attempts calls c) (\<lambda>(r, c, attempts, calls). Inr (r \<noteq> None, c, attempts, calls))"

lemma open_loop_reaches:
  assumes "open_loop attempts c = Inr (c', rest)"
  shows "client_open c' \<or> rpc_done_flag c'" and "\<exists>used. attempts = used @ rest"
  using assms
  by (induction attempts c rule: open_loop.induct)
    (auto simp: Let_def connection_is_open_def split: if_splits)

text \<open>The wait ends as soon as an attempt succeeds.\<close>

lemma open_loop_connects:
  assumes "(True, False) \<in> set attempts" and "\<forall>a \<in> set attempts. \<not> snd a"
  shows "\<exists>c' rest. open_loop attempts c = Inr (c', rest) \<and> client_open c'"
  using assms
proof (induction attempts c rule: open_loop.induct)
  case (2 connected fin attempts c)
  then show ?case
    by (cases connected) (auto simp: Let_def connection_is_open_def try_open_connection_def clear_connection_def)
qed simp

section \<open>The protocol client\<close>

datatype protocol_msg = Vote_Msg VoteMessage | Propose_Msg ProposeMessage

record HotstuffProtocolClient =
  rpc :: NonblockingRpcClient
  work :: "protocol_msg list"

definition new_protocol_client :: "ReplicaInfo \<Rightarrow> HotstuffProtocolClient" where
  "new_protocol_client i = \<lparr>rpc = new_rpc_client i, work = []\<rparr>"

definition client_propose :: "ProposeMessage \<Rightarrow> HotstuffProtocolClient \<Rightarrow> HotstuffProtocolClient" where
  "client_propose p c = c\<lparr>work := work c @ [Propose_Msg p]\<rparr>"

definition client_vote :: "VoteMessage \<Rightarrow> HotstuffProtocolClient \<Rightarrow> HotstuffProtocolClient" where
  "client_vote v c = c\<lparr>work := work c @ [Vote_Msg v]\<rparr>"

definition client_exists_work_to_do :: "HotstuffProtocolClient \<Rightarrow> bool" where
  "client_exists_work_to_do c \<longleftrightarrow> length (work c) > 0"

definition client_get_service :: ReplicaService where
  "client_get_service = PROTOCOL_SERVICE"

text \<open>
  \<open>do_work\<close>: each message is tried until a call succeeds or the client is told to end. The second
  component is what the peer has received by calls that returned.
\<close>

function send_one :: "(bool \<times> bool) list \<Rightarrow> unit option list \<Rightarrow> NonblockingRpcClient
    \<Rightarrow> (bool \<times> NonblockingRpcClient \<times> (bool \<times> bool) list \<times> unit option list) result" where
  "send_one attempts calls c =
     rbind (try_action_void attempts calls c) (\<lambda>(success, c, attempts, calls').
     if success then Inr (True, c, attempts, calls')
     else if rpc_done_flag c then Inr (False, c, attempts, calls')
     else if length calls' < length calls then send_one attempts calls' c else Inl Out_of_fuel)"
  by pat_completeness auto
termination
  by (relation "measure (\<lambda>(a, calls, c). length calls)") auto

declare send_one.simps [simp del]

fun send_all :: "(bool \<times> bool) list \<Rightarrow> unit option list \<Rightarrow> protocol_msg list \<Rightarrow> NonblockingRpcClient
    \<Rightarrow> (protocol_msg list \<times> NonblockingRpcClient) result" where
  "send_all attempts calls [] c = Inr ([], c)"
| "send_all attempts calls (m # todo) c =
     rbind (send_one attempts calls c) (\<lambda>(success, c, attempts, calls).
     if \<not> success then Inr ([], c)
     else rbind (send_all attempts calls todo c) (\<lambda>(delivered, c). Inr (m # delivered, c)))"

definition do_work :: "(bool \<times> bool) list \<Rightarrow> unit option list \<Rightarrow> protocol_msg list \<Rightarrow> NonblockingRpcClient
    \<Rightarrow> (protocol_msg list \<times> NonblockingRpcClient) result" where
  "do_work attempts calls todo c = (if rpc_done_flag c then Inr ([], c) else send_all attempts calls todo c)"

text \<open>One round of \<open>run\<close>; nothing is taken when there is no work or the client has ended.\<close>

definition client_run_step :: "(bool \<times> bool) list \<Rightarrow> unit option list \<Rightarrow> HotstuffProtocolClient
    \<Rightarrow> (protocol_msg list \<times> HotstuffProtocolClient) result" where
  "client_run_step attempts calls c =
     (if rpc_done_flag (rpc c) \<or> \<not> client_exists_work_to_do c then Inr ([], c)
      else
        let todo = work c; c = c\<lparr>work := []\<rparr> in
        rbind (do_work attempts calls todo (rpc c)) (\<lambda>(delivered, r). Inr (delivered, c\<lparr>rpc := r\<rparr>)))"

lemma try_action_calls:
  assumes "try_action attempts calls c = Inr (r, c', attempts', calls')"
  shows "calls = r # calls'" and "r = None \<Longrightarrow> \<not> client_open c'"
  using assms
  by (auto simp: try_action_def rbind_eq_Inr clear_connection_def split: if_splits list.splits option.splits)

lemma send_one_success:
  "send_one attempts calls c = Inr (True, c', attempts', calls') \<Longrightarrow>
    \<exists>n. calls = replicate n None @ Some () # calls'"
proof (induction attempts calls c rule: send_one.induct)
  case (1 attempts calls c)
  from 1(2) obtain success c1 a1 calls1 where t: "try_action_void attempts calls c = Inr (success, c1, a1, calls1)"
    by (auto simp: send_one.simps[of attempts calls c] rbind_eq_Inr)
  then obtain r where r: "calls = r # calls1" "success \<longleftrightarrow> r \<noteq> None"
    using try_action_calls(1) by (fastforce simp: try_action_void_def rbind_eq_Inr)
  show ?case
  proof (cases success)
    case True
    then have "calls' = calls1" using 1(2) t by (simp add: send_one.simps[of attempts calls c])
    then show ?thesis using r True by (intro exI[of _ 0]) auto
  next
    case False
    then have "send_one a1 calls1 c1 = Inr (True, c', attempts', calls')" "\<not> rpc_done_flag c1"
      using 1(2)[unfolded send_one.simps[of attempts calls c] t] r(1) by (auto split: if_splits)
    then obtain n where "calls1 = replicate n None @ Some () # calls'"
      using 1(1)[OF t refl refl refl False] r(1) by auto
    then show ?thesis using r False by (intro exI[of _ "Suc n"], cases r) auto
  qed
qed

text \<open>What was delivered is a prefix; it is everything unless the client was told to end.\<close>

lemma send_one_open_or_done:
  "send_one attempts calls c = Inr (False, c', attempts', calls') \<Longrightarrow> rpc_done_flag c'"
proof (induction attempts calls c rule: send_one.induct)
  case (1 attempts calls c)
  from 1(2) obtain success c1 a1 calls1 where t: "try_action_void attempts calls c = Inr (success, c1, a1, calls1)"
    by (auto simp: send_one.simps[of attempts calls c] rbind_eq_Inr)
  show ?case using 1(1)[OF t refl refl refl] 1(2) t
    by (auto simp: send_one.simps[of attempts calls c] split: if_splits)
qed

lemma send_all_delivers:
  "send_all attempts calls todo c = Inr (delivered, c') \<Longrightarrow>
    (\<exists>rest. todo = delivered @ rest \<and> (rest \<noteq> [] \<longrightarrow> rpc_done_flag c'))
    \<and> length (filter (\<lambda>r. r \<noteq> None) calls) \<ge> length delivered"
proof (induction attempts calls todo c arbitrary: delivered c' rule: send_all.induct)
  case (2 attempts calls m todo c)
  from 2(2) obtain success c1 a1 calls1 where s: "send_one attempts calls c = Inr (success, c1, a1, calls1)"
    by (auto simp: rbind_eq_Inr)
  show ?case
  proof (cases success)
    case False
    then show ?thesis using 2(2) s send_one_open_or_done by auto
  next
    case True
    then obtain d where d: "send_all a1 calls1 todo c1 = Inr (d, c')" "delivered = m # d"
      using 2(2) s by (auto simp: rbind_eq_Inr)
    obtain n where "calls = replicate n None @ Some () # calls1" using s True send_one_success[of attempts calls c c1 a1 calls1] by auto
    then show ?thesis using 2(1)[OF s refl refl refl _ d(1)] True d(2) by auto
  qed
qed simp

section \<open>Progress\<close>

text \<open>The client has not been told to end, and the network still offers a connection for every call.\<close>

definition network_ok :: "(bool \<times> bool) list \<Rightarrow> 'r option list \<Rightarrow> NonblockingRpcClient \<Rightarrow> bool" where
  "network_ok attempts calls c \<longleftrightarrow> \<not> rpc_done_flag c \<and> (\<forall>a \<in> set attempts. \<not> snd a)
     \<and> length calls \<le> length (filter fst attempts)"

lemma open_loop_progress:
  assumes "\<forall>a \<in> set attempts. \<not> snd a" and "filter fst attempts \<noteq> []"
  shows "\<exists>c' rest. open_loop attempts c = Inr (c', rest) \<and> client_open c' \<and> \<not> rpc_done_flag c'
    \<and> (\<forall>a \<in> set rest. \<not> snd a) \<and> Suc (length (filter fst rest)) = length (filter fst attempts)"
  using assms
proof (induction attempts c rule: open_loop.induct)
  case (2 connected fin attempts c)
  then show ?case
    by (cases connected) (auto simp: Let_def connection_is_open_def try_open_connection_def clear_connection_def)
qed simp

lemma try_action_progress:
  assumes "network_ok attempts (r # calls) c"
  shows "\<exists>c' attempts'. try_action attempts (r # calls) c = Inr (r, c', attempts', calls) \<and> network_ok attempts' calls c'"
proof -
  have n: "\<not> rpc_done_flag c" "\<forall>a \<in> set attempts. \<not> snd a" "Suc (length calls) \<le> length (filter fst attempts)"
    using assms by (auto simp: network_ok_def)
  obtain c1 a1 where w: "wait_for_try_open_connection attempts c = Inr (c1, a1)" "client_open c1" "\<not> rpc_done_flag c1"
    "\<forall>a \<in> set a1. \<not> snd a" "length calls \<le> length (filter fst a1)"
  proof (cases "client_open c")
    case True
    then show ?thesis using n that[of c attempts] by (simp add: wait_for_try_open_connection_def connection_is_open_def)
  next
    case False
    have ne: "filter fst attempts \<noteq> []" using n(3) by auto
    obtain c1 a1 where "open_loop attempts c = Inr (c1, a1)" "client_open c1" "\<not> rpc_done_flag c1"
      "\<forall>a \<in> set a1. \<not> snd a" "Suc (length (filter fst a1)) = length (filter fst attempts)"
      using open_loop_progress[OF n(2) ne] by blast
    then show ?thesis using n False that[of c1 a1] by (simp add: wait_for_try_open_connection_def connection_is_open_def)
  qed
  show ?thesis using w by (cases r) (auto simp: try_action_def network_ok_def clear_connection_def)
qed

lemma send_one_progress:
  assumes "network_ok attempts calls c" and "\<exists>r \<in> set calls. r \<noteq> None"
  shows "\<exists>c' attempts' calls'. send_one attempts calls c = Inr (True, c', attempts', calls')
    \<and> network_ok attempts' calls' c'
    \<and> length (filter (\<lambda>r. r \<noteq> None) calls) = Suc (length (filter (\<lambda>r. r \<noteq> None) calls'))"
  using assms
proof (induction calls arbitrary: attempts c)
  case (Cons r calls)
  obtain c1 a1 where t: "try_action attempts (r # calls) c = Inr (r, c1, a1, calls)" "network_ok a1 calls c1"
    using try_action_progress[OF Cons.prems(1)] by blast
  have step: "send_one attempts (r # calls) c =
      (if r \<noteq> None then Inr (True, c1, a1, calls)
       else if rpc_done_flag c1 then Inr (False, c1, a1, calls) else send_one a1 calls c1)"
    using t(1) by (simp add: send_one.simps[of attempts "r # calls" c] try_action_void_def)
  show ?case
  proof (cases "r = None")
    case False
    then show ?thesis using step t(2) by auto
  next
    case True
    then have "\<exists>r \<in> set calls. r \<noteq> None" using Cons.prems(2) by auto
    then show ?thesis using Cons.IH[OF t(2)] step t(2) True by (auto simp: network_ok_def)
  qed
qed simp

section \<open>Claims\<close>

text \<open>A queue hands its events to the handler in the order in which they were added, each once, however the
additions and the batches of the worker interleave.\<close>

lemma events_in_order:
  "fst (drain next_event (length (queued q) + length xs) (fold add_event xs q)) = queued q @ xs"
  using event_fifo.drain_items[of "length (queued q) + length xs" "fold add_event xs q"] event_fifo.items_fold[of xs q]
  by simp

text \<open>C30: on a network that keeps accepting connections and answers at least as many calls as there are messages,
the client delivers all of them, in order, whatever calls fail in between.\<close>

theorem messages_are_delivered:
  assumes "network_ok attempts calls c" and "length todo \<le> length (filter (\<lambda>r. r \<noteq> None) calls)"
  shows "\<exists>c'. send_all attempts calls todo c = Inr (todo, c')"
  using assms
proof (induction todo arbitrary: attempts calls c)
  case (Cons m todo)
  have "filter (\<lambda>r. r \<noteq> None) calls \<noteq> []" using Cons.prems(2) by auto
  then have "\<exists>r \<in> set calls. r \<noteq> None" by (auto simp: filter_empty_conv)
  then obtain c1 a1 calls1 where "send_one attempts calls c = Inr (True, c1, a1, calls1)" "network_ok a1 calls1 c1"
    "length (filter (\<lambda>r. r \<noteq> None) calls) = Suc (length (filter (\<lambda>r. r \<noteq> None) calls1))"
    using send_one_progress[OF Cons.prems(1)] by blast
  then show ?case using Cons.IH[of a1 calls1 c1] Cons.prems(2) by auto
qed simp

theorem messages_are_delivered_witness:
  "\<exists>c'. send_all [(False, False), (True, False), (True, False), (True, False)] [None, Some (), Some ()]
     [Vote_Msg \<lparr>vote = \<lparr>pc_hash = [], pc_sig = []\<rparr>, voter = 1\<rparr>, Vote_Msg \<lparr>vote = \<lparr>pc_hash = [], pc_sig = []\<rparr>, voter = 2\<rparr>]
     (new_rpc_client (sample_info 0)) =
   Inr ([Vote_Msg \<lparr>vote = \<lparr>pc_hash = [], pc_sig = []\<rparr>, voter = 1\<rparr>, Vote_Msg \<lparr>vote = \<lparr>pc_hash = [], pc_sig = []\<rparr>, voter = 2\<rparr>], c')"
  by (rule messages_are_delivered) (simp_all add: network_ok_def new_rpc_client_def)

text \<open>A client that is told to end before it ever connected still makes the call, through a null pointer.\<close>

lemma shutdown_calls_null_client:
  assumes "\<not> client_open c" and "rpc_done_flag c"
  shows "try_action attempts calls c = Inl (Undefined_behaviour ''call through a null client'')"
  using assms by (simp add: try_action_def wait_for_try_open_connection_def)

lemma shutdown_calls_null_client_instance:
  "try_action [] [Some (1 :: nat)] ((new_rpc_client (sample_info 0))\<lparr>rpc_done_flag := True\<rparr>)
     = Inl (Undefined_behaviour ''call through a null client'')"
  by (rule shutdown_calls_null_client) (simp_all add: new_rpc_client_def)

end
