(* ===== verification/Block_IO.thy ===== *)
theory Block_IO
  imports Certs
begin

text \<open>
  Blocks on disk: \<open>utils/save_load_xdr.h\<close> (\<open>save_xdr_to_file\<close>, \<open>load_xdr_from_file\<close>,
  \<open>mkdir_safe\<close>), \<open>hotstuff/block_storage/io_utils.cc\<close>, the hexadecimal printers of
  \<open>utils/debug_utils.h\<close> and \<open>lmdb/lmdb_types.cc\<close>, and
  \<open>hotstuff/manage_data_dirs.cc\<close>.

  The file system is a record: the files with their contents, the directories, which paths may be
  opened or created, and the space left on the device. \<open>fwrite\<close> stores what fits; the code does
  not look at its return value.
\<close>

section \<open>Hexadecimal names\<close>

definition hexdigits :: string where
  "hexdigits = ''0123456789abcdef''"

text \<open>\<open>lmdb::hexdump\<close>: both nibbles through the digit table.\<close>

definition hexdump :: "bytes \<Rightarrow> string" where
  "hexdump data = concat (map (\<lambda>b. [hexdigits ! (unat b div 16), hexdigits ! (unat b mod 16)]) data)"

text \<open>A number printed with \<open>std::hex\<close>, and the effect of \<open>setw(2)\<close> with fill \<open>'0'\<close>.\<close>

fun hex_number :: "nat \<Rightarrow> string" where
  "hex_number n = (if n < 16 then [hexdigits ! n] else hex_number (n div 16) @ [hexdigits ! (n mod 16)])"

definition setw2 :: "string \<Rightarrow> string" where
  "setw2 s = replicate (2 - length s) (CHR ''0'') @ s"

definition array_to_str :: "bytes \<Rightarrow> string" where
  "array_to_str hash = concat (map (\<lambda>b. setw2 (hex_number (unat b))) hash)"

declare hex_number.simps [simp del]

lemma array_to_str_hexdump: "array_to_str h = hexdump h"
proof -
  have "setw2 (hex_number (unat b)) = [hexdigits ! (unat b div 16), hexdigits ! (unat b mod 16)]" for b :: byte
  proof (cases "unat b < 16")
    case True
    have "hex_number (unat b) = [hexdigits ! unat b]"
      by (subst hex_number.simps) (simp add: True)
    with True show ?thesis
      by (simp add: setw2_def hexdigits_def)
  next
    case False
    have "unat b div 16 < 16" using unat_byte_less[of b] by simp
    then have "hex_number (unat b div 16) = [hexdigits ! (unat b div 16)]"
      by (subst hex_number.simps) simp
    with False have "hex_number (unat b) = [hexdigits ! (unat b div 16), hexdigits ! (unat b mod 16)]"
      by (subst hex_number.simps) simp
    then show ?thesis by (simp add: setw2_def)
  qed
  then show ?thesis by (simp add: array_to_str_def hexdump_def)
qed

lemma hexdigits_inject: "i < 16 \<Longrightarrow> j < 16 \<Longrightarrow> hexdigits ! i = hexdigits ! j \<longleftrightarrow> i = j"
proof -
  have "distinct hexdigits" "length hexdigits = 16" by (simp_all add: hexdigits_def)
  then show "i < 16 \<Longrightarrow> j < 16 \<Longrightarrow> hexdigits ! i = hexdigits ! j \<longleftrightarrow> i = j"
    by (simp add: nth_eq_iff_index_eq)
qed

lemma hexdump_inject: "hexdump a = hexdump b \<longleftrightarrow> a = b"
proof
  show "hexdump a = hexdump b \<Longrightarrow> a = b"
  proof (induction a arbitrary: b)
    case Nil
    then show ?case by (cases b) (auto simp: hexdump_def)
  next
    case (Cons x xs)
    then obtain y ys where b: "b = y # ys" by (cases b) (auto simp: hexdump_def)
    have lt: "unat z div 16 < 16" "unat z mod 16 < 16" for z :: byte
      using unat_byte_less[of z] by auto
    from Cons.prems b have "hexdump xs = hexdump ys"
      and "unat x div 16 = unat y div 16" "unat x mod 16 = unat y mod 16"
      by (auto simp: hexdump_def hexdigits_inject lt)
    then have "xs = ys" "unat x = unat y"
      using Cons.IH[of ys] by (auto, metis div_mult_mod_eq)
    with b show ?case by (simp add: unsigned_word_eqI)
  qed
qed simp

section \<open>The file system\<close>

record filesystem =
  files :: "string \<Rightarrow> bytes option"
  dirs :: "string list"
  can_open :: "string \<Rightarrow> bool"
  can_mkdir :: "string \<Rightarrow> bool"
  free_space :: nat

definition HOTSTUFF_BLOCKS :: string where "HOTSTUFF_BLOCKS = ''hotstuff_blocks/''"
definition HOTSTUFF_INDEX :: string where "HOTSTUFF_INDEX = ''hotstuff_index/''"

text \<open>\<open>mkdir_safe\<close>: false when created, true when it existed, an exception otherwise.\<close>

definition mkdir_safe :: "string \<Rightarrow> filesystem \<Rightarrow> (bool \<times> filesystem) result" where
  "mkdir_safe dirname d =
     (if dirname \<in> set (dirs d) then Inr (True, d)
      else if can_mkdir d dirname then Inr (False, d\<lparr>dirs := dirname # dirs d\<rparr>)
      else Inl (Runtime_error ''mkdir''))"

text \<open>
  \<open>save_xdr_to_file\<close> on the serialised value: \<open>None\<close> is the return code -1. Opening with
  \<open>"w"\<close> truncates the file.
\<close>

definition save_xdr_to_file :: "bytes result \<Rightarrow> string \<Rightarrow> filesystem \<Rightarrow> filesystem option result" where
  "save_xdr_to_file serialized filename d =
     (if \<not> can_open d filename then Inr None
      else rbind serialized (\<lambda>buf.
        let stored = take (free_space d) buf in
        Inr (Some (d\<lparr>files := (files d)(filename \<mapsto> stored),
                    free_space := free_space d - length stored\<rparr>))))"

text \<open>The read loop: chunks of \<open>BUF_SIZE\<close> until \<open>fread\<close> returns nothing.\<close>

function read_chunks :: "nat \<Rightarrow> bytes \<Rightarrow> bytes" where
  "read_chunks n rest = (if n = 0 \<or> rest = [] then [] else take n rest @ read_chunks n (drop n rest))"
  by pat_completeness auto
termination
  by (relation "measure (\<lambda>(n, rest). length rest)") auto

declare read_chunks.simps [simp del]

definition BUF_SIZE :: nat where "BUF_SIZE = 65536"

definition load_xdr_from_file :: "(bytes \<Rightarrow> ('a \<times> bytes) result) \<Rightarrow> string \<Rightarrow> filesystem \<Rightarrow> 'a option result" where
  "load_xdr_from_file load filename d =
     (case files d filename of
        None \<Rightarrow> Inr None
      | Some contents \<Rightarrow>
          if \<not> can_open d filename then Inr None
          else rbind (xdr_from_opaque load (read_chunks BUF_SIZE contents)) (\<lambda>v. Inr (Some v)))"

section \<open>Data directories (\<open>manage_data_dirs.cc\<close>)\<close>

definition hotstuff_index_lmdb_dir :: "string \<Rightarrow> string" where
  "hotstuff_index_lmdb_dir dir = dir @ HOTSTUFF_INDEX"

definition hotstuff_block_data_dir :: "string \<Rightarrow> string" where
  "hotstuff_block_data_dir dir = dir @ HOTSTUFF_BLOCKS"

definition make_hotstuff_dirs :: "string \<Rightarrow> filesystem \<Rightarrow> filesystem result" where
  "make_hotstuff_dirs dir d =
     rbind (mkdir_safe dir d) (\<lambda>(_, d).
     rbind (mkdir_safe (hotstuff_block_data_dir dir) d) (\<lambda>(_, d).
     rbind (mkdir_safe (hotstuff_index_lmdb_dir dir) d) (\<lambda>(_, d). Inr d)))"

text \<open>\<open>filesystem::remove_all\<close>: the path and everything below it.\<close>

definition below :: "string \<Rightarrow> string \<Rightarrow> bool" where
  "below path f \<longleftrightarrow> take (length path) f = path"

definition remove_all :: "string \<Rightarrow> filesystem \<Rightarrow> filesystem" where
  "remove_all path d =
     d\<lparr>files := (\<lambda>f. if below path f then None else files d f),
       dirs := filter (\<lambda>x. \<not> below path x) (dirs d)\<rparr>"

definition clear_hotstuff_dirs :: "(string \<Rightarrow> bool) \<Rightarrow> string \<Rightarrow> filesystem \<Rightarrow> filesystem result" where
  "clear_hotstuff_dirs removable dir d =
     (if \<not> removable (hotstuff_block_data_dir dir)
        then Inl (Runtime_error ''failed to clear hotstuff block dir'')
      else let d = remove_all (hotstuff_block_data_dir dir) d in
        if \<not> removable (hotstuff_index_lmdb_dir dir)
          then Inl (Runtime_error ''failed to clear hotstuff index lmdb dir'')
        else Inr (remove_all (hotstuff_index_lmdb_dir dir) d))"

definition clear_all_data_dirs :: "(string \<Rightarrow> bool) \<Rightarrow> string \<Rightarrow> filesystem \<Rightarrow> filesystem result" where
  "clear_all_data_dirs removable dir d = clear_hotstuff_dirs removable dir d"

definition make_all_data_dirs :: "string \<Rightarrow> filesystem \<Rightarrow> filesystem result" where
  "make_all_data_dirs dir d = make_hotstuff_dirs dir d"

section \<open>Block files (\<open>io_utils.cc\<close>)\<close>

definition make_block_folder :: "string \<Rightarrow> filesystem \<Rightarrow> filesystem result" where
  "make_block_folder dir d = rbind (mkdir_safe (dir @ HOTSTUFF_BLOCKS) d) (\<lambda>(_, d). Inr d)"

definition block_filename :: "hash \<Rightarrow> string \<Rightarrow> string" where
  "block_filename header_hash dir = (dir @ HOTSTUFF_BLOCKS) @ array_to_str header_hash @ ''.block''"

definition hash_header :: "crypto \<Rightarrow> HotstuffBlockHeader \<Rightarrow> hash result" where
  "hash_header cr h = rbind (xdr_to_opaque size_header save_header h) (hash_xdr cr)"

definition hash_body :: "crypto \<Rightarrow> bytes \<Rightarrow> hash result" where
  "hash_body cr b = rbind (xdr_to_opaque opaque_vec_size put_opaque_vec b) (hash_xdr cr)"

definition save_block :: "crypto \<Rightarrow> HotstuffBlockWire \<Rightarrow> string \<Rightarrow> filesystem \<Rightarrow> filesystem result" where
  "save_block cr block dir d =
     rbind (hash_header cr (header block)) (\<lambda>h.
     rbind (save_xdr_to_file (xdr_to_opaque size_block_wire save_block_wire block)
              (block_filename h dir) d) (\<lambda>r.
     case r of None \<Rightarrow> Inl (Runtime_error ''failed to save file'') | Some d' \<Rightarrow> Inr d'))"

definition load_block :: "hash \<Rightarrow> string \<Rightarrow> filesystem \<Rightarrow> HotstuffBlockWire option result" where
  "load_block req_header_hash dir d = load_xdr_from_file load_block_wire (block_filename req_header_hash dir) d"

section \<open>Properties\<close>

lemma read_chunks_all: "0 < n \<Longrightarrow> read_chunks n rest = rest"
proof (induction n rest rule: read_chunks.induct)
  case (1 n rest)
  show ?case
  proof (cases "rest = []")
    case True
    then show ?thesis by (simp add: read_chunks.simps[of n "[]"])
  next
    case False
    then have "read_chunks n (drop n rest) = drop n rest" using "1" by simp
    with False "1.prems" show ?thesis by (simp add: read_chunks.simps[of n rest])
  qed
qed

lemma block_filename_inject: "block_filename h dir = block_filename k dir \<longleftrightarrow> h = k"
  by (simp add: block_filename_def array_to_str_hexdump hexdump_inject)

lemma files_save_block_other:
  assumes "save_block cr blk dir d = Inr d'" and "hash_header cr (header blk) = Inr k" and "h \<noteq> k"
  shows "files d' (block_filename h dir) = files d (block_filename h dir)"
  using assms
  by (auto simp: save_block_def save_xdr_to_file_def result_simps Let_def block_filename_inject
      split: if_splits)

lemma save_block_frame [hs_frame]:
  assumes "save_block cr blk dir d = Inr d'"
  shows "can_open d' = can_open d" and "can_mkdir d' = can_mkdir d" and "dirs d' = dirs d"
  using assms
  by (auto simp: save_block_def save_xdr_to_file_def result_simps Let_def split: if_splits)

text \<open>A block that was saved in full is the block that loads under its header's hash.\<close>

lemma load_block_save_block:
  assumes "wf_block_wire blk" and "hash_header cr (header blk) = Inr h"
    and "save_block cr blk dir d = Inr d'" and "size_block_wire blk \<le> free_space d"
  shows "load_block h dir d' = Inr (Some blk)"
proof -
  have s: "xdr_to_opaque size_block_wire save_block_wire blk = Inr (save_block_wire blk)"
    using assms(1) by (rule block_codec.to_opaque)
  have len: "length (save_block_wire blk) \<le> free_space d"
    using assms(1,4) by (simp add: block_codec.length_save)
  have "files d' (block_filename h dir) = Some (save_block_wire blk)" "can_open d' (block_filename h dir)"
    using assms(2,3) s len
    by (auto simp: save_block_def save_xdr_to_file_def Let_def split: if_splits)
  then show ?thesis
    using block_codec.from_opaque_save[OF assms(1)]
    by (simp add: load_block_def load_xdr_from_file_def read_chunks_all BUF_SIZE_def)
qed

text \<open>On a full device the save still reports success, and the block does not load.\<close>

lemma save_block_short_write:
  assumes "wf_block_wire blk" and "hash_header cr (header blk) = Inr h"
    and "can_open d (block_filename h dir)" and "free_space d < size_block_wire blk"
  shows "\<exists>d'. save_block cr blk dir d = Inr d' \<and> load_block h dir d' \<noteq> Inr (Some blk)"
proof -
  let ?n = "free_space d"
  have s: "xdr_to_opaque size_block_wire save_block_wire blk = Inr (save_block_wire blk)"
    using assms(1) by (rule block_codec.to_opaque)
  have len: "length (save_block_wire blk) = size_block_wire blk"
    using assms(1) by (rule block_codec.length_save)
  let ?st = "take ?n (save_block_wire blk)"
  obtain d' where d': "save_block cr blk dir d = Inr d'" "files d' (block_filename h dir) = Some ?st"
    using assms(2,3) s by (simp add: save_block_def save_xdr_to_file_def Let_def)
  have "?st \<noteq> save_block_wire blk"
    using assms(4) len by (auto dest: arg_cong[of _ _ length])
  then have "xdr_from_opaque load_block_wire ?st \<noteq> Inr blk"
    by (simp add: block_codec.from_opaque_iff)
  then show ?thesis
    using d' by (auto simp: load_block_def load_xdr_from_file_def read_chunks_all BUF_SIZE_def
        result_simps)
qed

section \<open>Claims\<close>

text \<open>C27: with room on the disk, a saved block is read back unchanged under the hash of its header.\<close>

theorem block_file_roundtrip:
  assumes "wf_block_wire blk" and "hash_header cr (header blk) = Inr h"
    and "can_open d (block_filename h dir)" and "size_block_wire blk \<le> free_space d"
  shows "\<exists>d'. save_block cr blk dir d = Inr d' \<and> load_block h dir d' = Inr (Some blk)"
proof -
  obtain d' where "save_block cr blk dir d = Inr d'"
    using assms(1-3) block_codec.to_opaque[of blk] by (simp add: save_block_def save_xdr_to_file_def Let_def)
  then show ?thesis using load_block_save_block[OF assms(1,2) _ assms(4)] by blast
qed

definition sample_wire :: HotstuffBlockWire where
  "sample_wire = \<lparr>header = \<lparr>parent_hash = zero_hash, header_qc = \<lparr>justify = zero_hash, bmp = 0, wire_sigs = []\<rparr>,
     body_hash = zero_hash\<rparr>, body = []\<rparr>"

definition sample_fs :: "nat \<Rightarrow> filesystem" where
  "sample_fs n = \<lparr>files = (\<lambda>_. None), dirs = [], can_open = (\<lambda>_. True), can_mkdir = (\<lambda>_. True), free_space = n\<rparr>"

lemma sample_wire_facts:
  shows "wf_block_wire sample_wire" and "hash_header sample_crypto (header sample_wire) = Inr (replicate 32 7)"
    and "size_block_wire sample_wire = 108"
proof -
  show w: "wf_block_wire sample_wire"
    by (simp add: wf_block_wire_def wf_header_def wf_qc_def sample_wire_def wf_zero_hash)
  then have "wf_header (header sample_wire)" by (simp add: wf_block_wire_def)
  then have "xdr_to_opaque size_header save_header (header sample_wire) = Inr (save_header (header sample_wire))"
    by (rule header_codec.to_opaque)
  then show "hash_header sample_crypto (header sample_wire) = Inr (replicate 32 7)"
    by (simp add: hash_header_def hash_xdr_def sample_crypto_def)
  show "size_block_wire sample_wire = 108"
    by (simp add: size_block_wire_def size_header_def size_qc_def sample_wire_def opaque_array_size_def
        opaque_vec_size_def xvector_size_def HASH_LEN_def)
qed

theorem block_file_roundtrip_witness:
  "\<exists>d'. save_block sample_crypto sample_wire ''d/'' (sample_fs 1000) = Inr d'
     \<and> load_block (replicate 32 7) ''d/'' d' = Inr (Some sample_wire)"
  by (rule block_file_roundtrip[OF sample_wire_facts(1,2)]) (simp_all add: sample_wire_facts(3) sample_fs_def)

text \<open>On a full disk \<open>save_block\<close> reports success although \<open>fwrite\<close> wrote only a part: the block
cannot be read back.\<close>

lemma short_write_is_silent:
  assumes "wf_block_wire blk" and "hash_header cr (header blk) = Inr h"
    and "can_open d (block_filename h dir)" and "free_space d < size_block_wire blk"
  shows "\<exists>d'. save_block cr blk dir d = Inr d' \<and> load_block h dir d' \<noteq> Inr (Some blk)"
  by (rule save_block_short_write[OF assms])

lemma short_write_is_silent_instance:
  "\<exists>d'. save_block sample_crypto sample_wire ''d/'' (sample_fs 10) = Inr d'
     \<and> load_block (replicate 32 7) ''d/'' d' \<noteq> Inr (Some sample_wire)"
  by (rule short_write_is_silent[OF sample_wire_facts(1,2)]) (simp_all add: sample_wire_facts(3) sample_fs_def)

end
