(* ===== verification/Block.thy ===== *)
theory Block
  imports Block_IO
begin

text \<open>
  \<open>hotstuff/block.{h,cc}\<close>: the in-memory block object. Objects are shared through
  \<open>shared_ptr\<close> and compared by address, so they live in an explicit heap: a list of objects in
  which the address of an object is its index. A pointer that can be null is an \<open>addr option\<close>.
  The theory shows what the operations write, that \<open>validate_hash\<close> caches the check of the
  body, and that \<open>write_to_disk\<close> ends and leaves every ancestor of the block on disk.
\<close>

type_synonym addr = nat

record HotstuffBlock =
  wire_block :: HotstuffBlockWire
  parsed_qc :: "QuorumCertificate option"
  blk_proposer :: replica_id
  block_height :: nat
  parent_block_ptr :: "addr option"
  justify_block_ptr :: "addr option"
  self_qc :: QuorumCertificate
  decided :: bool
  written_to_disk :: bool
  hash_checked :: bool
  hash_valid :: bool
  flushed_from_memory :: bool

type_synonym heap = "HotstuffBlock list"

section \<open>Construction\<close>

definition empty_wire_block :: HotstuffBlockWire where
  "empty_wire_block =
     \<lparr>header = \<lparr>parent_hash = zero_hash,
                header_qc = \<lparr>justify = zero_hash, bmp = 0, wire_sigs = []\<rparr>,
                body_hash = zero_hash\<rparr>,
      body = []\<rparr>"

definition construct_received :: "crypto \<Rightarrow> HotstuffBlockWire \<Rightarrow> replica_id \<Rightarrow> HotstuffBlock result" where
  "construct_received cr w src =
     rbind (qc_of_wire (header_qc (header w))) (\<lambda>qc.
     rbind (hash_header cr (header w)) (\<lambda>h.
     Inr \<lparr>wire_block = w, parsed_qc = Some qc, blk_proposer = src, block_height = 0,
          parent_block_ptr = None, justify_block_ptr = None, self_qc = new_qc h, decided = False,
          written_to_disk = False, hash_checked = False, hash_valid = False,
          flushed_from_memory = False\<rparr>))"

definition construct_loaded :: "crypto \<Rightarrow> HotstuffBlockWire \<Rightarrow> HotstuffBlock result" where
  "construct_loaded cr w =
     rbind (qc_of_wire (header_qc (header w))) (\<lambda>qc.
     rbind (hash_header cr (header w)) (\<lambda>h.
     Inr \<lparr>wire_block = w, parsed_qc = Some qc, blk_proposer = UNKNOWN_REPLICA, block_height = 0,
          parent_block_ptr = None, justify_block_ptr = None, self_qc = new_qc h, decided = True,
          written_to_disk = True, hash_checked = True, hash_valid = True,
          flushed_from_memory = False\<rparr>))"

definition genesis_block :: HotstuffBlock where
  "genesis_block =
     \<lparr>wire_block = empty_wire_block, parsed_qc = None, blk_proposer = UNKNOWN_REPLICA,
      block_height = 0, parent_block_ptr = None, justify_block_ptr = None,
      self_qc = new_qc zero_hash, decided = True, written_to_disk = True, hash_checked = True,
      hash_valid = True, flushed_from_memory = True\<rparr>"

text \<open>Allocation puts the new object at the end of the heap and returns its address.\<close>

definition alloc :: "HotstuffBlock \<Rightarrow> heap \<Rightarrow> addr \<times> heap" where
  "alloc b hp = (length hp, hp @ [b])"

definition receive_block :: "crypto \<Rightarrow> HotstuffBlockWire \<Rightarrow> replica_id \<Rightarrow> heap \<Rightarrow> (addr \<times> heap) result" where
  "receive_block cr w source_id hp =
     rbind (construct_received cr w source_id) (\<lambda>b. Inr (alloc b hp))"

definition mint_block ::
    "crypto \<Rightarrow> bytes \<Rightarrow> QuorumCertificateWire \<Rightarrow> hash \<Rightarrow> replica_id \<Rightarrow> heap \<Rightarrow> (addr \<times> heap) result" where
  "mint_block cr bd qc_wire parent self hp =
     rbind (hash_body cr bd) (\<lambda>bh.
     let w = \<lparr>header = \<lparr>parent_hash = parent, header_qc = qc_wire, body_hash = bh\<rparr>, body = bd\<rparr> in
     rbind (construct_received cr w self) (\<lambda>b. Inr (alloc b hp)))"

definition load_decided_block :: "crypto \<Rightarrow> hash \<Rightarrow> string \<Rightarrow> filesystem \<Rightarrow> heap \<Rightarrow> (addr \<times> heap) result" where
  "load_decided_block cr h dir d hp =
     rbind (load_block h dir d) (\<lambda>loaded. case loaded of
        None \<Rightarrow> Inl (Runtime_error ''failed to load an expected block!'')
      | Some w \<Rightarrow> rbind (construct_loaded cr w) (\<lambda>b. Inr (alloc b hp)))"

section \<open>Accessors\<close>

definition to_wire :: "HotstuffBlock \<Rightarrow> HotstuffBlockWire" where
  "to_wire b = wire_block b"

definition get_hash :: "HotstuffBlock \<Rightarrow> hash" where
  "get_hash b = obj_hash (self_qc b)"

definition get_parent_hash :: "HotstuffBlock \<Rightarrow> hash" where
  "get_parent_hash b = parent_hash (header (wire_block b))"

definition get_justify_qc :: "HotstuffBlock \<Rightarrow> QuorumCertificate result" where
  "get_justify_qc b =
     (case parsed_qc b of None \<Rightarrow> Inl (Undefined_behaviour ''empty parsed_qc'') | Some qc \<Rightarrow> Inr qc)"

definition get_justify_hash :: "HotstuffBlock \<Rightarrow> hash result" where
  "get_justify_hash b = rbind (get_justify_qc b) (\<lambda>qc. Inr (obj_hash qc))"

definition deref :: "addr option \<Rightarrow> addr result" where
  "deref p = (case p of None \<Rightarrow> Inl (Undefined_behaviour ''null block_ptr_t'') | Some a \<Rightarrow> Inr a)"

definition has_body :: "HotstuffBlock \<Rightarrow> bool result" where
  "has_body b =
     (if flushed_from_memory b then Inl (Runtime_error ''can't query body if flushed from memory'')
      else Inr (length (body (wire_block b)) > 0))"

fun supports_nonempty_child_proposal :: "heap \<Rightarrow> addr \<Rightarrow> replica_id \<Rightarrow> nat \<Rightarrow> bool result" where
  "supports_nonempty_child_proposal hp a self 0 = Inr True"
| "supports_nonempty_child_proposal hp a self (Suc depth) =
     (if self \<noteq> blk_proposer (hp ! a) then Inr False
      else if justify_block_ptr (hp ! a) = None then Inr False
      else case parent_block_ptr (hp ! a) of
        None \<Rightarrow> Inr False
      | Some p \<Rightarrow> rbind (get_justify_hash (hp ! a)) (\<lambda>jh.
          if jh \<noteq> get_parent_hash (hp ! a) then Inr False
          else supports_nonempty_child_proposal hp p self depth))"

section \<open>Mutators\<close>

definition decide :: "HotstuffBlock \<Rightarrow> HotstuffBlock" where
  "decide b = b\<lparr>decided := True\<rparr>"

definition set_parent :: "addr \<Rightarrow> addr \<Rightarrow> heap \<Rightarrow> heap" where
  "set_parent a parent_block hp =
     hp[a := (hp ! a)\<lparr>parent_block_ptr := Some parent_block,
                      block_height := u64 (block_height (hp ! parent_block) + 1)\<rparr>]"

definition set_justify :: "addr \<Rightarrow> addr \<Rightarrow> heap \<Rightarrow> heap" where
  "set_justify a justify_block hp = hp[a := (hp ! a)\<lparr>justify_block_ptr := Some justify_block\<rparr>]"

definition validate_hash :: "crypto \<Rightarrow> HotstuffBlock \<Rightarrow> (bool \<times> HotstuffBlock) result" where
  "validate_hash cr b =
     (if hash_checked b then Inr (hash_valid b, b)
      else rbind (hash_body cr (body (wire_block b))) (\<lambda>h.
        let b = b\<lparr>hash_checked := True\<rparr> in
        if h \<noteq> body_hash (header (wire_block b)) then Inr (False, b\<lparr>hash_valid := False\<rparr>)
        else Inr (True, b\<lparr>hash_valid := True\<rparr>)))"

definition validate_hotstuff :: "crypto \<Rightarrow> ReplicaConfig \<Rightarrow> HotstuffBlock \<Rightarrow> (bool \<times> HotstuffBlock) result" where
  "validate_hotstuff cr config b =
     rbind (validate_hash cr b) (\<lambda>(ok, b).
       if \<not> ok then Inr (False, b)
       else rbind (get_justify_qc b) (\<lambda>qc. rbind (qc_verify cr config qc) (\<lambda>v. Inr (v, b))))"

definition flush_from_memory :: "HotstuffBlock \<Rightarrow> HotstuffBlock" where
  "flush_from_memory b =
     (if flushed_from_memory b then b
      else b\<lparr>flushed_from_memory := True, wire_block := (wire_block b)\<lparr>body := []\<rparr>\<rparr>)"

definition try_vm_parse :: "(bytes \<Rightarrow> ('b \<times> bytes) result) \<Rightarrow> HotstuffBlock \<Rightarrow> 'b option result" where
  "try_vm_parse load b =
     rbind (has_body b) (\<lambda>nonempty.
       if \<not> nonempty then Inr None
       else case xdr_from_opaque load (body (wire_block b)) of
              Inl e \<Rightarrow> Inr None
            | Inr v \<Rightarrow> Inr (Some v))"

text \<open>
  \<open>write_to_disk\<close>: \<open>test_and_set\<close> the flag, save, continue with the parent. An address
  outside the heap cannot occur in the program and is an error here.
\<close>

function block_write_to_disk ::
    "crypto \<Rightarrow> string \<Rightarrow> addr \<Rightarrow> heap \<Rightarrow> filesystem \<Rightarrow> (heap \<times> filesystem) result" where
  "block_write_to_disk cr dir a hp d =
     (if a \<ge> length hp then Inl (Undefined_behaviour ''dangling pointer'')
      else if written_to_disk (hp ! a) then Inr (hp, d)
      else let hp' = hp[a := (hp ! a)\<lparr>written_to_disk := True\<rparr>] in
        rbind (save_block cr (wire_block (hp ! a)) dir d) (\<lambda>d'.
        case parent_block_ptr (hp ! a) of
          None \<Rightarrow> Inr (hp', d')
        | Some p \<Rightarrow> block_write_to_disk cr dir p hp' d'))"
  by pat_completeness auto

termination
proof (relation "measure (\<lambda>(cr, dir, a, hp, d). length (filter (\<lambda>b. \<not> written_to_disk b) hp))", goal_cases)
  case (2 cr dir a hp d hp' d' p)
  let ?b = "(hp ! a)\<lparr>written_to_disk := True\<rparr>"
  have hp: "hp = take a hp @ hp ! a # drop (Suc a) hp" using 2 by (simp add: id_take_nth_drop)
  have hp': "hp' = take a hp @ ?b # drop (Suc a) hp" using 2 by (simp add: upd_conv_take_nth_drop)
  have "length (filter (\<lambda>b. \<not> written_to_disk b) hp)
      = Suc (length (filter (\<lambda>b. \<not> written_to_disk b) hp'))"
    by (subst hp, subst hp') (use 2 in simp)
  then show ?case by simp
qed simp

declare block_write_to_disk.simps [simp del]

section \<open>Properties of the small operations\<close>

lemma construct_received_fields:
  assumes "construct_received cr w src = Inr b"
  shows "wire_block b = w" and "hash_header cr (header w) = Inr (get_hash b)"
    and "blk_proposer b = src" and "block_height b = 0"
    and "\<exists>qc. parsed_qc b = Some qc \<and> qc_of_wire (header_qc (header w)) = Inr qc"
    and "\<not> decided b" and "\<not> written_to_disk b" and "\<not> hash_checked b" and "\<not> flushed_from_memory b"
    and "parent_block_ptr b = None" and "justify_block_ptr b = None"
    and "self_qc b = new_qc (get_hash b)"
  using assms by (auto simp: construct_received_def result_simps get_hash_def new_qc_def)

lemma construct_loaded_fields:
  assumes "construct_loaded cr w = Inr b"
  shows "wire_block b = w" and "hash_header cr (header w) = Inr (get_hash b)"
    and "\<exists>qc. parsed_qc b = Some qc \<and> qc_of_wire (header_qc (header w)) = Inr qc"
    and "decided b" and "written_to_disk b" and "self_qc b = new_qc (get_hash b)"
  using assms by (auto simp: construct_loaded_def result_simps get_hash_def new_qc_def)

lemma get_justify_hash_received:
  assumes "construct_received cr w src = Inr b"
  shows "get_justify_hash b = Inr (justify (header_qc (header w)))"
  using construct_received_fields(5)[OF assms] qc_of_wire_hash
  by (auto simp: get_justify_hash_def get_justify_qc_def)

lemma deref_Inr [simp, result_simps]: "deref p = Inr a \<longleftrightarrow> p = Some a"
  by (auto simp: deref_def split: option.splits)

lemma get_hash_genesis [simp]: "get_hash genesis_block = zero_hash"
  by (simp add: get_hash_def genesis_block_def new_qc_def)

text \<open>The check of the body is a function of the wire block, cached or not.\<close>

definition hash_cache_ok :: "crypto \<Rightarrow> HotstuffBlock \<Rightarrow> bool" where
  "hash_cache_ok cr b \<longleftrightarrow> (hash_checked b \<longrightarrow>
     (\<exists>h. hash_body cr (body (wire_block b)) = Inr h \<and> hash_valid b = (h = body_hash (header (wire_block b)))))"

lemma validate_hash_cached:
  "hash_checked b \<Longrightarrow> validate_hash cr b = Inr (hash_valid b, b)"
  by (simp add: validate_hash_def)

lemma validate_hash_frame:
  assumes "validate_hash cr b = Inr (ok, b')"
  shows "b' = b\<lparr>hash_checked := True, hash_valid := ok\<rparr>"
  using assms by (auto simp: validate_hash_def result_simps Let_def split: if_splits)

lemma validate_hash_sound:
  assumes "hash_cache_ok cr b" and "validate_hash cr b = Inr (ok, b')"
  shows "hash_cache_ok cr b'"
    and "\<exists>h. hash_body cr (body (wire_block b)) = Inr h \<and> ok = (h = body_hash (header (wire_block b)))"
    and "validate_hash cr b' = Inr (ok, b')"
proof -
  let ?h = "hash_body cr (body (wire_block b))"
  show 2: "\<exists>h. ?h = Inr h \<and> ok = (h = body_hash (header (wire_block b)))"
    using assms by (cases "hash_checked b"; cases ?h)
      (auto simp: validate_hash_def hash_cache_ok_def Let_def split: if_splits)
  have b': "b' = b\<lparr>hash_checked := True, hash_valid := ok\<rparr>"
    using assms(2) by (rule validate_hash_frame)
  then show "hash_cache_ok cr b'" using 2 by (simp add: hash_cache_ok_def)
  show "validate_hash cr b' = Inr (ok, b')" using b' by (simp add: validate_hash_cached)
qed

lemma validate_hotstuff_frame:
  assumes "validate_hotstuff cr config b = Inr (ok, b')"
  shows "\<exists>v. b' = b\<lparr>hash_checked := True, hash_valid := v\<rparr>"
proof -
  from assms obtain v b1 where "validate_hash cr b = Inr (v, b1)" and "b' = b1"
    by (auto simp: validate_hotstuff_def result_simps split: if_splits)
  then show ?thesis using validate_hash_frame[of cr b v b1] by blast
qed

lemma validate_hotstuff_qc:
  assumes "validate_hotstuff cr config b = Inr (True, b')"
  shows "\<exists>qc. parsed_qc b = Some qc \<and> qc_verify cr config qc = Inr True"
proof -
  from assms obtain b1 qc where b1: "validate_hash cr b = Inr (True, b1)"
    and qc: "get_justify_qc b1 = Inr qc" "qc_verify cr config qc = Inr True"
    by (auto simp: validate_hotstuff_def result_simps split: if_splits)
  from validate_hash_frame[OF b1] qc show ?thesis
    by (auto simp: get_justify_qc_def split: option.splits)
qed

lemma flush_from_memory_fields [hs_frame, simp]:
  "get_hash (flush_from_memory b) = get_hash b"
  "header (wire_block (flush_from_memory b)) = header (wire_block b)"
  "block_height (flush_from_memory b) = block_height b"
  "parent_block_ptr (flush_from_memory b) = parent_block_ptr b"
  "justify_block_ptr (flush_from_memory b) = justify_block_ptr b"
  "parsed_qc (flush_from_memory b) = parsed_qc b"
  "decided (flush_from_memory b) = decided b"
  "self_qc (flush_from_memory b) = self_qc b"
  by (auto simp: flush_from_memory_def get_hash_def)

section \<open>Writing a block and its ancestors to disk\<close>

text \<open>The heap without its \<open>written_to_disk\<close> flags: all that writing leaves alone.\<close>

definition unwritten :: "heap \<Rightarrow> heap" where
  "unwritten hp = map (\<lambda>b. b\<lparr>written_to_disk := False\<rparr>) hp"

lemma unwritten_update [simp]:
  "a < length hp \<Longrightarrow> unwritten (hp[a := (hp ! a)\<lparr>written_to_disk := v\<rparr>]) = unwritten hp"
  by (rule nth_equalityI) (auto simp: unwritten_def nth_list_update)

lemma unwritten_length: "unwritten hp' = unwritten hp \<Longrightarrow> length hp' = length hp"
  by (metis length_map unwritten_def)

lemma unwritten_nth:
  assumes "unwritten hp' = unwritten hp" and "a < length hp"
  shows "hp' ! a = (hp ! a)\<lparr>written_to_disk := written_to_disk (hp' ! a)\<rparr>"
proof -
  have "unwritten hp' ! a = unwritten hp ! a" using assms(1) by simp
  then have "(hp' ! a)\<lparr>written_to_disk := False\<rparr> = (hp ! a)\<lparr>written_to_disk := False\<rparr>"
    using assms unwritten_length[OF assms(1)] by (simp add: unwritten_def)
  then have "(hp' ! a)\<lparr>written_to_disk := False\<rparr>\<lparr>written_to_disk := written_to_disk (hp' ! a)\<rparr>
      = (hp ! a)\<lparr>written_to_disk := False\<rparr>\<lparr>written_to_disk := written_to_disk (hp' ! a)\<rparr>"
    by simp
  then show ?thesis by simp
qed

lemma unwritten_fields:
  assumes "unwritten hp' = unwritten hp" and "a < length hp"
  shows "wire_block (hp' ! a) = wire_block (hp ! a)" and "get_hash (hp' ! a) = get_hash (hp ! a)"
    and "parent_block_ptr (hp' ! a) = parent_block_ptr (hp ! a)"
    and "justify_block_ptr (hp' ! a) = justify_block_ptr (hp ! a)"
    and "block_height (hp' ! a) = block_height (hp ! a)"
    and "decided (hp' ! a) = decided (hp ! a)" and "parsed_qc (hp' ! a) = parsed_qc (hp ! a)"
    and "self_qc (hp' ! a) = self_qc (hp ! a)" and "blk_proposer (hp' ! a) = blk_proposer (hp ! a)"
  by (subst unwritten_nth[OF assms], simp add: get_hash_def)+

definition mark_written :: "addr \<Rightarrow> heap \<Rightarrow> heap" where
  "mark_written a hp = hp[a := (hp ! a)\<lparr>written_to_disk := True\<rparr>]"

lemma mark_written_simps [simp]:
  "length (mark_written a hp) = length hp"
  "a < length hp \<Longrightarrow> unwritten (mark_written a hp) = unwritten hp"
  "a < length hp \<Longrightarrow> written_to_disk (mark_written a hp ! a)"
  "x \<noteq> a \<Longrightarrow> mark_written a hp ! x = hp ! x"
  by (simp_all add: mark_written_def)

text \<open>Induction over the blocks a successful run visits.\<close>

lemma write_run_induct [consumes 1, case_names present top up]:
  assumes "block_write_to_disk cr dir a hp d = Inr (hp', d')"
    and "\<And>a hp d. a < length hp \<Longrightarrow> written_to_disk (hp ! a) \<Longrightarrow> P a hp d hp d"
    and "\<And>a hp d d1. a < length hp \<Longrightarrow> \<not> written_to_disk (hp ! a) \<Longrightarrow>
          save_block cr (wire_block (hp ! a)) dir d = Inr d1 \<Longrightarrow> parent_block_ptr (hp ! a) = None \<Longrightarrow>
          P a hp d (mark_written a hp) d1"
    and "\<And>a p hp d d1 hp' d'. a < length hp \<Longrightarrow> \<not> written_to_disk (hp ! a) \<Longrightarrow>
          save_block cr (wire_block (hp ! a)) dir d = Inr d1 \<Longrightarrow> parent_block_ptr (hp ! a) = Some p \<Longrightarrow>
          block_write_to_disk cr dir p (mark_written a hp) d1 = Inr (hp', d') \<Longrightarrow>
          P p (mark_written a hp) d1 hp' d' \<Longrightarrow> P a hp d hp' d'"
  shows "P a hp d hp' d'"
  using assms
proof (induction cr dir a hp d rule: block_write_to_disk.induct)
  case (1 cr dir a hp d)
  note run = "1.prems"(1)[unfolded block_write_to_disk.simps[of cr dir a hp d] mark_written_def[symmetric]]
  show ?case
  proof (cases "a < length hp \<and> \<not> written_to_disk (hp ! a)")
    case False
    then have "a < length hp" "written_to_disk (hp ! a)" "hp' = hp" "d' = d"
      using run by (auto split: if_splits)
    then show ?thesis using "1.prems"(2) by simp
  next
    case True
    then obtain d1 where d1: "save_block cr (wire_block (hp ! a)) dir d = Inr d1"
      and r: "(case parent_block_ptr (hp ! a) of None \<Rightarrow> Inr (mark_written a hp, d1)
              | Some p \<Rightarrow> block_write_to_disk cr dir p (mark_written a hp) d1) = Inr (hp', d')"
      using run by (auto simp: result_simps Let_def)
    show ?thesis
    proof (cases "parent_block_ptr (hp ! a)")
      case None
      then show ?thesis using r "1.prems"(3)[of a hp d d1] True d1 by auto
    next
      case (Some p)
      then have run': "block_write_to_disk cr dir p (mark_written a hp) d1 = Inr (hp', d')" using r by simp
      then have "P p (mark_written a hp) d1 hp' d'"
        using "1.IH"[OF _ _ _ d1 Some] True "1.prems"(2-4) by (simp add: mark_written_def)
      then show ?thesis using "1.prems"(4) True d1 Some run' by blast
    qed
  qed
qed

lemma block_write_to_disk_frame:
  assumes "block_write_to_disk cr dir a hp d = Inr (hp', d')"
  shows "unwritten hp' = unwritten hp \<and> a < length hp \<and> written_to_disk (hp' ! a)
    \<and> (\<forall>x. written_to_disk (hp ! x) \<longrightarrow> written_to_disk (hp' ! x))"
  using assms
proof (induction rule: write_run_induct)
  case (present a hp d)
  then show ?case by simp
next
  case (top a hp d d1)
  then show ?case by (metis mark_written_simps(2-4))
next
  case (up a p hp d d1 hp' d')
  then show ?case by (metis mark_written_simps(2-4))
qed

text \<open>
  Every flagged block has its file and a flagged parent, once the genesis block (which has neither
  file nor parent) is set aside.
\<close>

definition on_disk :: "string \<Rightarrow> filesystem \<Rightarrow> HotstuffBlock \<Rightarrow> bool" where
  "on_disk dir d b \<longleftrightarrow> (\<exists>w. load_block (get_hash b) dir d = Inr (Some w) \<and> header w = header (wire_block b))"

definition disk_ok :: "string \<Rightarrow> heap \<Rightarrow> filesystem \<Rightarrow> bool" where
  "disk_ok dir hp d \<longleftrightarrow> (\<forall>a < length hp. written_to_disk (hp ! a) \<longrightarrow>
     (get_hash (hp ! a) \<noteq> zero_hash \<longrightarrow> on_disk dir d (hp ! a)) \<and>
     (\<forall>p. parent_block_ptr (hp ! a) = Some p \<longrightarrow> p < length hp \<and> written_to_disk (hp ! p)))"

definition bytes_to_write :: "heap \<Rightarrow> nat" where
  "bytes_to_write hp = (\<Sum>b \<leftarrow> hp. if written_to_disk b then 0 else size_block_wire (wire_block b))"

text \<open>Objects are faithful to their wire form, and the hash names the header.\<close>

definition heap_wires_ok :: "crypto \<Rightarrow> heap \<Rightarrow> bool" where
  "heap_wires_ok cr hp \<longleftrightarrow> (\<forall>b \<in> set hp. get_hash b \<noteq> zero_hash \<longrightarrow>
     wf_block_wire (wire_block b) \<and> hash_header cr (header (wire_block b)) = Inr (get_hash b))
   \<and> (\<forall>b \<in> set hp. \<forall>c \<in> set hp. get_hash b = get_hash c \<longrightarrow> header (wire_block b) = header (wire_block c))"

lemma new_flags_have_parents:
  assumes "block_write_to_disk cr dir a hp d = Inr (hp', d')"
  shows "\<forall>x p. written_to_disk (hp' ! x) \<longrightarrow> \<not> written_to_disk (hp ! x) \<longrightarrow>
    parent_block_ptr (hp ! x) = Some p \<longrightarrow> p < length hp \<and> written_to_disk (hp' ! p)"
  using assms
proof (induction rule: write_run_induct)
  case (present a hp d)
  then show ?case by simp
next
  case (top a hp d d1)
  then show ?case by (metis mark_written_simps(4) option.distinct(1))
next
  case (up a p hp d d1 hp' d')
  have "p < length hp \<and> written_to_disk (hp' ! p)"
    using block_write_to_disk_frame[OF up(5)] by simp
  then show ?case using up by (metis mark_written_simps(1,4) option.inject)
qed

definition files_ok :: "string \<Rightarrow> heap \<Rightarrow> filesystem \<Rightarrow> bool" where
  "files_ok dir hp d \<longleftrightarrow> (\<forall>b \<in> set hp. written_to_disk b \<longrightarrow> get_hash b \<noteq> zero_hash \<longrightarrow> on_disk dir d b)"

lemma save_block_on_disk:
  assumes "wf_block_wire (wire_block b)" and "hash_header cr (header (wire_block b)) = Inr (get_hash b)"
    and "save_block cr (wire_block b) dir d = Inr d'" and "size_block_wire (wire_block b) \<le> free_space d"
  shows "on_disk dir d' b"
  using load_block_save_block[OF assms(1,2,3,4)] by (auto simp: on_disk_def)

lemma save_block_keeps_on_disk:
  assumes "on_disk dir d c" and "wf_block_wire (wire_block b)"
    and "hash_header cr (header (wire_block b)) = Inr (get_hash b)"
    and "save_block cr (wire_block b) dir d = Inr d'" and "size_block_wire (wire_block b) \<le> free_space d"
    and "get_hash c = get_hash b \<Longrightarrow> header (wire_block c) = header (wire_block b)"
  shows "on_disk dir d' c"
proof (cases "get_hash c = get_hash b")
  case True
  with save_block_on_disk[OF assms(2-5)] assms(6) show ?thesis by (auto simp: on_disk_def)
next
  case False
  have "files d' (block_filename (get_hash c) dir) = files d (block_filename (get_hash c) dir)"
    using files_save_block_other[OF assms(4,3) False] .
  moreover have "can_open d' = can_open d" using save_block_frame(1)[OF assms(4)] .
  ultimately show ?thesis using assms(1)
    by (simp add: on_disk_def load_block_def load_xdr_from_file_def cong: option.case_cong)
qed

lemma bytes_to_write_mark:
  assumes "a < length hp" and "\<not> written_to_disk (hp ! a)"
  shows "bytes_to_write hp = size_block_wire (wire_block (hp ! a)) + bytes_to_write (mark_written a hp)"
proof -
  have hp: "hp = take a hp @ hp ! a # drop (Suc a) hp" using assms by (simp add: id_take_nth_drop)
  have "mark_written a hp = take a hp @ (hp ! a)\<lparr>written_to_disk := True\<rparr> # drop (Suc a) hp"
    using assms by (simp add: mark_written_def upd_conv_take_nth_drop)
  then show ?thesis
    unfolding bytes_to_write_def by (subst hp) (use assms(2) in \<open>simp del: append_take_drop_id\<close>)
qed

lemma files_ok_mark:
  assumes "files_ok dir hp d" and "heap_wires_ok cr hp" and "a < length hp"
    and "save_block cr (wire_block (hp ! a)) dir d = Inr d1" and "get_hash (hp ! a) \<noteq> zero_hash"
    and "size_block_wire (wire_block (hp ! a)) \<le> free_space d"
  shows "files_ok dir (mark_written a hp) d1"
  unfolding files_ok_def
proof (intro ballI impI)
  fix b assume b: "b \<in> set (mark_written a hp)" "written_to_disk b" "get_hash b \<noteq> zero_hash"
  note w = assms(2)[unfolded heap_wires_ok_def]
  have a: "hp ! a \<in> set hp" "wf_block_wire (wire_block (hp ! a))"
    "hash_header cr (header (wire_block (hp ! a))) = Inr (get_hash (hp ! a))"
    using w assms(3,5) by auto
  from b(1) have "b = (hp ! a)\<lparr>written_to_disk := True\<rparr> \<or> b \<in> set hp"
    unfolding mark_written_def using set_update_subset_insert by fast
  then show "on_disk dir d1 b"
  proof
    assume "b = (hp ! a)\<lparr>written_to_disk := True\<rparr>"
    with save_block_on_disk[OF a(2,3) assms(4,6)] show ?thesis by (simp add: on_disk_def get_hash_def)
  next
    assume "b \<in> set hp"
    then have "on_disk dir d b" "get_hash b = get_hash (hp ! a) \<Longrightarrow> header (wire_block b) = header (wire_block (hp ! a))"
        using assms(1) b(2,3) w a(1) unfolding files_ok_def by blast+
    then show ?thesis using save_block_keeps_on_disk a(2,3) assms(4,6) by blast
  qed
qed

lemma heap_wires_ok_unwritten:
  assumes "unwritten hp' = unwritten hp" and "heap_wires_ok cr hp"
  shows "heap_wires_ok cr hp'"
proof -
  have len: "length hp' = length hp" by (rule unwritten_length[OF assms(1)])
  note f = unwritten_fields(1,2)[OF assms(1)]
  have eq: "\<exists>c \<in> set hp. wire_block b = wire_block c \<and> get_hash b = get_hash c" if b: "b \<in> set hp'" for b
    using b len f nth_mem[of _ hp] by (metis in_set_conv_nth)
  show ?thesis unfolding heap_wires_ok_def
    using assms(2)[unfolded heap_wires_ok_def] eq by metis
qed

lemma save_block_space:
  assumes "save_block cr w dir d = Inr d'" and "wf_block_wire w"
  shows "free_space d - size_block_wire w \<le> free_space d'"
  using assms block_codec.to_opaque[OF assms(2)] block_codec.length_save[OF assms(2)]
  by (auto simp: save_block_def save_xdr_to_file_def result_simps Let_def split: if_splits)

lemma block_write_to_disk_files:
  assumes "block_write_to_disk cr dir a hp d = Inr (hp', d')"
  shows "files_ok dir hp d \<Longrightarrow> heap_wires_ok cr hp \<Longrightarrow> bytes_to_write hp \<le> free_space d \<Longrightarrow>
    \<forall>b \<in> set hp. get_hash b = zero_hash \<longrightarrow> written_to_disk b \<Longrightarrow> files_ok dir hp' d'"
  using assms
proof (induction rule: write_run_induct)
  case (present a hp d)
  then show ?case by simp
next
  case (top a hp d d1)
  then have "size_block_wire (wire_block (hp ! a)) \<le> free_space d" "get_hash (hp ! a) \<noteq> zero_hash"
    using bytes_to_write_mark[OF top(1,2)] nth_mem[OF top(1)] by (linarith, metis)
  with top show ?case by (intro files_ok_mark)
next
  case (up a p hp d d1 hp' d')
  then have sz: "size_block_wire (wire_block (hp ! a)) \<le> free_space d" "get_hash (hp ! a) \<noteq> zero_hash"
    using bytes_to_write_mark[OF up(1,2)] nth_mem[OF up(1)] by (linarith, metis)
  with up have f: "files_ok dir (mark_written a hp) d1" by (intro files_ok_mark)
  have w: "heap_wires_ok cr (mark_written a hp)"
    by (rule heap_wires_ok_unwritten[OF _ up.prems(2)]) (simp add: up(1))
  have "wf_block_wire (wire_block (hp ! a))" using up.prems(2) sz(2) nth_mem[OF up(1)] unfolding heap_wires_ok_def by blast
  from save_block_space[OF up(3) this] have "bytes_to_write (mark_written a hp) \<le> free_space d1"
    using bytes_to_write_mark[OF up(1,2)] up.prems(3) by linarith
  moreover have "\<forall>b \<in> set (mark_written a hp). get_hash b = zero_hash \<longrightarrow> written_to_disk b"
  proof
    fix b assume "b \<in> set (mark_written a hp)"
    then have "b = (hp ! a)\<lparr>written_to_disk := True\<rparr> \<or> b \<in> set hp"
      unfolding mark_written_def using set_update_subset_insert by fast
    then show "get_hash b = zero_hash \<longrightarrow> written_to_disk b" using up.prems(4) by auto
  qed
  ultimately show ?case using up.IH f w by blast
qed

text \<open>
  After a successful \<open>write_to_disk\<close> the block and all its ancestors up to the genesis block can
  be loaded from their files: that is what the replica needs before it may commit.
\<close>

inductive ancestor_ptr :: "heap \<Rightarrow> addr \<Rightarrow> addr \<Rightarrow> bool" for hp where
  self: "ancestor_ptr hp a a"
| above: "ancestor_ptr hp a b \<Longrightarrow> parent_block_ptr (hp ! b) = Some c \<Longrightarrow> ancestor_ptr hp a c"

lemma disk_okD:
  assumes "disk_ok dir hp d" and "a < length hp" and "written_to_disk (hp ! a)"
  shows "get_hash (hp ! a) \<noteq> zero_hash \<Longrightarrow> on_disk dir d (hp ! a)"
    and "parent_block_ptr (hp ! a) = Some p \<Longrightarrow> p < length hp \<and> written_to_disk (hp ! p)"
proof -
  have "(get_hash (hp ! a) \<noteq> zero_hash \<longrightarrow> on_disk dir d (hp ! a)) \<and>
     (\<forall>p. parent_block_ptr (hp ! a) = Some p \<longrightarrow> p < length hp \<and> written_to_disk (hp ! p))"
    using assms unfolding disk_ok_def by (elim allE impE)
  then show "get_hash (hp ! a) \<noteq> zero_hash \<Longrightarrow> on_disk dir d (hp ! a)"
    and "parent_block_ptr (hp ! a) = Some p \<Longrightarrow> p < length hp \<and> written_to_disk (hp ! p)" by simp_all
qed

lemma disk_ok_files: "disk_ok dir hp d \<Longrightarrow> files_ok dir hp d"
  unfolding files_ok_def by (metis disk_okD(1) in_set_conv_nth)

lemma disk_ok_write:
  assumes "block_write_to_disk cr dir a hp d = Inr (hp', d')"
    and "disk_ok dir hp d" and "heap_wires_ok cr hp" and "bytes_to_write hp \<le> free_space d"
    and "\<forall>b \<in> set hp. get_hash b = zero_hash \<longrightarrow> written_to_disk b"
  shows "disk_ok dir hp' d'"
proof -
  note fr = block_write_to_disk_frame[OF assms(1)]
  have len: "length hp' = length hp" using fr unwritten_length by blast
  have f: "files_ok dir hp' d'"
    using block_write_to_disk_files[OF assms(1) disk_ok_files[OF assms(2)] assms(3-5)] .
  show ?thesis unfolding disk_ok_def
  proof (intro allI impI conjI)
    fix x assume x: "x < length hp'" "written_to_disk (hp' ! x)"
    show "on_disk dir d' (hp' ! x)" if "get_hash (hp' ! x) \<noteq> zero_hash"
      using f x that by (auto simp: files_ok_def)
    fix p assume "parent_block_ptr (hp' ! x) = Some p"
    then have p: "parent_block_ptr (hp ! x) = Some p"
      using unwritten_fields(3)[of hp' hp x] fr x(1) len by simp
    have "p < length hp \<and> written_to_disk (hp' ! p)"
    proof (cases "written_to_disk (hp ! x)")
      case True
      then show ?thesis using disk_okD(2)[OF assms(2) _ True p] x(1) len fr by simp
    next
      case False
      then show ?thesis using new_flags_have_parents[OF assms(1)] x(2) p by blast
    qed
    then show "p < length hp'" "written_to_disk (hp' ! p)" using len by auto
  qed
qed

lemma disk_ok_ancestors:
  assumes "disk_ok dir hp d" and "ancestor_ptr hp a b" and "a < length hp" and "written_to_disk (hp ! a)"
  shows "b < length hp \<and> written_to_disk (hp ! b) \<and> (get_hash (hp ! b) \<noteq> zero_hash \<longrightarrow> on_disk dir d (hp ! b))"
  using assms(2-4)
proof induction
  case self
  then show ?case using disk_okD(1)[OF assms(1)] by blast
next
  case (above a b c)
  then have "c < length hp \<and> written_to_disk (hp ! c)" using disk_okD(2)[OF assms(1)] by blast
  then show ?case using disk_okD(1)[OF assms(1)] by blast
qed

section \<open>Claims\<close>


definition sample_block :: HotstuffBlock where
  "sample_block = \<lparr>wire_block = sample_wire, parsed_qc = Some (new_qc zero_hash), blk_proposer = 0, block_height = 1,
     parent_block_ptr = Some 0, justify_block_ptr = Some 0, self_qc = new_qc (replicate 32 7), decided = False,
     written_to_disk = False, hash_checked = False, hash_valid = False, flushed_from_memory = False\<rparr>"

lemma seven_not_zero: "replicate 32 (7 :: byte) \<noteq> zero_hash"
proof
  assume "replicate 32 (7 :: byte) = zero_hash"
  then have "hd (replicate 32 (7 :: byte)) = hd zero_hash" by simp
  then show False by (simp add: zero_hash_def HASH_LEN_def)
qed


end
