(* ===== verification/Block_Store.thy ===== *)
theory Block_Store
  imports Block "HOL-Library.Multiset"
begin

text \<open>
  \<open>hotstuff/block_storage/block_store.{h,cc}\<close> and \<open>garbage_collector.{h,cc}\<close>: the map from
  hashes to block objects and the collector that drops the bodies of old blocks. The store never
  removes an entry, so a hash keeps its object for the life of the process; this is what makes
  comparison of blocks by address sound.

  The theory shows that insertion either reports the missing blocks and changes nothing or links the
  block to the cached parent and justify blocks, that the invariant of the store is kept, and that a
  collection drops exactly the bodies below the given height.
\<close>

section \<open>State\<close>

record BlockGarbageCollector =
  hotstuff_height_to_gc :: "nat option"
  gc_list :: "addr list"
  gc_list_buffer :: "addr list"

record BlockStore =
  block_cache :: "hash \<Rightarrow> addr option"
  gc_collector :: BlockGarbageCollector

record MissingDependencies =
  missing_parent :: "hash option"
  missing_justify :: "hash option"

definition has_missing :: "MissingDependencies \<Rightarrow> bool" where
  "has_missing m \<longleftrightarrow> missing_parent m \<noteq> None \<or> missing_justify m \<noteq> None"

section \<open>The collector\<close>

definition new_collector :: BlockGarbageCollector where
  "new_collector = \<lparr>hotstuff_height_to_gc = None, gc_list = [], gc_list_buffer = []\<rparr>"

definition push_buffer_to_gc_list :: "BlockGarbageCollector \<Rightarrow> BlockGarbageCollector" where
  "push_buffer_to_gc_list g = g\<lparr>gc_list := gc_list g @ gc_list_buffer g, gc_list_buffer := []\<rparr>"

definition gc_exists_work_to_do :: "BlockGarbageCollector \<Rightarrow> bool" where
  "gc_exists_work_to_do g \<longleftrightarrow> hotstuff_height_to_gc g \<noteq> None"

text \<open>The loop of \<open>do_gc\<close>: \<open>i\<close> is the iterator; a flushed entry is overwritten by the last one.\<close>

function do_gc_loop :: "nat \<Rightarrow> nat \<Rightarrow> addr list \<Rightarrow> heap \<Rightarrow> addr list \<times> heap" where
  "do_gc_loop hotstuff_height i l hp =
     (if i \<ge> length l then (l, hp)
      else if block_height (hp ! (l ! i)) < hotstuff_height then
        do_gc_loop hotstuff_height i (butlast (l[i := last l]))
          (hp[l ! i := flush_from_memory (hp ! (l ! i))])
      else do_gc_loop hotstuff_height (Suc i) l hp)"
  by pat_completeness auto
termination
  by (relation "measure (\<lambda>(h, i, l, hp). length l - i)") auto

declare do_gc_loop.simps [simp del]

definition do_gc :: "nat \<Rightarrow> BlockGarbageCollector \<Rightarrow> heap \<Rightarrow> BlockGarbageCollector \<times> heap" where
  "do_gc hotstuff_height g hp =
     (let (l, hp') = do_gc_loop hotstuff_height 0 (gc_list g) hp in (g\<lparr>gc_list := l\<rparr>, hp'))"

text \<open>One round of \<open>run\<close> after its wait: nothing when there is no work.\<close>

definition gc_run_step :: "BlockGarbageCollector \<Rightarrow> heap \<Rightarrow> BlockGarbageCollector \<times> heap" where
  "gc_run_step g hp =
     (case hotstuff_height_to_gc g of
        None \<Rightarrow> (g, hp)
      | Some h \<Rightarrow> do_gc h ((push_buffer_to_gc_list g)\<lparr>hotstuff_height_to_gc := None\<rparr>) hp)"

definition invoke_gc :: "nat \<Rightarrow> BlockGarbageCollector \<Rightarrow> BlockGarbageCollector" where
  "invoke_gc h g = g\<lparr>hotstuff_height_to_gc := Some h\<rparr>"

definition gc_add_block :: "addr \<Rightarrow> BlockGarbageCollector \<Rightarrow> BlockGarbageCollector" where
  "gc_add_block a g = g\<lparr>gc_list_buffer := gc_list_buffer g @ [a]\<rparr>"

section \<open>The store\<close>

definition new_block_store :: "addr \<Rightarrow> heap \<Rightarrow> string \<Rightarrow> filesystem \<Rightarrow> (BlockStore \<times> filesystem) result" where
  "new_block_store genesis hp dir d =
     rbind (make_block_folder dir d) (\<lambda>d'.
       Inr (\<lparr>block_cache = [get_hash (hp ! genesis) \<mapsto> genesis], gc_collector = new_collector\<rparr>, d'))"

definition store_write_to_disk ::
    "crypto \<Rightarrow> hash \<Rightarrow> string \<Rightarrow> BlockStore \<Rightarrow> heap \<Rightarrow> filesystem \<Rightarrow> (heap \<times> filesystem) result" where
  "store_write_to_disk cr h dir st hp d =
     (case block_cache st h of
        None \<Rightarrow> Inl (Runtime_error ''could not find block that needs to go to disk!'')
      | Some a \<Rightarrow> block_write_to_disk cr dir a hp d)"

definition insert_block :: "addr \<Rightarrow> BlockStore \<Rightarrow> heap \<Rightarrow> (MissingDependencies \<times> BlockStore \<times> heap) result" where
  "insert_block a st hp =
     (let parent = get_parent_hash (hp ! a) in
      rbind (get_justify_hash (hp ! a)) (\<lambda>justify_hash.
      case (block_cache st parent, block_cache st justify_hash) of
        (Some p, Some j) \<Rightarrow>
          let hp' = set_justify a j (set_parent a p hp);
              h = get_hash (hp ! a);
              cache' = (if block_cache st h = None then (block_cache st)(h \<mapsto> a) else block_cache st)
          in Inr (\<lparr>missing_parent = None, missing_justify = None\<rparr>,
                  st\<lparr>block_cache := cache', gc_collector := gc_add_block a (gc_collector st)\<rparr>, hp')
      | (p, j) \<Rightarrow>
          Inr (\<lparr>missing_parent = (if p = None then Some parent else None),
                missing_justify = (if j = None then Some justify_hash else None)\<rparr>, st, hp)))"

definition get_block :: "hash \<Rightarrow> BlockStore \<Rightarrow> addr option" where
  "get_block h st = block_cache st h"

definition prune_below_height :: "nat \<Rightarrow> BlockStore \<Rightarrow> BlockStore" where
  "prune_below_height prune_height st = st\<lparr>gc_collector := invoke_gc prune_height (gc_collector st)\<rparr>"

section \<open>What a collection drops\<close>

lemma swap_remove_snoc:
  assumes "l = t @ x # r"
  shows "take (length t) (butlast (l[length t := last l])) = t
    \<and> mset (drop (length t) (butlast (l[length t := last l]))) = mset r"
  using assms by (cases r rule: rev_cases) (auto simp: butlast_append list_update_append)

lemma swap_remove:
  assumes "i < length l"
  shows "take i (butlast (l[i := last l])) = take i l"
    and "mset (drop i l) = add_mset (l ! i) (mset (drop i (butlast (l[i := last l]))))"
proof -
  have l: "l = take i l @ l ! i # drop (Suc i) l" and i: "length (take i l) = i"
    using assms by (simp_all add: id_take_nth_drop)
  have r: "mset (drop i l) = add_mset (l ! i) (mset (drop (Suc i) l))"
    using assms by (simp flip: Cons_nth_drop_Suc)
  show "take i (butlast (l[i := last l])) = take i l"
    and "mset (drop i l) = add_mset (l ! i) (mset (drop i (butlast (l[i := last l]))))"
    using swap_remove_snoc[OF l] r unfolding i by simp_all
qed

lemma flush_idem [simp]: "flush_from_memory (flush_from_memory b) = flush_from_memory b"
  by (simp add: flush_from_memory_def)

lemma flush_at_height [simp]:
  "block_height (hp[x := flush_from_memory (hp ! x)] ! y) = block_height (hp ! y)"
  by (cases "x < length hp") (auto simp: nth_list_update not_less list_update_beyond)

lemma flush_at:
  "a < length hp \<Longrightarrow> hp[x := flush_from_memory (hp ! x)] ! a
     = (if a = x then flush_from_memory (hp ! a) else hp ! a)"
  by simp

lemma do_gc_loop_heap:
  assumes "do_gc_loop h i l hp = (l', hp')"
  shows "length hp' = length hp \<and> (\<forall>a < length hp. hp' ! a =
      (if a \<in> set (drop i l) \<and> block_height (hp ! a) < h then flush_from_memory (hp ! a) else hp ! a))"
  using assms
proof (induction h i l hp rule: do_gc_loop.induct)
  case (1 h i l hp)
  show ?case
  proof (cases "i < length l")
    case False
    then show ?thesis using "1.prems" by (simp add: do_gc_loop.simps[of h i l hp])
  next
    case i: True
    show ?thesis
    proof (cases "block_height (hp ! (l ! i)) < h")
      case True
      let ?l = "butlast (l[i := last l])" and ?hp = "hp[l ! i := flush_from_memory (hp ! (l ! i))]"
      have "do_gc_loop h i ?l ?hp = (l', hp')"
        using "1.prems" i True by (simp add: do_gc_loop.simps[of h i l hp])
      from "1.IH"(1)[OF _ True this] i
      have IH: "length hp' = length hp" "\<And>a. a < length hp \<Longrightarrow> hp' ! a =
        (if a \<in> set (drop i ?l) \<and> block_height (?hp ! a) < h then flush_from_memory (?hp ! a) else ?hp ! a)"
        by simp_all
      have "set (drop i l) = insert (l ! i) (set (drop i ?l))"
        using swap_remove(2)[OF i] by (metis set_mset_add_mset_insert set_mset_mset)
      then show ?thesis using IH True by (auto simp: flush_at)
    next
      case False
      then have "do_gc_loop h (Suc i) l hp = (l', hp')"
        using "1.prems" i by (simp add: do_gc_loop.simps[of h i l hp])
      from "1.IH"(2)[OF _ False this] i
      have IH: "length hp' = length hp" "\<And>a. a < length hp \<Longrightarrow> hp' ! a =
        (if a \<in> set (drop (Suc i) l) \<and> block_height (hp ! a) < h then flush_from_memory (hp ! a) else hp ! a)"
        by simp_all
      have "set (drop i l) = insert (l ! i) (set (drop (Suc i) l))"
        using i by (metis Cons_nth_drop_Suc list.simps(15))
      then show ?thesis using IH False by auto
    qed
  qed
qed

lemma do_gc_loop_list:
  assumes "do_gc_loop h i l hp = (l', hp')" and "i \<le> length l"
  shows "take i l' = take i l \<and>
    mset (drop i l') = filter_mset (\<lambda>a. h \<le> block_height (hp ! a)) (mset (drop i l))"
  using assms
proof (induction h i l hp rule: do_gc_loop.induct)
  case (1 h i l hp)
  show ?case
  proof (cases "i < length l")
    case False
    then have "l' = l" using "1.prems"(1) by (simp add: do_gc_loop.simps[of h i l hp])
    then show ?thesis using False by simp
  next
    case i: True
    show ?thesis
    proof (cases "block_height (hp ! (l ! i)) < h")
      case True
      let ?l = "butlast (l[i := last l])" and ?hp = "hp[l ! i := flush_from_memory (hp ! (l ! i))]"
      have "do_gc_loop h i ?l ?hp = (l', hp')"
        using "1.prems" i True by (simp add: do_gc_loop.simps[of h i l hp])
      from "1.IH"(1)[OF _ True this] i swap_remove[OF i] True show ?thesis
        by simp
    next
      case False
      then have "do_gc_loop h (Suc i) l hp = (l', hp')"
        using "1.prems" i by (simp add: do_gc_loop.simps[of h i l hp])
      from "1.IH"(2)[OF _ False this] i have IH: "take (Suc i) l' = take (Suc i) l"
        "mset (drop (Suc i) l') = filter_mset (\<lambda>a. h \<le> block_height (hp ! a)) (mset (drop (Suc i) l))"
        by simp_all
      have len: "i < length l'" using IH(1) i by (metis leI length_take min_less_iff_conj not_less_eq_eq lessI le_trans nless_le take_all)
      have "take i l' = take i l" "l' ! i = l ! i"
        using IH(1) by (metis lessI min.absorb1 nat_le_linear not_less_eq_eq take_take, metis IH(1) lessI nth_take)
      moreover have "mset (drop i l') = add_mset (l' ! i) (mset (drop (Suc i) l'))"
        "mset (drop i l) = add_mset (l ! i) (mset (drop (Suc i) l))"
        using len i by (metis Cons_nth_drop_Suc mset.simps(2))+
      ultimately show ?thesis using IH(2) False by simp
    qed
  qed
qed

lemma gc_run_step_heap:
  assumes "gc_run_step g hp = (g', hp')" and "a < length hp"
  shows "hp' ! a = hp ! a \<or> hp' ! a = flush_from_memory (hp ! a)"
proof (cases "hotstuff_height_to_gc g")
  case None
  then show ?thesis using assms(1) by (simp add: gc_run_step_def)
next
  case (Some h)
  then obtain l i where "do_gc_loop h 0 i hp = (l, hp')"
    using assms(1) by (auto simp: gc_run_step_def do_gc_def Let_def split: prod.splits)
  from do_gc_loop_heap[OF this] assms(2) show ?thesis by auto
qed

section \<open>Invariant of the store\<close>

text \<open>
  What the links of a block depend on: its header and certificate, its hash, its height and its two
  pointers. All operations except allocation and insertion leave this view of the heap alone.
\<close>

type_synonym block_view =
  "HotstuffBlockHeader \<times> QuorumCertificate option \<times> hash \<times> nat \<times> addr option \<times> addr option"

definition block_view :: "HotstuffBlock \<Rightarrow> block_view" where
  "block_view b = (header (wire_block b), parsed_qc b, get_hash b, block_height b,
     parent_block_ptr b, justify_block_ptr b)"

definition heap_view :: "heap \<Rightarrow> block_view list" where
  "heap_view hp = map block_view hp"

lemma heap_view_length: "heap_view hp' = heap_view hp \<Longrightarrow> length hp' = length hp"
  by (metis heap_view_def length_map)

lemma heap_view_fields:
  assumes "heap_view hp' = heap_view hp" and "a < length hp"
  shows "header (wire_block (hp' ! a)) = header (wire_block (hp ! a))"
    and "parsed_qc (hp' ! a) = parsed_qc (hp ! a)" and "get_hash (hp' ! a) = get_hash (hp ! a)"
    and "block_height (hp' ! a) = block_height (hp ! a)"
    and "parent_block_ptr (hp' ! a) = parent_block_ptr (hp ! a)"
    and "justify_block_ptr (hp' ! a) = justify_block_ptr (hp ! a)"
proof -
  have "block_view (hp' ! a) = block_view (hp ! a)"
    using assms heap_view_length[OF assms(1)] unfolding heap_view_def by (metis nth_map)
  then show "header (wire_block (hp' ! a)) = header (wire_block (hp ! a))"
    and "parsed_qc (hp' ! a) = parsed_qc (hp ! a)" and "get_hash (hp' ! a) = get_hash (hp ! a)"
    and "block_height (hp' ! a) = block_height (hp ! a)"
    and "parent_block_ptr (hp' ! a) = parent_block_ptr (hp ! a)"
    and "justify_block_ptr (hp' ! a) = justify_block_ptr (hp ! a)"
    by (simp_all add: block_view_def)
qed

lemma heap_view_update:
  "block_view b = block_view (hp ! a) \<Longrightarrow> heap_view (hp[a := b]) = heap_view hp"
  unfolding heap_view_def
  by (cases "a < length hp") (simp_all add: map_update list_update_same_conv list_update_beyond)

lemma heap_view_write:
  "block_write_to_disk cr dir a hp d = Inr (hp', d') \<Longrightarrow> heap_view hp' = heap_view hp"
  unfolding heap_view_def
  using block_write_to_disk_frame[of cr dir a hp d hp' d'] unwritten_length[of hp' hp]
    unwritten_fields[of hp' hp]
  by (auto simp: list_eq_iff_nth_eq block_view_def)

lemma heap_view_gc: "do_gc h g hp = (g', hp') \<Longrightarrow> heap_view hp' = heap_view hp"
proof -
  assume gc: "do_gc h g hp = (g', hp')"
  obtain l where l: "do_gc_loop h 0 (gc_list g) hp = (l, hp')"
    using gc by (auto simp: do_gc_def Let_def split: prod.splits)
  have v: "block_view (flush_from_memory b) = block_view b" for b by (simp add: block_view_def)
  from do_gc_loop_heap[OF l] have "length hp' = length hp"
    and "\<And>a. a < length hp \<Longrightarrow> block_view (hp' ! a) = block_view (hp ! a)" by (simp_all add: v)
  then show ?thesis unfolding heap_view_def by (intro nth_equalityI) simp_all
qed

lemma heap_view_gc_run: "gc_run_step g hp = (g', hp') \<Longrightarrow> heap_view hp' = heap_view hp"
  by (auto simp: gc_run_step_def split: option.splits dest: heap_view_gc)

text \<open>A block that went through insertion: its pointers are the cached objects of its two hashes.\<close>

definition linked :: "(hash \<Rightarrow> addr option) \<Rightarrow> heap \<Rightarrow> addr \<Rightarrow> bool" where
  "linked cache hp a \<longleftrightarrow> (\<exists>p j qc. a < length hp
     \<and> parent_block_ptr (hp ! a) = Some p \<and> cache (get_parent_hash (hp ! a)) = Some p
     \<and> parsed_qc (hp ! a) = Some qc
     \<and> justify_block_ptr (hp ! a) = Some j \<and> cache (obj_hash qc) = Some j
     \<and> block_height (hp ! a) = Suc (block_height (hp ! p)))"

definition is_genesis :: "heap \<Rightarrow> addr \<Rightarrow> bool" where
  "is_genesis hp g \<longleftrightarrow> g < length hp \<and> get_hash (hp ! g) = zero_hash \<and> block_height (hp ! g) = 0
     \<and> parsed_qc (hp ! g) = None
     \<and> parent_block_ptr (hp ! g) = None \<and> justify_block_ptr (hp ! g) = None"

definition store_ok :: "addr \<Rightarrow> BlockStore \<Rightarrow> heap \<Rightarrow> bool" where
  "store_ok g st hp \<longleftrightarrow> is_genesis hp g \<and> block_cache st zero_hash = Some g
     \<and> (\<forall>h a. block_cache st h = Some a \<longrightarrow> a < length hp \<and> get_hash (hp ! a) = h
          \<and> (a = g \<or> linked (block_cache st) hp a))"

lemma store_okD:
  assumes "store_ok g st hp" and "block_cache st h = Some a"
  shows "a < length hp" and "get_hash (hp ! a) = h" and "a \<noteq> g \<Longrightarrow> linked (block_cache st) hp a"
proof -
  have "\<forall>h a. block_cache st h = Some a \<longrightarrow> a < length hp \<and> get_hash (hp ! a) = h
      \<and> (a = g \<or> linked (block_cache st) hp a)"
    using assms(1) unfolding store_ok_def by (elim conjE)
  from this[rule_format, OF assms(2)] show "a < length hp" and "get_hash (hp ! a) = h"
    and "a \<noteq> g \<Longrightarrow> linked (block_cache st) hp a" by auto
qed

lemma store_ok_genesis:
  assumes "store_ok g st hp"
  shows "is_genesis hp g" and "block_cache st zero_hash = Some g"
  using assms by (simp_all add: store_ok_def)

lemma linkedE:
  assumes "linked cache hp a"
  obtains p j qc where "a < length hp" and "parent_block_ptr (hp ! a) = Some p"
    and "cache (get_parent_hash (hp ! a)) = Some p" and "parsed_qc (hp ! a) = Some qc"
    and "justify_block_ptr (hp ! a) = Some j" and "cache (obj_hash qc) = Some j"
    and "block_height (hp ! a) = Suc (block_height (hp ! p))"
  using assms unfolding linked_def by blast

lemma get_parent_hash_view: "heap_view hp' = heap_view hp \<Longrightarrow> a < length hp \<Longrightarrow>
    get_parent_hash (hp' ! a) = get_parent_hash (hp ! a)"
  using heap_view_fields(1)[of hp' hp a] by (simp add: get_parent_hash_def)

lemma linked_view:
  assumes "heap_view hp' = heap_view hp" and "linked cache hp a"
    and "\<forall>h p. cache h = Some p \<longrightarrow> p < length hp"
  shows "linked cache hp' a"
proof -
  note f = heap_view_fields[OF assms(1)] get_parent_hash_view[OF assms(1)]
  from assms(2) show ?thesis
  proof (rule linkedE)
    fix p j qc
    assume l: "a < length hp" "parent_block_ptr (hp ! a) = Some p"
      "cache (get_parent_hash (hp ! a)) = Some p" "parsed_qc (hp ! a) = Some qc"
      "justify_block_ptr (hp ! a) = Some j" "cache (obj_hash qc) = Some j"
      "block_height (hp ! a) = Suc (block_height (hp ! p))"
    have "p < length hp" using assms(3) l(3) by blast
    then show ?thesis unfolding linked_def using l f heap_view_length[OF assms(1)] by simp
  qed
qed

lemma store_ok_view:
  assumes "heap_view hp' = heap_view hp" and "store_ok g st hp"
  shows "store_ok g st hp'"
proof -
  note f = heap_view_fields[OF assms(1)] and len = heap_view_length[OF assms(1)]
  have r: "\<forall>h p. block_cache st h = Some p \<longrightarrow> p < length hp" using store_okD(1)[OF assms(2)] by blast
  have "is_genesis hp' g" using store_ok_genesis(1)[OF assms(2)] f len by (simp add: is_genesis_def)
  moreover have "a < length hp' \<and> get_hash (hp' ! a) = h \<and> (a = g \<or> linked (block_cache st) hp' a)"
    if "block_cache st h = Some a" for h a
    using store_okD[OF assms(2) that] f(3) len linked_view[OF assms(1) _ r, of a] by auto
  ultimately show ?thesis using store_ok_genesis(2)[OF assms(2)] unfolding store_ok_def by simp
qed

section \<open>Insertion\<close>

text \<open>The no-op branch: exactly the hashes that are not cached are reported.\<close>

lemma insert_block_no_qc: "parsed_qc (hp ! a) = None \<Longrightarrow> \<exists>e. insert_block a st hp = Inl e"
  by (simp add: insert_block_def Let_def get_justify_hash_def get_justify_qc_def)

lemma insert_block_linked:
  assumes "parsed_qc (hp ! a) = Some qc" and "block_cache st (get_parent_hash (hp ! a)) = Some p"
    and "block_cache st (obj_hash qc) = Some j"
  shows "insert_block a st hp =
    Inr (\<lparr>missing_parent = None, missing_justify = None\<rparr>,
      st\<lparr>block_cache := (if block_cache st (get_hash (hp ! a)) = None
           then (block_cache st)(get_hash (hp ! a) \<mapsto> a) else block_cache st),
         gc_collector := gc_add_block a (gc_collector st)\<rparr>,
      set_justify a j (set_parent a p hp))"
  using assms by (simp add: insert_block_def Let_def get_justify_hash_def get_justify_qc_def)

lemma insert_block_absent:
  assumes "parsed_qc (hp ! a) = Some qc"
    and "block_cache st (get_parent_hash (hp ! a)) = None \<or> block_cache st (obj_hash qc) = None"
  shows "insert_block a st hp =
    Inr (\<lparr>missing_parent = (if block_cache st (get_parent_hash (hp ! a)) = None
             then Some (get_parent_hash (hp ! a)) else None),
          missing_justify = (if block_cache st (obj_hash qc) = None then Some (obj_hash qc) else None)\<rparr>,
         st, hp)"
  using assms
  by (cases "block_cache st (get_parent_hash (hp ! a))"; cases "block_cache st (obj_hash qc)")
    (simp_all add: insert_block_def Let_def get_justify_hash_def get_justify_qc_def)

lemma insert_block_missing:
  assumes "insert_block a st hp = Inr (m, st', hp')" and "has_missing m"
  shows "st' = st \<and> hp' = hp"
proof (cases "parsed_qc (hp ! a)")
  case None
  then show ?thesis using insert_block_no_qc[of hp a st] assms(1) by simp
next
  case (Some qc)
  show ?thesis
  proof (cases "block_cache st (get_parent_hash (hp ! a)) = None \<or> block_cache st (obj_hash qc) = None")
    case True
    then show ?thesis using insert_block_absent[OF Some True] assms(1) by simp
  next
    case False
    then obtain p j where pj: "block_cache st (get_parent_hash (hp ! a)) = Some p"
      "block_cache st (obj_hash qc) = Some j" by auto
    have "m = \<lparr>missing_parent = None, missing_justify = None\<rparr>"
      using assms(1) unfolding insert_block_linked[OF Some pj] by simp
    then show ?thesis using assms(2) by (simp add: has_missing_def)
  qed
qed

lemma insert_block_done:
  assumes "insert_block a st hp = Inr (m, st', hp')" and "\<not> has_missing m"
  obtains p j qc where "parsed_qc (hp ! a) = Some qc"
    and "block_cache st (get_parent_hash (hp ! a)) = Some p" and "block_cache st (obj_hash qc) = Some j"
    and "hp' = set_justify a j (set_parent a p hp)"
    and "st' = st\<lparr>block_cache := (if block_cache st (get_hash (hp ! a)) = None
           then (block_cache st)(get_hash (hp ! a) \<mapsto> a) else block_cache st),
         gc_collector := gc_add_block a (gc_collector st)\<rparr>"
proof (cases "parsed_qc (hp ! a)")
  case None
  then show ?thesis using insert_block_no_qc[of hp a st] assms(1) by simp
next
  case (Some qc)
  show ?thesis
  proof (cases "block_cache st (get_parent_hash (hp ! a)) = None \<or> block_cache st (obj_hash qc) = None")
    case True
    then have "has_missing m" using insert_block_absent[OF Some True] assms(1)
      by (auto simp: has_missing_def)
    then show ?thesis using assms(2) by simp
  next
    case False
    then obtain p j where pj: "block_cache st (get_parent_hash (hp ! a)) = Some p"
      "block_cache st (obj_hash qc) = Some j" by auto
    show ?thesis
      by (rule that[OF Some pj]) (use assms(1) in \<open>simp_all only: insert_block_linked[OF Some pj] sum.inject prod.inject\<close>)
  qed
qed

definition link_block :: "addr \<Rightarrow> addr \<Rightarrow> addr \<Rightarrow> heap \<Rightarrow> heap" where
  "link_block a p j hp = set_justify a j (set_parent a p hp)"

lemma link_block_other [simp]: "x \<noteq> a \<Longrightarrow> link_block a p j hp ! x = hp ! x"
  by (simp add: link_block_def set_justify_def set_parent_def)

lemma link_block_length [simp]: "length (link_block a p j hp) = length hp"
  by (simp add: link_block_def set_justify_def set_parent_def)

lemma link_block_self:
  "a < length hp \<Longrightarrow> link_block a p j hp ! a = (hp ! a)\<lparr>parent_block_ptr := Some p,
     block_height := u64 (block_height (hp ! p) + 1), justify_block_ptr := Some j\<rparr>"
  by (simp add: link_block_def set_justify_def set_parent_def)

lemma link_block_fields:
  assumes "x < length hp"
  shows "get_hash (link_block a p j hp ! x) = get_hash (hp ! x)"
    and "get_parent_hash (link_block a p j hp ! x) = get_parent_hash (hp ! x)"
    and "parsed_qc (link_block a p j hp ! x) = parsed_qc (hp ! x)"
    and "wire_block (link_block a p j hp ! x) = wire_block (hp ! x)"
    and "decided (link_block a p j hp ! x) = decided (hp ! x)"
    and "self_qc (link_block a p j hp ! x) = self_qc (hp ! x)"
  using assms by (cases "x = a"; simp add: link_block_self get_hash_def get_parent_hash_def)+

text \<open>Linking an object a second time changes nothing.\<close>

lemma link_block_again:
  assumes "linked cache hp a" and "cache (get_parent_hash (hp ! a)) = Some p"
    and "parsed_qc (hp ! a) = Some qc" and "cache (obj_hash qc) = Some j"
    and "block_height (hp ! p) + 1 < 18446744073709551616"
  shows "link_block a p j hp = hp"
proof -
  from assms(1) have a: "a < length hp" "parent_block_ptr (hp ! a) = Some p"
    "justify_block_ptr (hp ! a) = Some j" "block_height (hp ! a) = Suc (block_height (hp ! p))"
    using assms(2-4) by (auto elim!: linkedE)
  have "(hp ! a)\<lparr>parent_block_ptr := Some p, block_height := u64 (block_height (hp ! p) + 1),
      justify_block_ptr := Some j\<rparr> = hp ! a"
    using a(2-4) assms(5) by simp
  then show ?thesis
    using link_block_self[OF a(1), of p j] by (intro nth_equalityI) (simp, metis link_block_other)
qed

lemma linked_link_block:
  assumes "a < length hp" and "cache (get_parent_hash (hp ! a)) = Some p" and "p \<noteq> a"
    and "parsed_qc (hp ! a) = Some qc" and "cache (obj_hash qc) = Some j"
    and "block_height (hp ! p) + 1 < 18446744073709551616"
  shows "linked cache (link_block a p j hp) a"
  using assms unfolding linked_def
  by (simp add: link_block_self get_parent_hash_def)

lemma linked_link_other:
  assumes "linked cache hp x" and "x \<noteq> a" and "\<forall>h. cache h \<noteq> Some a"
  shows "linked cache (link_block a p j hp) x"
  using assms(1)
proof (rule linkedE)
  fix p' j' qc
  assume l: "x < length hp" "parent_block_ptr (hp ! x) = Some p'"
    "cache (get_parent_hash (hp ! x)) = Some p'" "parsed_qc (hp ! x) = Some qc"
    "justify_block_ptr (hp ! x) = Some j'" "cache (obj_hash qc) = Some j'"
    "block_height (hp ! x) = Suc (block_height (hp ! p'))"
  have "p' \<noteq> a" using assms(3) l(3) by auto
  then show ?thesis using l assms(2) by (simp add: linked_def)
qed

lemma linked_mono:
  "linked cache hp x \<Longrightarrow> cache \<subseteq>\<^sub>m cache' \<Longrightarrow> linked cache' hp x"
  unfolding linked_def map_le_def by (metis domI)

lemma linked_append: "linked cache hp x \<Longrightarrow> \<forall>h p. cache h = Some p \<longrightarrow> p < length hp \<Longrightarrow>
    linked cache (hp @ bs) x"
  unfolding linked_def by (elim exE conjE) (auto simp: nth_append)

lemma store_ok_alloc:
  assumes "store_ok g st hp"
  shows "store_ok g st (hp @ [b])"
proof -
  have r: "\<forall>h p. block_cache st h = Some p \<longrightarrow> p < length hp" using store_okD(1)[OF assms] by blast
  have "is_genesis (hp @ [b]) g" using store_ok_genesis(1)[OF assms] by (simp add: is_genesis_def nth_append)
  moreover have "a < length (hp @ [b]) \<and> get_hash ((hp @ [b]) ! a) = h
      \<and> (a = g \<or> linked (block_cache st) (hp @ [b]) a)" if "block_cache st h = Some a" for h a
    using store_okD[OF assms that] linked_append[OF _ r, of a "[b]"] by (auto simp: nth_append)
  ultimately show ?thesis using store_ok_genesis(2)[OF assms] unfolding store_ok_def by simp
qed

text \<open>
  Insertion keeps the invariant, grows the cache, links the new object and leaves every linked object
  linked, as long as heights stay below the range of \<open>uint64_t\<close>.
\<close>

definition heights_below :: "nat \<Rightarrow> heap \<Rightarrow> bool" where
  "heights_below n hp \<longleftrightarrow> (\<forall>b \<in> set hp. block_height b < n)"

lemma heights_belowD: "heights_below n hp \<Longrightarrow> a < length hp \<Longrightarrow> block_height (hp ! a) < n"
  by (simp add: heights_below_def)

lemma insert_block_ok:
  assumes "insert_block a st hp = Inr (m, st', hp')" and "\<not> has_missing m"
    and ok: "store_ok g st hp" and a: "a < length hp" and ht: "heights_below 18446744073709551615 hp"
  shows "store_ok g st' hp'" and "block_cache st \<subseteq>\<^sub>m block_cache st'"
    and "linked (block_cache st') hp' a"
    and "linked (block_cache st) hp x \<Longrightarrow> linked (block_cache st') hp' x"
    and "\<exists>x. block_cache st' (get_hash (hp ! a)) = Some x"
    and "length hp' = length hp" and "x \<noteq> a \<Longrightarrow> hp' ! x = hp ! x"
    and "linked (block_cache st) hp a \<Longrightarrow> hp' = hp"
proof -
  from assms(1,2) obtain p j qc where qc: "parsed_qc (hp ! a) = Some qc"
    and p: "block_cache st (get_parent_hash (hp ! a)) = Some p"
    and j: "block_cache st (obj_hash qc) = Some j" and hp': "hp' = link_block a p j hp"
    and st': "st' = st\<lparr>block_cache := (if block_cache st (get_hash (hp ! a)) = None
           then (block_cache st)(get_hash (hp ! a) \<mapsto> a) else block_cache st),
         gc_collector := gc_add_block a (gc_collector st)\<rparr>"
    unfolding link_block_def by (rule insert_block_done)
  let ?c = "block_cache st" and ?c' = "block_cache st'"
  show le: "?c \<subseteq>\<^sub>m ?c'" using st' by (auto simp: map_le_def)
  show in': "\<exists>x. ?c' (get_hash (hp ! a)) = Some x" using st' by auto
  show "length hp' = length hp" and "x \<noteq> a \<Longrightarrow> hp' ! x = hp ! x" using hp' by simp_all
  have pl: "p < length hp" "block_height (hp ! p) + 1 < 18446744073709551616"
    using store_okD(1)[OF ok p] heights_belowD[OF ht, of p] by auto
  show again: "linked ?c hp a \<Longrightarrow> hp' = hp" using link_block_again[OF _ p qc j pl(2)] hp' by simp
  have ag: "a \<noteq> g" using qc store_ok_genesis(1)[OF ok] by (auto simp: is_genesis_def)
  have old: "linked ?c hp' x" if "linked ?c hp x" for x
  proof (cases "\<exists>h. ?c h = Some a")
    case True
    then have "linked ?c hp a" using store_okD(3)[OF ok] ag by blast
    then show ?thesis using that again by simp
  next
    case False
    then have "p \<noteq> a" using p by auto
    then show ?thesis
      using linked_link_other[OF that] linked_link_block[of a hp ?c p qc j, OF a p _ qc j pl(2)] False hp'
      by (cases "x = a") auto
  qed
  show new: "linked ?c' hp' x" if "linked ?c hp x" for x
    using linked_mono[OF old[OF that] le] .
  show la: "linked ?c' hp' a"
  proof (cases "\<exists>h. ?c h = Some a")
    case True
    then show ?thesis using store_okD(3)[OF ok] ag new by blast
  next
    case False
    then have "p \<noteq> a" using p by auto
    then show ?thesis
      using linked_mono[OF linked_link_block[of a hp ?c p qc j, OF a p _ qc j pl(2)] le] hp' by simp
  qed
  show "store_ok g st' hp'" unfolding store_ok_def
  proof (intro conjI allI impI)
    show "is_genesis hp' g" using store_ok_genesis(1)[OF ok] ag hp' by (simp add: is_genesis_def)
    show "?c' zero_hash = Some g" using store_ok_genesis(2)[OF ok] le by (metis domI map_le_def)
    fix h x assume x: "?c' h = Some x"
    have "?c h = Some x \<or> (x = a \<and> h = get_hash (hp ! a))"
      using x st' by (auto split: if_splits)
    then show "x < length hp'" "get_hash (hp' ! x) = h" "x = g \<or> linked ?c' hp' x"
      using store_okD[OF ok, of h x] a la new hp' by (auto simp: link_block_fields)
  qed
qed

section \<open>Claims\<close>

text \<open>C18: inserting a block whose parent and justification are known keeps the store a tree over the genesis
block (every stored block is linked to stored blocks, one level above its parent) and forgets nothing.\<close>

theorem insert_keeps_block_tree:
  assumes "insert_block a st hp = Inr (m, st', hp')" and "\<not> has_missing m"
    and "store_ok g st hp" and "a < length hp" and "heights_below 18446744073709551615 hp"
  shows "store_ok g st' hp' \<and> block_cache st \<subseteq>\<^sub>m block_cache st' \<and> linked (block_cache st') hp' a"
  using insert_block_ok(1,2,3)[OF assms] by blast

definition loose_block :: HotstuffBlock where
  "loose_block = sample_block\<lparr>parent_block_ptr := None, justify_block_ptr := None, block_height := 0\<rparr>"

definition genesis_store :: BlockStore where
  "genesis_store = \<lparr>block_cache = [zero_hash \<mapsto> 0], gc_collector = new_collector\<rparr>"

lemma genesis_store_ok: "store_ok 0 genesis_store [genesis_block, loose_block]"
  by (auto simp: store_ok_def is_genesis_def genesis_store_def genesis_block_def get_hash_def new_qc_def)

theorem insert_keeps_block_tree_witness:
  "\<exists>m st' hp'. insert_block 1 genesis_store [genesis_block, loose_block] = Inr (m, st', hp')
     \<and> store_ok 0 st' hp' \<and> linked (block_cache st') hp' 1"
proof -
  have ph: "get_parent_hash loose_block = zero_hash" "get_justify_hash loose_block = Inr zero_hash"
    by (simp_all add: loose_block_def sample_block_def get_parent_hash_def sample_wire_def get_justify_hash_def
        get_justify_qc_def new_qc_def)
  let ?m = "\<lparr>missing_parent = None, missing_justify = None\<rparr>"
  obtain st' hp' where i: "insert_block 1 genesis_store [genesis_block, loose_block] = Inr (?m, st', hp')"
    using ph by (simp add: insert_block_def genesis_store_def Let_def)
  have nm: "\<not> has_missing ?m" by (simp add: has_missing_def)
  have "heights_below 18446744073709551615 [genesis_block, loose_block]"
    by (simp add: heights_below_def genesis_block_def loose_block_def less_Suc_eq)
  then have "store_ok 0 st' hp' \<and> linked (block_cache st') hp' 1"
    using insert_keeps_block_tree[OF i nm genesis_store_ok] by simp
  then show ?thesis using i by blast
qed

text \<open>C33: a collection at height \<open>h\<close> drops the bodies of exactly the listed blocks below \<open>h\<close> and takes
exactly those off the list, although the loop swaps elements while it walks.\<close>

theorem collection_is_exact:
  "case do_gc_loop h 0 l hp of (l', hp') \<Rightarrow>
     mset l' = filter_mset (\<lambda>a. h \<le> block_height (hp ! a)) (mset l)
     \<and> hp' = map (\<lambda>a. if a \<in> set l \<and> block_height (hp ! a) < h then flush_from_memory (hp ! a) else hp ! a) [0..<length hp]"
proof -
  obtain l' hp' where r: "do_gc_loop h 0 l hp = (l', hp')" by fastforce
  have "hp' = map (\<lambda>a. if a \<in> set l \<and> block_height (hp ! a) < h then flush_from_memory (hp ! a) else hp ! a) [0..<length hp]"
    using do_gc_loop_heap[OF r] by (intro nth_equalityI) auto
  then show ?thesis using do_gc_loop_list[OF r] r by simp
qed

end
