(* ===== verification/Consensus.thy ===== *)
theory Consensus
  imports Block_Store
begin

text \<open>
  \<open>hotstuff/consensus.{h,cc}\<close>: the state and the handlers of \<open>HotstuffCore\<close>. The virtual
  methods a subclass provides are the fields of \<open>callbacks\<close>, over the state of the subclass; the
  decided-block index is used through \<open>index_ops\<close>. The state record is extensible, as the class is.

  The two walks along parent pointers take as fuel one more than the height they start from. The
  locale \<open>core_callbacks\<close> states what the callbacks may not touch; inside it the frame of every
  handler is shown.
\<close>

section \<open>State\<close>

record 'd core =
  blk_heap :: heap
  genesis :: addr
  hqc_block :: addr
  hqc_wire :: QuorumCertificateWire
  b_lock :: addr
  b_exec :: addr
  vheight :: nat
  self_id :: replica_id
  config :: ReplicaConfig
  b_leaf :: addr
  decided_hash_index :: 'd
  disk :: filesystem

record ('t, 's) callbacks =
  do_vote :: "addr \<Rightarrow> replica_id \<Rightarrow> 's \<Rightarrow> 's result"
  on_new_qc :: "hash \<Rightarrow> 's \<Rightarrow> 's result"
  apply_block :: "addr \<Rightarrow> 't \<Rightarrow> 's \<Rightarrow> ('t \<times> 's) result"
  notify_vm_of_commitment :: "addr \<Rightarrow> 's \<Rightarrow> 's result"
  notify_vm_of_qc_on_nonself_block :: "addr \<Rightarrow> 's \<Rightarrow> 's result"
  notify_ok_to_prune_blocks :: "nat \<Rightarrow> 's \<Rightarrow> 's result"
  find_block_by_hash :: "hash \<Rightarrow> 's \<Rightarrow> addr result"

record ('d, 't) index_ops =
  open_txn :: "'d \<Rightarrow> 't result"
  txn_add_decided_block :: "HotstuffBlock \<Rightarrow> bytes \<Rightarrow> 't \<Rightarrow> 't result"
  set_qc_on_top_block :: "QuorumCertificate \<Rightarrow> 't \<Rightarrow> 't result"
  commit_txn :: "'t \<Rightarrow> 'd \<Rightarrow> 'd result"
  get_highest_qc :: "'d \<Rightarrow> QuorumCertificateWire result"

text \<open>The object at an address, and its height.\<close>

abbreviation blk :: "('d, 'x) core_scheme \<Rightarrow> addr \<Rightarrow> HotstuffBlock" where
  "blk s a \<equiv> blk_heap s ! a"

abbreviation height_of :: "('d, 'x) core_scheme \<Rightarrow> addr \<Rightarrow> nat" where
  "height_of s a \<equiv> block_height (blk s a)"

definition new_core :: "ReplicaConfig \<Rightarrow> replica_id \<Rightarrow> (string \<Rightarrow> 'd result) \<Rightarrow> filesystem \<Rightarrow> 'd core result" where
  "new_core cfg self open_index d =
     rbind (get_info cfg self) (\<lambda>info.
     rbind (open_index (get_data_dir info)) (\<lambda>ix.
     Inr \<lparr>blk_heap = [genesis_block], genesis = 0,
          hqc_block = 0, hqc_wire = qc_serialize (self_qc genesis_block),
          b_lock = 0, b_exec = 0, vheight = 0, self_id = self, config = cfg, b_leaf = 0,
          decided_hash_index = ix, disk = d\<rparr>))"

section \<open>Handlers\<close>

definition update_hqc ::
    "('t, ('d, 'x) core_scheme) callbacks \<Rightarrow> addr \<Rightarrow> QuorumCertificate
     \<Rightarrow> ('d, 'x) core_scheme \<Rightarrow> ('d, 'x) core_scheme result" where
  "update_hqc cb qc_block qc s =
     (if height_of s qc_block > height_of s (hqc_block s) then
        let s = s\<lparr>hqc_block := qc_block, hqc_wire := qc_serialize qc, b_leaf := qc_block\<rparr> in
        if blk_proposer (blk s (b_leaf s)) \<noteq> self_id s
        then notify_vm_of_qc_on_nonself_block cb qc_block s
        else Inr s
      else Inr s)"

text \<open>
  The loop \<open>for (b = start; b->get_height() > bound; b = b->get_parent())\<close>: the blocks it visits
  and the block it ends at.
\<close>

fun walk_down :: "nat \<Rightarrow> heap \<Rightarrow> nat \<Rightarrow> addr \<Rightarrow> (addr list \<times> addr) result" where
  "walk_down 0 hp bound b = Inl Out_of_fuel"
| "walk_down (Suc fuel) hp bound b =
     (if block_height (hp ! b) > bound then
        rbind (deref (parent_block_ptr (hp ! b))) (\<lambda>p.
        rbind (walk_down fuel hp bound p) (\<lambda>(visited, e). Inr (b # visited, e)))
      else Inr ([], b))"

text \<open>The body of the commit loop, for one block of the queue.\<close>

definition commit_one ::
    "('t, ('d, 'x) core_scheme) callbacks \<Rightarrow> addr \<Rightarrow> 't \<times> ('d, 'x) core_scheme
     \<Rightarrow> ('t \<times> ('d, 'x) core_scheme) result" where
  "commit_one cb b = (\<lambda>(txn, s).
     let s = s\<lparr>blk_heap := (blk_heap s)[b := decide (blk s b)]\<rparr> in
     rbind (apply_block cb b txn s) (\<lambda>(txn, s).
     rbind (notify_vm_of_commitment cb b s) (\<lambda>s. Inr (txn, s))))"

text \<open>The part of \<open>update\<close> that follows the three-chain test.\<close>

definition commit_chain ::
    "('d, 't) index_ops \<Rightarrow> ('t, ('d, 'x) core_scheme) callbacks \<Rightarrow> addr \<Rightarrow> addr
     \<Rightarrow> ('d, 'x) core_scheme \<Rightarrow> ('d, 'x) core_scheme result" where
  "commit_chain ix cb b0 b1 s =
     rbind (walk_down (Suc (height_of s b0)) (blk_heap s) (height_of s (b_exec s)) b0) (\<lambda>(commit_queue, b).
     if b \<noteq> b_exec s then Inl (Runtime_error ''safety breached'')
     else
       rbind (open_txn ix (decided_hash_index s)) (\<lambda>txn.
       rbind (rfold (commit_one cb) (rev commit_queue) (txn, s)) (\<lambda>(txn, s).
       let s = s\<lparr>b_exec := b0\<rparr> in
       rbind (get_justify_qc (blk s b1)) (\<lambda>qc.
       rbind (set_qc_on_top_block ix qc txn) (\<lambda>txn.
       rbind (commit_txn ix txn (decided_hash_index s)) (\<lambda>index.
       let s = s\<lparr>decided_hash_index := index\<rparr> in
       notify_ok_to_prune_blocks cb (height_of s (b_exec s)) s))))))"

definition lock_and_persist ::
    "crypto \<Rightarrow> addr \<Rightarrow> ('d, 'x) core_scheme \<Rightarrow> ('d, 'x) core_scheme result" where
  "lock_and_persist cr blk1 s =
     (let s = (if height_of s blk1 > height_of s (b_lock s) then s\<lparr>b_lock := blk1\<rparr> else s) in
      rbind (get_info (config s) (self_id s)) (\<lambda>info.
      rbind (block_write_to_disk cr (get_data_dir info) (b_lock s) (blk_heap s) (disk s)) (\<lambda>(hp, d).
      Inr (s\<lparr>blk_heap := hp, disk := d\<rparr>))))"

definition update ::
    "crypto \<Rightarrow> ('d, 't) index_ops \<Rightarrow> ('t, ('d, 'x) core_scheme) callbacks \<Rightarrow> addr
     \<Rightarrow> ('d, 'x) core_scheme \<Rightarrow> ('d, 'x) core_scheme result" where
  "update cr ix cb nblk s =
     (case justify_block_ptr (blk s nblk) of None \<Rightarrow> Inr s | Some blk2 \<Rightarrow>
      if decided (blk s blk2) then Inr s else
      rbind (get_justify_qc (blk s nblk)) (\<lambda>qc.
      rbind (update_hqc cb blk2 qc s) (\<lambda>s.
      case justify_block_ptr (blk s blk2) of None \<Rightarrow> Inr s | Some blk1 \<Rightarrow>
      if decided (blk s blk1) then Inr s else
      rbind (lock_and_persist cr blk1 s) (\<lambda>s.
      case justify_block_ptr (blk s blk1) of None \<Rightarrow> Inr s | Some blk0 \<Rightarrow>
      if decided (blk s blk0) then Inr s else
      if parent_block_ptr (blk s blk2) \<noteq> Some blk1 \<or> parent_block_ptr (blk s blk1) \<noteq> Some blk0 then Inr s
      else commit_chain ix cb blk0 blk1 s))))"

definition on_receive_vote ::
    "('t, ('d, 'x) core_scheme) callbacks \<Rightarrow> PartialCertificateWire \<Rightarrow> addr \<Rightarrow> replica_id
     \<Rightarrow> ('d, 'x) core_scheme \<Rightarrow> ('d, 'x) core_scheme result" where
  "on_receive_vote cb partial_cert certified_block voterid s =
     (let had_quorum_before = has_quorum (config s) (self_qc (blk s certified_block)) in
      rbind (add_partial_certificate voterid partial_cert (self_qc (blk s certified_block))) (\<lambda>qc.
      let s = s\<lparr>blk_heap := (blk_heap s)[certified_block := (blk s certified_block)\<lparr>self_qc := qc\<rparr>]\<rparr>;
          has_quorum_after = has_quorum (config s) (self_qc (blk s certified_block)) in
      if has_quorum_after \<and> \<not> had_quorum_before then
        rbind (update_hqc cb certified_block (self_qc (blk s certified_block)) s) (\<lambda>s.
        on_new_qc cb (get_hash (blk s certified_block)) s)
      else Inr s))"

text \<open>Whether \<open>on_receive_proposal\<close> votes.\<close>

definition proposal_opinion :: "addr \<Rightarrow> ('d, 'x) core_scheme \<Rightarrow> bool result" where
  "proposal_opinion bnew s =
     (if height_of s bnew > vheight s then
        rbind (deref (justify_block_ptr (blk s bnew))) (\<lambda>justify_block.
        if height_of s justify_block > height_of s (b_lock s) then Inr True
        else rbind (walk_down (Suc (height_of s bnew)) (blk_heap s) (height_of s (b_lock s)) bnew) (\<lambda>(_, b).
          Inr (b = b_lock s)))
      else Inr False)"

definition on_receive_proposal ::
    "crypto \<Rightarrow> ('d, 't) index_ops \<Rightarrow> ('t, ('d, 'x) core_scheme) callbacks \<Rightarrow> addr \<Rightarrow> replica_id
     \<Rightarrow> ('d, 'x) core_scheme \<Rightarrow> ('d, 'x) core_scheme result" where
  "on_receive_proposal cr ix cb bnew proposer s =
     rbind (proposal_opinion bnew s) (\<lambda>opinion.
     rbind (if opinion then do_vote cb bnew proposer (s\<lparr>vheight := u32 (height_of s bnew)\<rparr>) else Inr s) (\<lambda>s.
     update cr ix cb bnew s))"

definition reload_state_from_index ::
    "('d, 't) index_ops \<Rightarrow> ('t, ('d, 'x) core_scheme) callbacks
     \<Rightarrow> ('d, 'x) core_scheme \<Rightarrow> ('d, 'x) core_scheme result" where
  "reload_state_from_index ix cb s =
     rbind (get_highest_qc ix (decided_hash_index s)) (\<lambda>highest_qc_wire.
     rbind (find_block_by_hash cb (justify highest_qc_wire) s) (\<lambda>highest_block_ptr.
     rbind (qc_of_wire highest_qc_wire) (\<lambda>qc.
     rbind (update_hqc cb highest_block_ptr qc s) (\<lambda>s.
     Inr (s\<lparr>vheight := u32 (height_of s highest_block_ptr), b_exec := highest_block_ptr,
            b_lock := highest_block_ptr\<rparr>)))))"

definition get_last_proposer :: "('d, 'x) core_scheme \<Rightarrow> replica_id" where
  "get_last_proposer s = blk_proposer (blk s (hqc_block s))"

section \<open>The calls of an update\<close>

lemma update_run:
  assumes "update cr ix cb a s = Inr s'"
  shows "s' = s \<or> (\<exists>b2 qc s1. update_hqc cb b2 qc s = Inr s1 \<and>
    (s' = s1 \<or> (\<exists>b1 s2. lock_and_persist cr b1 s1 = Inr s2 \<and>
      (s' = s2 \<or> (\<exists>b0. commit_chain ix cb b0 b1 s2 = Inr s')))))"
proof (cases "justify_block_ptr (blk s a)")
  case None
  then show ?thesis using assms by (simp add: update_def)
next
  case b2: (Some b2)
  show ?thesis
  proof (cases "decided (blk s b2)")
    case True
    then show ?thesis using assms b2 by (simp add: update_def)
  next
    case d2: False
    then obtain qc s1 where s1: "get_justify_qc (blk s a) = Inr qc" "update_hqc cb b2 qc s = Inr s1"
      using assms b2 by (auto simp: update_def rbind_eq_Inr)
    show ?thesis
    proof (cases "justify_block_ptr (blk s1 b2)")
      case None
      then show ?thesis using assms b2 d2 s1 by (auto simp: update_def)
    next
      case b1: (Some b1)
      show ?thesis
      proof (cases "decided (blk s1 b1)")
        case True
        then show ?thesis using assms b2 d2 s1 b1 by (auto simp: update_def)
      next
        case d1: False
        then obtain s2 where s2: "lock_and_persist cr b1 s1 = Inr s2"
          using assms b2 d2 s1 b1 by (auto simp: update_def rbind_eq_Inr)
        then have "s' = s2 \<or> (\<exists>b0. commit_chain ix cb b0 b1 s2 = Inr s')"
          using assms b2 d2 s1 b1 d1
          by (cases "justify_block_ptr (blk s2 b1)") (auto simp: update_def split: if_splits)
        then show ?thesis using s1 s2 by blast
      qed
    qed
  qed
qed

section \<open>What the handlers leave to the subclass\<close>

text \<open>
  A part of the subclass's state that the core does not know and that the callbacks other than
  \<open>do_vote\<close> leave alone is left alone by every handler.
\<close>

locale handler_frame =
  fixes cb :: "('t, ('d, 'x) core_scheme) callbacks"
    and proj :: "('d, 'x) core_scheme \<Rightarrow> 'q"
  assumes proj_core [simp]:
      "proj (s\<lparr>blk_heap := hp\<rparr>) = proj s" "proj (s\<lparr>hqc_block := a\<rparr>) = proj s"
      "proj (s\<lparr>hqc_wire := w\<rparr>) = proj s" "proj (s\<lparr>b_leaf := a\<rparr>) = proj s" "proj (s\<lparr>b_lock := a\<rparr>) = proj s"
      "proj (s\<lparr>b_exec := a\<rparr>) = proj s" "proj (s\<lparr>vheight := n\<rparr>) = proj s"
      "proj (s\<lparr>decided_hash_index := i\<rparr>) = proj s" "proj (s\<lparr>disk := fs\<rparr>) = proj s"
    and proj_on_new_qc: "on_new_qc cb h s = Inr s' \<Longrightarrow> proj s' = proj s"
    and proj_apply_block: "apply_block cb b t s = Inr (t', s') \<Longrightarrow> proj s' = proj s"
    and proj_commitment: "notify_vm_of_commitment cb b s = Inr s' \<Longrightarrow> proj s' = proj s"
    and proj_qc: "notify_vm_of_qc_on_nonself_block cb b s = Inr s' \<Longrightarrow> proj s' = proj s"
    and proj_prune: "notify_ok_to_prune_blocks cb n s = Inr s' \<Longrightarrow> proj s' = proj s"
begin

lemma update_hqc_proj: "update_hqc cb b qc s = Inr s' \<Longrightarrow> proj s' = proj s"
  by (auto simp: update_hqc_def Let_def dest!: proj_qc split: if_splits)

lemma commit_one_proj: "commit_one cb b (t, s) = Inr (t', s') \<Longrightarrow> proj s' = proj s"
  by (auto simp: commit_one_def Let_def rbind_eq_Inr dest!: proj_apply_block proj_commitment)

lemma commit_loop_proj: "rfold (commit_one cb) q (t, s) = Inr (t', s') \<Longrightarrow> proj s' = proj s"
  using rfold_invariant[of "commit_one cb" q "(t, s)" "(t', s')" "\<lambda>x. proj (snd x) = proj s"] commit_one_proj
  by auto

lemma commit_chain_proj: "commit_chain ix cb b0 b1 s = Inr s' \<Longrightarrow> proj s' = proj s"
  by (auto simp: commit_chain_def Let_def rbind_eq_Inr dest!: proj_prune commit_loop_proj split: if_splits)

lemma lock_and_persist_proj: "lock_and_persist cr b s = Inr s' \<Longrightarrow> proj s' = proj s"
  by (auto simp: lock_and_persist_def Let_def rbind_eq_Inr)

lemma update_proj:
  assumes "update cr ix cb a s = Inr s'"
  shows "proj s' = proj s"
  using update_run[OF assms] by (auto dest!: update_hqc_proj lock_and_persist_proj commit_chain_proj)

lemma on_receive_vote_proj: "on_receive_vote cb pc a rv s = Inr s' \<Longrightarrow> proj s' = proj s"
  by (auto simp: on_receive_vote_def Let_def rbind_eq_Inr dest!: proj_on_new_qc update_hqc_proj split: if_splits)

lemma on_receive_proposal_proj:
  assumes "on_receive_proposal cr ix cb a r s = Inr s'"
  obtains t where "proj s' = proj t"
    and "proposal_opinion a s = Inr True \<and> do_vote cb a r (s\<lparr>vheight := u32 (height_of s a)\<rparr>) = Inr t
      \<or> proposal_opinion a s = Inr False \<and> t = s"
proof -
  obtain v t where v: "proposal_opinion a s = Inr v"
    and t: "(if v then do_vote cb a r (s\<lparr>vheight := u32 (height_of s a)\<rparr>) else Inr s) = Inr t"
    and u: "update cr ix cb a t = Inr s'"
    using assms by (auto simp: on_receive_proposal_def rbind_eq_Inr)
  show ?thesis by (rule that[of t]) (use v t update_proj[OF u] in \<open>cases v; simp\<close>)+
qed

end

end
