(* ===== verification/Chain_Safety.thy ===== *)
theory Chain_Safety
  imports Main
begin

text \<open>
  The argument for safety of three-chain commits, on an abstract tree of blocks. Nothing here
  mentions the program: \<open>block_tree\<close> and \<open>chained_votes\<close> are the contracts that the blocks and
  the votes of the program are shown to meet.

  Votes of honest replicas are kept in a log, newest first; an entry is the voter, the block, and the
  block the voter was locked on. An entry is valid when the voter has respected the voting rule with
  respect to the older entries: heights increase, the lock is at least the grandparent (along
  certificates) of everything voted for, the certificate inside the block is on an ancestor, and the
  block extends the lock or its certificate is higher than the lock.
\<close>

section \<open>Trees of blocks\<close>

inductive extends :: "('b \<Rightarrow> 'b option) \<Rightarrow> 'b \<Rightarrow> 'b \<Rightarrow> bool" for par where
  extends_refl [intro!, simp]: "extends par b b"
| extends_step: "par b = Some p \<Longrightarrow> extends par p a \<Longrightarrow> extends par b a"

inductive_cases extendsE: "extends par b a"

lemma extends_trans:
  assumes "extends par c b" and "extends par b a"
  shows "extends par c a"
  using assms by induction (auto intro: extends_step)

lemma extends_up: "extends par c b \<Longrightarrow> par b = Some a \<Longrightarrow> extends par c a"
  by (meson extends_refl extends_step extends_trans)

text \<open>The ancestors of a block lie on one line.\<close>

lemma extends_linear:
  assumes "extends par c a" and "extends par c b"
  shows "extends par a b \<or> extends par b a"
  using assms
proof (induction arbitrary: b)
  case (extends_refl c)
  then show ?case by simp
next
  case (extends_step c p a)
  show ?case
  proof (cases "b = c")
    case True
    then show ?thesis using extends_step.hyps by (auto intro: extends.extends_step)
  next
    case False
    with extends_step.prems extends_step.hyps(1) have "extends par p b" by (auto elim: extendsE)
    then show ?thesis by (rule extends_step.IH)
  qed
qed

locale block_tree =
  fixes par :: "'b \<Rightarrow> 'b option"
    and ht :: "'b \<Rightarrow> nat"
    and node :: "'b \<Rightarrow> bool"
    and root :: 'b
  assumes par_node: "node b \<Longrightarrow> par b = Some p \<Longrightarrow> node p \<and> ht b = Suc (ht p)"
    and no_par_root: "node b \<Longrightarrow> par b = None \<Longrightarrow> b = root"
    and root_height: "node root \<Longrightarrow> ht root = 0"
begin

lemma extends_node: "extends par b a \<Longrightarrow> node b \<Longrightarrow> node a \<and> ht a \<le> ht b"
  by (induction rule: extends.induct) (use par_node in force)+

lemma extends_same_height:
  assumes "extends par b a" and "node b" and "ht b \<le> ht a"
  shows "a = b"
  using assms(1)
proof (cases rule: extends.cases)
  case (extends_step p)
  then show ?thesis using par_node[OF assms(2)] extends_node[of p a] assms(3) by fastforce
qed simp

lemma ancestor_unique:
  assumes "extends par c a" and "extends par c b" and "node c" and "ht a = ht b"
  shows "a = b"
  using extends_linear[OF assms(1,2)] extends_same_height extends_node assms by (metis order_refl)

lemma extends_of_lower:
  assumes "extends par c a" and "extends par c b" and "node c" and "ht a \<le> ht b"
  shows "extends par b a"
  using extends_linear[OF assms(1,2)] extends_same_height extends_node assms
  by (metis extends_refl)

lemma ancestor_at_height:
  "node b \<Longrightarrow> n \<le> ht b \<Longrightarrow> \<exists>a. extends par b a \<and> ht a = n"
proof (induction "ht b - n" arbitrary: b)
  case 0
  then show ?case by (intro exI[of _ b]) simp
next
  case (Suc k)
  then have "ht b \<noteq> 0" by simp
  then obtain p where p: "par b = Some p" using no_par_root root_height Suc.prems(1) by fastforce
  from par_node[OF Suc.prems(1) p] have "node p" "ht b = Suc (ht p)" by auto
  moreover have "k = ht p - n" "n \<le> ht p" using Suc.hyps(2) \<open>ht b = Suc (ht p)\<close> by auto
  ultimately obtain a where "extends par p a" "ht a = n" using Suc.hyps(1) by blast
  then show ?case using p by (auto intro: extends_step)
qed

lemma height_zero: "node b \<Longrightarrow> ht b = 0 \<Longrightarrow> b = root"
  using par_node no_par_root by (metis not_Some_eq old.nat.distinct(2))

end

section \<open>Logs of votes\<close>

type_synonym ('r, 'b) vote_log = "('r \<times> 'b \<times> 'b) list"

text \<open>A certificate for a block: a quorum whose honest members have all voted for it.\<close>

definition certified_in :: "('r set \<Rightarrow> bool) \<Rightarrow> ('r \<Rightarrow> bool) \<Rightarrow> 'b \<Rightarrow> ('r, 'b) vote_log \<Rightarrow> 'b \<Rightarrow> bool" where
  "certified_in quorum honest root L b \<longleftrightarrow>
     b = root \<or> (\<exists>Q. quorum Q \<and> (\<forall>r \<in> Q. honest r \<longrightarrow> (\<exists>l. (r, b, l) \<in> set L)))"

lemma certified_mono:
  "certified_in quorum honest root L b \<Longrightarrow> set L \<subseteq> set L' \<Longrightarrow> certified_in quorum honest root L' b"
  unfolding certified_in_def by blast

text \<open>The voting rule for one new entry.\<close>

definition vote_ok :: "('b \<Rightarrow> 'b option) \<Rightarrow> ('b \<Rightarrow> 'b option) \<Rightarrow> ('b \<Rightarrow> nat) \<Rightarrow> ('b \<Rightarrow> bool)
    \<Rightarrow> ('r set \<Rightarrow> bool) \<Rightarrow> ('r \<Rightarrow> bool) \<Rightarrow> 'b \<Rightarrow> ('r, 'b) vote_log \<Rightarrow> 'r \<times> 'b \<times> 'b \<Rightarrow> bool" where
  "vote_ok par just ht node quorum honest root L = (\<lambda>(r, w, l).
     node w \<and> node l \<and> certified_in quorum honest root L l
     \<and> (\<forall>v k. (r, v, k) \<in> set L \<longrightarrow> ht v < ht w
          \<and> (\<forall>i j. just v = Some j \<longrightarrow> just j = Some i \<longrightarrow> ht i \<le> ht l))
     \<and> (\<exists>j. just w = Some j \<and> node j \<and> certified_in quorum honest root L j \<and> extends par w j
          \<and> (extends par w l \<or> ht l < ht j)))"

fun valid_log where
  "valid_log par just ht node quorum honest root [] = True"
| "valid_log par just ht node quorum honest root (e # L) =
     (valid_log par just ht node quorum honest root L \<and> vote_ok par just ht node quorum honest root L e)"

lemma valid_log_suffix:
  "valid_log par just ht node quorum honest root (A @ B) \<Longrightarrow> valid_log par just ht node quorum honest root B"
  by (induction A) auto

lemma valid_log_at:
  "valid_log par just ht node quorum honest root (A @ e # B) \<Longrightarrow> vote_ok par just ht node quorum honest root B e"
  by (drule valid_log_suffix) simp

lemma valid_log_entry:
  assumes "valid_log par just ht node quorum honest root L" and "e \<in> set L"
  obtains A B where "L = A @ e # B" and "vote_ok par just ht node quorum honest root B e"
    and "valid_log par just ht node quorum honest root B"
proof -
  from assms(2) obtain A B where L: "L = A @ e # B" by (auto simp: in_set_conv_decomp)
  from valid_log_suffix[OF assms(1)[unfolded L]] L show ?thesis using that by auto
qed

text \<open>A block with two direct children, each certifying its parent: the commit rule, less the last certificate.\<close>

definition three_chain :: "('b \<Rightarrow> 'b option) \<Rightarrow> ('b \<Rightarrow> 'b option) \<Rightarrow> 'b \<Rightarrow> 'b \<Rightarrow> 'b \<Rightarrow> bool" where
  "three_chain par just b b1 b2 \<longleftrightarrow>
     par b2 = Some b1 \<and> just b2 = Some b1 \<and> par b1 = Some b \<and> just b1 = Some b"

definition committed_in where
  "committed_in par just quorum honest root L b \<longleftrightarrow>
     b = root \<or> (\<exists>b1 b2. three_chain par just b b1 b2 \<and> certified_in quorum honest root L b2)"

section \<open>Safety\<close>

locale chained_votes = block_tree par ht node root
  for par :: "'b \<Rightarrow> 'b option" and ht and node and root +
  fixes just :: "'b \<Rightarrow> 'b option"
    and quorum :: "'r set \<Rightarrow> bool"
    and honest :: "'r \<Rightarrow> bool"
  assumes quorum_meet: "quorum Q \<Longrightarrow> quorum Q' \<Longrightarrow> \<exists>r. r \<in> Q \<and> r \<in> Q' \<and> honest r"
    and node_root: "node root"
    and root_no_par: "par root = None"
begin

abbreviation "valid L \<equiv> valid_log par just ht node quorum honest root L"
abbreviation "certified L b \<equiv> certified_in quorum honest root L b"
abbreviation "ok L e \<equiv> vote_ok par just ht node quorum honest root L e"

lemma common_voter:
  assumes "certified L v" and "certified L w" and "v \<noteq> root" and "w \<noteq> root"
  obtains r k l where "(r, v, k) \<in> set L" and "(r, w, l) \<in> set L"
proof -
  from assms(1,3) obtain Q where Q: "quorum Q" "\<forall>r \<in> Q. honest r \<longrightarrow> (\<exists>l. (r, v, l) \<in> set L)"
    unfolding certified_in_def by blast
  from assms(2,4) obtain Q' where Q': "quorum Q'" "\<forall>r \<in> Q'. honest r \<longrightarrow> (\<exists>l. (r, w, l) \<in> set L)"
    unfolding certified_in_def by blast
  from quorum_meet[OF Q(1) Q'(1)] obtain r where r: "r \<in> Q" "r \<in> Q'" "honest r" by blast
  from r Q(2) obtain k where "(r, v, k) \<in> set L" by blast
  moreover from r Q'(2) obtain l where "(r, w, l) \<in> set L" by blast
  ultimately show ?thesis by (rule that)
qed

lemma certified_node:
  assumes "valid L" and "certified L b"
  shows "node b"
proof (cases "b = root")
  case False
  then obtain r l where "(r, b, l) \<in> set L" using common_voter[OF assms(2,2)] by blast
  then show ?thesis by (rule valid_log_entry[OF assms(1)]) (simp add: vote_ok_def)
qed (simp add: node_root)

text \<open>Of two entries of one replica the higher is the newer one.\<close>

lemma older_vote:
  assumes "valid (A @ (r, w, l) # B)" and "(r, v, k) \<in> set (A @ (r, w, l) # B)" and "ht v < ht w"
  shows "(r, v, k) \<in> set B"
proof (rule ccontr)
  assume "(r, v, k) \<notin> set B"
  then have "(r, v, k) \<in> set A" using assms(2,3) by auto
  then obtain C D where A: "A = C @ (r, v, k) # D" by (auto simp: in_set_conv_decomp)
  have "ok (D @ (r, w, l) # B) (r, v, k)"
    using assms(1) A valid_log_at[of par just ht node quorum honest root C] by simp
  then have "ht w < ht v" by (auto simp: vote_ok_def)
  then show False using assms(3) by simp
qed

lemma one_vote_per_height:
  assumes "valid L" and "(r, v, k) \<in> set L" and "(r, w, l) \<in> set L" and "ht v = ht w"
  shows "v = w"
proof -
  have "v' = w' \<or> ht v' \<noteq> ht w'" if "L = A @ (r, w', l') # B" "(r, v', k') \<in> set B" for A B v' k' w' l'
  proof -
    have "ok B (r, w', l')" by (rule valid_log_at) (use assms(1) that(1) in simp)
    then have "ht v' < ht w'" using that(2) by (auto simp: vote_ok_def)
    then show ?thesis by simp
  qed
  note lt = this
  from assms(2) obtain A B where AB: "L = A @ (r, v, k) # B" by (auto simp: in_set_conv_decomp)
  consider "(r, w, l) \<in> set A" | "v = w" | "(r, w, l) \<in> set B" using assms(3) AB by auto
  then show ?thesis
  proof cases
    case 1
    then obtain C D where "A = C @ (r, w, l) # D" by (auto simp: in_set_conv_decomp)
    then show ?thesis using lt[of C w l "D @ (r, v, k) # B" v k] AB assms(4) by auto
  next
    case 3
    then show ?thesis using lt[OF AB 3] assms(4) by auto
  qed
qed

text \<open>Two certificates at one height are on the same block.\<close>

lemma certified_unique:
  assumes "valid L" and "certified L v" and "certified L w" and "ht v = ht w"
  shows "v = w"
proof (cases "v = root \<or> w = root")
  case True
  have "node v" "node w" using certified_node[OF assms(1)] assms(2,3) by auto
  with True assms(4) root_height[OF node_root] height_zero[of v] height_zero[of w] show ?thesis by auto
next
  case False
  then obtain r k l where "(r, v, k) \<in> set L" "(r, w, l) \<in> set L"
    using common_voter[OF assms(2,3)] by blast
  then show ?thesis by (rule one_vote_per_height[OF assms(1) _ _ assms(4)])
qed

lemma justify_certified:
  assumes "valid L" and "certified L b" and "just b = Some j" and "b \<noteq> root"
  shows "certified L j"
proof -
  obtain r l where "(r, b, l) \<in> set L" using common_voter[OF assms(2,2,4,4)] .
  then obtain A B where L: "L = A @ (r, b, l) # B" "ok B (r, b, l)"
    by (rule valid_log_entry[OF assms(1)])
  then have "certified B j" using assms(3) by (auto simp: vote_ok_def)
  then show ?thesis by (rule certified_mono) (use L(1) in auto)
qed

text \<open>The chain below a certified third block is certified, and nothing else at its heights is.\<close>

lemma three_chain_certified:
  assumes "valid L" and "three_chain par just b b1 b2" and "certified L b2"
  shows "certified L b" and "certified L b1" and "ht b1 = Suc (ht b)" and "ht b2 = Suc (ht b1)"
    and "b1 \<noteq> root" and "b2 \<noteq> root"
proof -
  note c = assms(2)[unfolded three_chain_def]
  show r: "b1 \<noteq> root" "b2 \<noteq> root" using c root_no_par by auto
  show b1: "certified L b1" using justify_certified[OF assms(1,3)] c r by blast
  show "certified L b" using justify_certified[OF assms(1) b1] c r by blast
  show "ht b1 = Suc (ht b)" "ht b2 = Suc (ht b1)"
    using c par_node certified_node[OF assms(1)] b1 assms(3) by blast+
qed

lemma certified_in_chain:
  assumes "valid L" and "three_chain par just b b1 b2" and "certified L b2"
    and "certified L w" and "ht b \<le> ht w" and "ht w \<le> ht b2"
  shows "extends par w b"
proof -
  note c = three_chain_certified[OF assms(1-3)]
  have "extends par b1 b" "extends par b2 b"
    using assms(2) by (auto simp: three_chain_def intro: extends_step)
  moreover have "ht w = ht b \<or> ht w = ht b1 \<or> ht w = ht b2" using assms(5,6) c(3,4) by linarith
  then have "w = b \<or> w = b1 \<or> w = b2"
    using certified_unique[OF assms(1,4)] c(1,2) assms(3) by blast
  ultimately show ?thesis by auto
qed

text \<open>Every certified block at or above a committed block extends it.\<close>

theorem certified_extends_committed:
  assumes "valid L" and "three_chain par just b b1 b2" and "certified L b2"
    and "certified L w" and "ht b \<le> ht w"
  shows "extends par w b"
proof -
  note chain = three_chain_certified[OF assms(1-3)]
  have "\<lbrakk>L = P @ L'; certified L' w; ht b \<le> ht w\<rbrakk> \<Longrightarrow> extends par w b" for P L' w
  proof (induction L' arbitrary: P w rule: length_induct)
    case (1 L')
    have w: "certified L w" by (rule certified_mono[OF "1.prems"(2)]) (use "1.prems"(1) in auto)
    show ?case
    proof (cases "ht w \<le> ht b2")
      case True
      then show ?thesis using certified_in_chain[OF assms(1-3) w "1.prems"(3)] by blast
    next
      case False
      then have "w \<noteq> root" using root_height[OF node_root] by auto
      then obtain Q where Q: "quorum Q" "\<forall>r \<in> Q. honest r \<longrightarrow> (\<exists>l. (r, w, l) \<in> set L')"
        using "1.prems"(2) unfolding certified_in_def by blast
      obtain Q2 where Q2: "quorum Q2" "\<forall>r \<in> Q2. honest r \<longrightarrow> (\<exists>l. (r, b2, l) \<in> set L)"
        using assms(3) chain(6) unfolding certified_in_def by blast
      from quorum_meet[OF Q(1) Q2(1)] obtain r k l where r: "(r, w, l) \<in> set L'" "(r, b2, k) \<in> set L"
        using Q(2) Q2(2) by blast
      from r(1) obtain A B where AB: "L' = A @ (r, w, l) # B" by (auto simp: in_set_conv_decomp)
      have L: "L = (P @ A) @ (r, w, l) # B" using "1.prems"(1) AB by simp
      have okw: "ok B (r, w, l)"
        by (rule valid_log_at[of par just ht node quorum honest root "P @ A"]) (use assms(1) L in simp)
      have "(r, b2, k) \<in> set B"
        using older_vote[of "P @ A" r w l B b2 k] assms(1) r(2) L False by simp
      then have "ht b \<le> ht l"
        using okw assms(2) unfolding vote_ok_def three_chain_def by blast
      have IH: "extends par x b" if "certified B x" "ht b \<le> ht x" for x
      proof -
        have "length B < length L'" "L = ((P @ A) @ [(r, w, l)]) @ B" using AB L by simp_all
        then show ?thesis using "1.IH" that by blast
      qed
      obtain j where j: "certified B j" "extends par w j" "extends par w l \<or> ht l < ht j" "certified B l"
        using okw unfolding vote_ok_def by blast
      show ?thesis
      proof (cases "extends par w l")
        case True
        then show ?thesis using IH[OF j(4) \<open>ht b \<le> ht l\<close>] by (rule extends_trans)
      next
        case False
        then have "extends par j b" using IH[OF j(1)] j(3) \<open>ht b \<le> ht l\<close> by simp
        with j(2) show ?thesis by (rule extends_trans)
      qed
    qed
  qed
  from this[of "[]" L w] show ?thesis using assms(4,5) by simp
qed

theorem committed_agree:
  assumes "valid L" and "committed_in par just quorum honest root L b"
    and "committed_in par just quorum honest root L c"
  shows "extends par b c \<or> extends par c b"
proof -
  have cert: "certified L x" if "committed_in par just quorum honest root L x" for x
    using that three_chain_certified(1)[OF assms(1)] unfolding committed_in_def
    by (auto simp: certified_in_def)
  have le: "extends par y x" if x: "committed_in par just quorum honest root L x"
    and y: "committed_in par just quorum honest root L y" and "ht x \<le> ht y" for x y
  proof (cases "x = root")
    case True
    have "node y" using certified_node[OF assms(1) cert[OF y]] .
    then obtain a where "extends par y a" "ht a = 0" using ancestor_at_height[of y 0] by auto
    then show ?thesis using height_zero extends_node \<open>node y\<close> True by blast
  next
    case False
    then show ?thesis using x certified_extends_committed[OF assms(1) _ _ cert[OF y] that(3)]
      unfolding committed_in_def by blast
  qed
  show ?thesis using le[OF assms(2,3)] le[OF assms(3,2)] by linarith
qed

end

end
