(* ===== verification/Replica.thy ===== *)
theory Replica
  imports Consensus Chain_Safety
begin

text \<open>
  The part of \<open>HotstuffAppBase\<close> that decides what the protocol state can become: the core
  together with the block store, what receiving a block from the network does to them, and what a
  proposal does to them.

  The locale \<open>core_callbacks\<close> is the contract of the virtual methods of \<open>HotstuffCore\<close>: they
  leave the core's fields and the map of the block store as they are. The effect of every handler is
  stated inside it.
\<close>

record 'd replica = "'d core" +
  block_store :: BlockStore

abbreviation cache :: "('d, 'x) replica_scheme \<Rightarrow> hash \<Rightarrow> addr option" where
  "cache s \<equiv> block_cache (block_store s)"

section \<open>Operations on the core and the store\<close>

text \<open>
  A block that arrives (\<open>ProposalNetEvent\<close>, or a fetched block in \<open>BlockFetchWorker\<close>) is
  constructed and then checked by \<open>NetworkEventQueue::validate_and_add_event\<close>; the result is the
  verdict and the object.
\<close>

definition receive_and_validate ::
    "crypto \<Rightarrow> HotstuffBlockWire \<Rightarrow> replica_id \<Rightarrow> ('d, 'x) core_scheme
     \<Rightarrow> (bool \<times> addr \<times> ('d, 'x) core_scheme) result" where
  "receive_and_validate cr w src s =
     rbind (receive_block cr w src (blk_heap s)) (\<lambda>(a, hp).
     rbind (validate_hotstuff cr (config s) (hp ! a)) (\<lambda>(ok, b).
     Inr (ok, a, s\<lparr>blk_heap := hp[a := b]\<rparr>)))"

text \<open>\<open>block_store.insert_block(blk)\<close> in \<open>NetworkEventQueue::on_event\<close>.\<close>

definition store_insert ::
    "addr \<Rightarrow> ('d, 'x) replica_scheme \<Rightarrow> (MissingDependencies \<times> ('d, 'x) replica_scheme) result" where
  "store_insert a s =
     rbind (insert_block a (block_store s) (blk_heap s)) (\<lambda>(m, st, hp).
     Inr (m, s\<lparr>blk_heap := hp, block_store := st\<rparr>))"

text \<open>\<open>do_propose\<close> and \<open>do_empty_propose\<close> once the body is there: mint, insert, move the leaf.\<close>

definition propose_body ::
    "crypto \<Rightarrow> bytes \<Rightarrow> ('d, 'x) replica_scheme \<Rightarrow> (addr \<times> ('d, 'x) replica_scheme) result" where
  "propose_body cr bd s =
     rbind (mint_block cr bd (hqc_wire s) (get_hash (blk s (b_leaf s))) (self_id s) (blk_heap s)) (\<lambda>(a, hp).
     rbind (store_insert a (s\<lparr>blk_heap := hp\<rparr>)) (\<lambda>(m, s).
     if has_missing m then Inl (Runtime_error ''failed to insert newly minted block?'')
     else Inr (a, s\<lparr>b_leaf := a\<rparr>)))"

text \<open>One round of the collector's thread.\<close>

definition collect_garbage :: "('d, 'x) replica_scheme \<Rightarrow> ('d, 'x) replica_scheme" where
  "collect_garbage s =
     (let (g, hp) = gc_run_step (gc_collector (block_store s)) (blk_heap s) in
      s\<lparr>blk_heap := hp, block_store := (block_store s)\<lparr>gc_collector := g\<rparr>\<rparr>)"

section \<open>What the callbacks may not touch\<close>

definition same_core :: "('d, 'x) replica_scheme \<Rightarrow> ('d, 'x) replica_scheme \<Rightarrow> bool" where
  "same_core s s' \<longleftrightarrow> core.truncate s' = core.truncate s \<and> cache s' = cache s"

lemma same_core_refl [simp]: "same_core s s"
  by (simp add: same_core_def)

lemma same_core_trans [trans]: "same_core s t \<Longrightarrow> same_core t u \<Longrightarrow> same_core s u"
  by (simp add: same_core_def)

lemma same_core_fields:
  assumes "same_core s s'"
  shows "blk_heap s' = blk_heap s" and "genesis s' = genesis s" and "hqc_block s' = hqc_block s"
    and "hqc_wire s' = hqc_wire s" and "b_lock s' = b_lock s" and "b_exec s' = b_exec s"
    and "vheight s' = vheight s" and "self_id s' = self_id s" and "config s' = config s"
    and "b_leaf s' = b_leaf s" and "decided_hash_index s' = decided_hash_index s"
    and "disk s' = disk s" and "cache s' = cache s"
  using assms unfolding same_core_def core.truncate_def by simp_all

lemma same_core_heap: "same_core s s' \<Longrightarrow> same_core (s\<lparr>blk_heap := hp\<rparr>) (s'\<lparr>blk_heap := hp\<rparr>)"
  unfolding same_core_def core.truncate_def by simp

text \<open>The heap after the commit loop.\<close>

definition mark_decided :: "addr list \<Rightarrow> heap \<Rightarrow> heap" where
  "mark_decided q hp = fold (\<lambda>b hp. hp[b := decide (hp ! b)]) q hp"

lemma mark_decided_Nil [simp]: "mark_decided [] hp = hp"
  by (simp add: mark_decided_def)

lemma mark_decided_Cons [simp]: "mark_decided (b # q) hp = mark_decided q (hp[b := decide (hp ! b)])"
  by (simp add: mark_decided_def)

lemma heap_view_mark_decided [simp]: "heap_view (mark_decided q hp) = heap_view hp"
proof (induction q arbitrary: hp)
  case (Cons b q)
  have "heap_view (hp[b := decide (hp ! b)]) = heap_view hp"
    by (rule heap_view_update) (simp add: block_view_def decide_def get_hash_def)
  with Cons show ?case by simp
qed simp

lemma length_mark_decided [simp]: "length (mark_decided q hp) = length hp"
  using heap_view_length[of "mark_decided q hp" hp] by simp

lemma mark_decided_nth:
  "a < length hp \<Longrightarrow> mark_decided q hp ! a = (if a \<in> set q then decide (hp ! a) else hp ! a)"
proof (induction q arbitrary: hp)
  case (Cons b q)
  then show ?case by (cases "b = a") (auto simp: decide_def)
qed simp

locale core_callbacks =
  fixes cb :: "('t, ('d, 'x) replica_scheme) callbacks"
  assumes do_vote_core: "do_vote cb a r s = Inr s' \<Longrightarrow> same_core s s'"
    and on_new_qc_core: "on_new_qc cb h s = Inr s' \<Longrightarrow> same_core s s'"
    and apply_block_core: "apply_block cb a t s = Inr (t', s') \<Longrightarrow> same_core s s'"
    and notify_commitment_core: "notify_vm_of_commitment cb a s = Inr s' \<Longrightarrow> same_core s s'"
    and notify_qc_core: "notify_vm_of_qc_on_nonself_block cb a s = Inr s' \<Longrightarrow> same_core s s'"
    and notify_prune_core: "notify_ok_to_prune_blocks cb n s = Inr s' \<Longrightarrow> same_core s s'"
begin

lemma update_hqc_effect:
  assumes "update_hqc cb b qc s = Inr s'"
  shows "\<exists>t. same_core t s' \<and>
    (t = s \<and> height_of s b \<le> height_of s (hqc_block s)
     \<or> t = s\<lparr>hqc_block := b, hqc_wire := qc_serialize qc, b_leaf := b\<rparr>
       \<and> height_of s b > height_of s (hqc_block s))"
  using assms notify_qc_core
  by (auto simp: update_hqc_def Let_def split: if_splits)

lemma commit_loop_effect:
  assumes "rfold (commit_one cb) q (txn, s) = Inr (txn', s')"
  shows "same_core (s\<lparr>blk_heap := mark_decided q (blk_heap s)\<rparr>) s'"
  using assms
proof (induction q arbitrary: txn s)
  case Nil
  then show ?case by simp
next
  case (Cons b q)
  let ?t = "s\<lparr>blk_heap := (blk_heap s)[b := decide (blk s b)]\<rparr>"
  from Cons.prems obtain txn1 s2 where 0: "commit_one cb b (txn, s) = Inr (txn1, s2)"
    and 3: "rfold (commit_one cb) q (txn1, s2) = Inr (txn', s')"
    by (auto simp: result_simps)
  from 0 obtain s1 where 1: "apply_block cb b txn ?t = Inr (txn1, s1)"
    and 2: "notify_vm_of_commitment cb b s1 = Inr s2"
    by (auto simp: commit_one_def result_simps Let_def)
  have t: "same_core ?t s2" using apply_block_core[OF 1] notify_commitment_core[OF 2] by (rule same_core_trans)
  let ?hp = "mark_decided q (blk_heap ?t)"
  have "same_core (?t\<lparr>blk_heap := ?hp\<rparr>) (s2\<lparr>blk_heap := ?hp\<rparr>)" using t by (rule same_core_heap)
  also have "same_core (s2\<lparr>blk_heap := ?hp\<rparr>) s'" using Cons.IH[OF 3] same_core_fields(1)[OF t] by simp
  finally show ?case by simp
qed

lemma commit_chain_effect:
  assumes "commit_chain ix cb b0 b1 s = Inr s'"
  obtains q index where
    "walk_down (Suc (height_of s b0)) (blk_heap s) (height_of s (b_exec s)) b0 = Inr (q, b_exec s)"
    and "same_core (s\<lparr>blk_heap := mark_decided (rev q) (blk_heap s), b_exec := b0,
           decided_hash_index := index\<rparr>) s'"
proof -
  from assms obtain q e where w: "walk_down (Suc (height_of s b0)) (blk_heap s) (height_of s (b_exec s)) b0 = Inr (q, e)"
    by (auto simp: commit_chain_def rbind_eq_Inr)
  have e: "e = b_exec s" using assms w by (simp add: commit_chain_def split: if_splits)
  from assms w e obtain txn txn1 s1 qc txn2 index where
    s1: "rfold (commit_one cb) (rev q) (txn, s) = Inr (txn1, s1)"
    and s': "notify_ok_to_prune_blocks cb
        (block_height (blk_heap (s1\<lparr>b_exec := b0, decided_hash_index := index\<rparr>) ! b0))
        (s1\<lparr>b_exec := b0, decided_hash_index := index\<rparr>) = Inr s'"
    by (auto simp: commit_chain_def rbind_eq_Inr Let_def)
  let ?t = "s\<lparr>blk_heap := mark_decided (rev q) (blk_heap s)\<rparr>"
  have "same_core ?t s1" by (rule commit_loop_effect[OF s1])
  then have "same_core (?t\<lparr>b_exec := b0, decided_hash_index := index\<rparr>)
      (s1\<lparr>b_exec := b0, decided_hash_index := index\<rparr>)"
    unfolding same_core_def core.truncate_def by simp
  also have "same_core (s1\<lparr>b_exec := b0, decided_hash_index := index\<rparr>) s'"
    using s' by (rule notify_prune_core)
  finally show ?thesis using that w e by simp
qed

end

lemma lock_and_persist_effect:
  assumes "lock_and_persist cr b1 s = Inr s'"
  obtains hp d where "unwritten hp = unwritten (blk_heap s)"
    and "s' = s\<lparr>b_lock := (if height_of s b1 > height_of s (b_lock s) then b1 else b_lock s),
                blk_heap := hp, disk := d\<rparr>"
proof -
  let ?t = "if height_of s b1 > height_of s (b_lock s) then s\<lparr>b_lock := b1\<rparr> else s"
  from assms obtain info hp d where
    w: "block_write_to_disk cr (get_data_dir info) (b_lock ?t) (blk_heap ?t) (disk ?t) = Inr (hp, d)"
    and s': "s' = ?t\<lparr>blk_heap := hp, disk := d\<rparr>"
    by (auto simp: lock_and_persist_def rbind_eq_Inr Let_def)
  have "unwritten hp = unwritten (blk_heap s)" using block_write_to_disk_frame[OF w] by (simp split: if_splits)
  then show ?thesis by (rule that[where d = d]) (use s' in simp)
qed

end
