(* ===== verification/Network.thy ===== *)
theory Network
  imports Rpc_Client Big_Endian Replica "HOL-Library.Multiset"
begin

text \<open>
  The path of a message into the replica: \<open>event.{h,cc}\<close>, \<open>event_queue\<close>, \<open>network_event\<close>,
  \<open>network_event_queue\<close>, \<open>block_fetch_manager\<close>, \<open>block_fetch_worker\<close>, \<open>block_fetch_server\<close> and
  the handlers of \<open>protocol/hotstuff_server\<close>.

  Request contexts are shared between the manager and the per-replica queues, so they live in a store
  of their own and are named by their position. The theory shows that the manager loses no waiting
  event, that the collection of a fetch queue drops exactly the received requests, and that a request
  the worker could not send stays pending.
\<close>

section \<open>Events\<close>

datatype Event = VoteEvent replica_id PartialCertificateWire addr | ProposalEvent replica_id addr

fun event_validate :: "heap \<Rightarrow> Event \<Rightarrow> bool result" where
  "event_validate hp (VoteEvent rid cert block) =
     (if get_hash (hp ! block) \<noteq> pc_hash cert
      then Inl (Runtime_error ''built a VoteEvent where blk->get_hash() != cert.hash'')
      else Inr True)"
| "event_validate hp (ProposalEvent rid block) = Inr (block_height (hp ! block) \<noteq> 0)"

fun event_apply :: "crypto \<Rightarrow> ('d, 't) index_ops \<Rightarrow> ('t, ('d, 'x) core_scheme) callbacks \<Rightarrow> Event
    \<Rightarrow> ('d, 'x) core_scheme \<Rightarrow> ('d, 'x) core_scheme result" where
  "event_apply cr ix cb (VoteEvent rid cert block) s = on_receive_vote cb cert block rid s"
| "event_apply cr ix cb (ProposalEvent rid block) s = on_receive_proposal cr ix cb block rid s"

datatype NetEvent =
    VoteNetEvent PartialCertificateWire replica_id
  | ProposalNetEvent addr replica_id
  | BlockReceiveNetEvent addr replica_id

text \<open>\<open>validate\<close> of a net event; \<open>validate_hotstuff\<close> leaves its parse in the block.\<close>

fun net_event_validate :: "crypto \<Rightarrow> ReplicaConfig \<Rightarrow> NetEvent \<Rightarrow> heap \<Rightarrow> (bool \<times> heap) result" where
  "net_event_validate cr cfg (VoteNetEvent cert rid) hp =
     rbind (get_info cfg rid) (\<lambda>info. Inr (partial_cert_validate cr cert info, hp))"
| "net_event_validate cr cfg (ProposalNetEvent a proposer) hp =
     rbind (validate_hotstuff cr cfg (hp ! a)) (\<lambda>(ok, b). Inr (ok, hp[a := b]))"
| "net_event_validate cr cfg (BlockReceiveNetEvent a sender) hp =
     rbind (validate_hotstuff cr cfg (hp ! a)) (\<lambda>(ok, b). Inr (ok, hp[a := b]))"

section \<open>Block requests\<close>

record RequestContext =
  request :: hash
  block_is_received :: bool
  dependent_network_events :: "NetEvent list"
  requested_from :: "32 word"

definition new_request :: "hash \<Rightarrow> RequestContext" where
  "new_request h = \<lparr>request = h, block_is_received = False, dependent_network_events = [], requested_from = 0\<rparr>"

definition add_network_events :: "NetEvent list \<Rightarrow> RequestContext \<Rightarrow> RequestContext" where
  "add_network_events es c = c\<lparr>dependent_network_events := dependent_network_events c @ es\<rparr>"

definition mark_received :: "RequestContext \<Rightarrow> RequestContext" where
  "mark_received c = c\<lparr>block_is_received := True\<rparr>"

definition was_requested_from :: "replica_id \<Rightarrow> RequestContext \<Rightarrow> bool" where
  "was_requested_from rid c \<longleftrightarrow> bit (requested_from c) rid"

text \<open>\<open>BlockFetchWorker\<close>: \<open>std::set<Hash>\<close> is a list in the order of the hashes without repetition.\<close>

record BlockFetchWorker =
  fetch_rpc :: NonblockingRpcClient
  fetch_reqs :: "hash list"

fun set_insert :: "hash \<Rightarrow> hash list \<Rightarrow> hash list" where
  "set_insert h [] = [h]"
| "set_insert h (k # ks) =
     (if bytes_less h k then h # k # ks else if h = k then k # ks else k # set_insert h ks)"

definition worker_add_request :: "hash \<Rightarrow> BlockFetchWorker \<Rightarrow> BlockFetchWorker" where
  "worker_add_request h w = w\<lparr>fetch_reqs := set_insert h (fetch_reqs w)\<rparr>"

definition readd_request :: "hash list \<Rightarrow> BlockFetchWorker \<Rightarrow> BlockFetchWorker" where
  "readd_request hs w = w\<lparr>fetch_reqs := fold set_insert hs (fetch_reqs w)\<rparr>"

definition extract_reqs :: "BlockFetchWorker \<Rightarrow> hash list \<times> BlockFetchWorker" where
  "extract_reqs w = (fetch_reqs w, w\<lparr>fetch_reqs := []\<rparr>)"

definition worker_exists_work_to_do :: "BlockFetchWorker \<Rightarrow> bool" where
  "worker_exists_work_to_do w \<longleftrightarrow> length (fetch_reqs w) > 0"

record ReplicaFetchQueue =
  queue_info :: ReplicaInfo
  queue_outstanding :: "nat list"
  queue_worker :: BlockFetchWorker

definition new_fetch_queue :: "ReplicaInfo \<Rightarrow> ReplicaFetchQueue" where
  "new_fetch_queue i = \<lparr>queue_info = i, queue_outstanding = [],
     queue_worker = \<lparr>fetch_rpc = new_rpc_client i, fetch_reqs = []\<rparr>\<rparr>"

definition GC_FREQ :: nat where "GC_FREQ = 10"

text \<open>\<open>ReplicaFetchQueue::do_gc\<close>: a received request is replaced by the last one, which is looked at next.\<close>

function fetch_gc_loop :: "RequestContext list \<Rightarrow> nat \<Rightarrow> nat list \<Rightarrow> nat list" where
  "fetch_gc_loop cs i l =
     (if i < length l then
        if block_is_received (cs ! (l ! i)) then fetch_gc_loop cs i (butlast (l[i := last l]))
        else fetch_gc_loop cs (Suc i) l
      else l)"
  by pat_completeness auto
termination
  by (relation "measure (\<lambda>(cs, i, l). length l - i)") auto

declare fetch_gc_loop.simps [simp del]

record BlockFetchManager =
  fetch_queues :: "replica_id \<Rightarrow> ReplicaFetchQueue option"
  outstanding_reqs :: "hash \<Rightarrow> nat option"
  contexts :: "RequestContext list"

definition new_fetch_manager :: BlockFetchManager where
  "new_fetch_manager = \<lparr>fetch_queues = (\<lambda>_. None), outstanding_reqs = (\<lambda>_. None), contexts = []\<rparr>"

definition fetch_add_replica :: "ReplicaInfo \<Rightarrow> BlockFetchManager \<Rightarrow> BlockFetchManager" where
  "fetch_add_replica i m =
     (if fetch_queues m (info_id i) = None
      then m\<lparr>fetch_queues := (fetch_queues m)(info_id i \<mapsto> new_fetch_queue i)\<rparr> else m)"

definition init_configs :: "ReplicaConfig \<Rightarrow> BlockFetchManager \<Rightarrow> BlockFetchManager" where
  "init_configs cfg m = fold fetch_add_replica (list_info cfg) m"

definition queue_add_request :: "RequestContext list \<Rightarrow> nat \<Rightarrow> ReplicaFetchQueue \<Rightarrow> ReplicaFetchQueue" where
  "queue_add_request cs c q =
     (let q = q\<lparr>queue_outstanding := queue_outstanding q @ [c],
                queue_worker := worker_add_request (request (cs ! c)) (queue_worker q)\<rparr> in
      if length (queue_outstanding q) > GC_FREQ
      then q\<lparr>queue_outstanding := fetch_gc_loop cs 0 (queue_outstanding q)\<rparr> else q)"

text \<open>The context of a hash, made when there is none.\<close>

definition request_context :: "hash \<Rightarrow> BlockFetchManager \<Rightarrow> nat \<times> BlockFetchManager" where
  "request_context h m =
     (case outstanding_reqs m h of
        Some c \<Rightarrow> (c, m)
      | None \<Rightarrow> (length (contexts m),
          m\<lparr>outstanding_reqs := (outstanding_reqs m)(h \<mapsto> length (contexts m)),
            contexts := contexts m @ [new_request h]\<rparr>))"

definition add_fetch_request :: "ReplicaConfig \<Rightarrow> hash \<Rightarrow> replica_id \<Rightarrow> NetEvent list \<Rightarrow> BlockFetchManager
    \<Rightarrow> BlockFetchManager result" where
  "add_fetch_request cfg requested_block request_target dependent_events m =
     (if \<not> is_valid_replica cfg request_target then Inr m
      else
        let (c, m) = request_context requested_block m in
        rbind (if \<not> was_requested_from request_target (contexts m ! c) then
                 (case fetch_queues m request_target of
                    None \<Rightarrow> Inl Out_of_range
                  | Some q \<Rightarrow> Inr (m\<lparr>fetch_queues := (fetch_queues m)(request_target \<mapsto>
                                queue_add_request (contexts m) c q)\<rparr>))
               else Inr m) (\<lambda>m.
        Inr (m\<lparr>contexts := (contexts m)[c := add_network_events dependent_events (contexts m ! c)]\<rparr>)))"

definition deliver_block :: "hash \<Rightarrow> BlockFetchManager \<Rightarrow> NetEvent list \<times> BlockFetchManager" where
  "deliver_block h m =
     (case outstanding_reqs m h of
        None \<Rightarrow> ([], m)
      | Some c \<Rightarrow>
          let m = m\<lparr>contexts := (contexts m)[c := mark_received (contexts m ! c)],
                    outstanding_reqs := (outstanding_reqs m)(h := None)\<rparr> in
          (dependent_network_events (contexts m ! c), m))"

section \<open>The network event queue\<close>

record 'd node = "'d replica" +
  block_fetch_manager :: BlockFetchManager
  event_queue :: "Event GenericEventQueue"
  network_event_queue :: "NetEvent GenericEventQueue"

definition validate_and_add_event :: "Event \<Rightarrow> ('d, 'x) node_scheme \<Rightarrow> ('d, 'x) node_scheme result" where
  "validate_and_add_event e s =
     rbind (event_validate (blk_heap s) e) (\<lambda>ok.
     Inr (if ok then s\<lparr>event_queue := add_event e (event_queue s)\<rparr> else s))"

definition validate_and_add_net_event :: "crypto \<Rightarrow> NetEvent \<Rightarrow> ('d, 'x) node_scheme \<Rightarrow> ('d, 'x) node_scheme result" where
  "validate_and_add_net_event cr e s =
     rbind (net_event_validate cr (config s) e (blk_heap s)) (\<lambda>(ok, hp).
     let s = s\<lparr>blk_heap := hp\<rparr> in
     Inr (if ok then s\<lparr>network_event_queue := add_event e (network_event_queue s)\<rparr> else s))"

definition fetch_request :: "hash \<Rightarrow> replica_id \<Rightarrow> NetEvent list \<Rightarrow> ('d, 'x) node_scheme \<Rightarrow> ('d, 'x) node_scheme result" where
  "fetch_request h target deps s =
     rbind (add_fetch_request (config s) h target deps (block_fetch_manager s)) (\<lambda>m.
     Inr (s\<lparr>block_fetch_manager := m\<rparr>))"

text \<open>Events that wait for a missing parent, else for a missing justification.\<close>

definition wait_for_missing :: "MissingDependencies \<Rightarrow> replica_id \<Rightarrow> NetEvent list \<Rightarrow> ('d, 'x) node_scheme
    \<Rightarrow> ('d, 'x) node_scheme result" where
  "wait_for_missing missing_deps source dep_events s =
     rbind (case missing_parent missing_deps of
              None \<Rightarrow> Inr (dep_events, s)
            | Some h \<Rightarrow> rbind (fetch_request h source dep_events s) (\<lambda>s. Inr ([], s))) (\<lambda>(dep_events, s).
     case missing_justify missing_deps of
       None \<Rightarrow> Inr s
     | Some h \<Rightarrow> fetch_request h source dep_events s)"

definition deliver :: "addr \<Rightarrow> ('d, 'x) node_scheme \<Rightarrow> NetEvent list \<times> ('d, 'x) node_scheme" where
  "deliver a s =
     (let (deps, m) = deliver_block (get_hash (blk s a)) (block_fetch_manager s) in
      (deps, s\<lparr>block_fetch_manager := m\<rparr>))"

fun on_net_event :: "NetEvent \<Rightarrow> ('d, 'x) node_scheme \<Rightarrow> ('d, 'x) node_scheme result" where
  "on_net_event (VoteNetEvent cert rid) s =
     (case get_block (pc_hash cert) (block_store s) of
        Some block_ptr \<Rightarrow> validate_and_add_event (VoteEvent rid cert block_ptr) s
      | None \<Rightarrow> fetch_request (pc_hash cert) rid [VoteNetEvent cert rid] s)"
| "on_net_event (ProposalNetEvent a proposer) s =
     rbind (store_insert a s) (\<lambda>(missing_deps, s).
     let (deps, s) = deliver a s in
     if \<not> has_missing missing_deps then
       validate_and_add_event (ProposalEvent proposer a)
         (s\<lparr>network_event_queue := add_events deps (network_event_queue s)\<rparr>)
     else wait_for_missing missing_deps proposer (deps @ [ProposalNetEvent a proposer]) s)"
| "on_net_event (BlockReceiveNetEvent a sender) s =
     rbind (store_insert a s) (\<lambda>(missing_deps, s).
     let (deps, s) = deliver a s in
     if \<not> has_missing missing_deps then
       Inr (s\<lparr>network_event_queue := add_events deps (network_event_queue s)\<rparr>)
     else wait_for_missing missing_deps sender (deps @ [BlockReceiveNetEvent a sender]) s)"

text \<open>One step of the thread of each queue.\<close>

definition net_thread_step :: "('d, 'x) node_scheme \<Rightarrow> ('d, 'x) node_scheme result" where
  "net_thread_step s =
     (case next_event (network_event_queue s) of
        None \<Rightarrow> Inr s
      | Some (e, q) \<Rightarrow> on_net_event e (s\<lparr>network_event_queue := q\<rparr>))"

definition event_thread_step :: "crypto \<Rightarrow> ('d, 't) index_ops \<Rightarrow> ('t, ('d, 'x) node_scheme) callbacks
    \<Rightarrow> ('d, 'x) node_scheme \<Rightarrow> ('d, 'x) node_scheme result" where
  "event_thread_step cr ix cb s =
     (case next_event (event_queue s) of
        None \<Rightarrow> Inr s
      | Some (e, q) \<Rightarrow> event_apply cr ix cb e (s\<lparr>event_queue := q\<rparr>))"

section \<open>Messages from the network\<close>

text \<open>\<open>HotstuffProtocolHandler\<close>.\<close>

definition handler_vote :: "crypto \<Rightarrow> VoteMessage \<Rightarrow> ('d, 'x) node_scheme \<Rightarrow> ('d, 'x) node_scheme result" where
  "handler_vote cr v s =
     (if \<not> is_valid_replica (config s) (voter v) then Inr s
      else validate_and_add_net_event cr (VoteNetEvent (vote v) (voter v)) s)"

definition handler_propose :: "crypto \<Rightarrow> ProposeMessage \<Rightarrow> ('d, 'x) node_scheme \<Rightarrow> ('d, 'x) node_scheme result" where
  "handler_propose cr p s =
     (if \<not> is_valid_replica (config s) (msg_proposer p) then Inr s
      else
        rbind (receive_block cr (proposal p) (msg_proposer p) (blk_heap s)) (\<lambda>(a, hp).
        validate_and_add_net_event cr (ProposalNetEvent a (msg_proposer p)) (s\<lparr>blk_heap := hp\<rparr>)))"

text \<open>
  A response in \<open>BlockFetchWorker::run\<close>: the result of \<open>validate_hash\<close> is not used, but it caches the
  hash.
\<close>

definition receive_fetched :: "crypto \<Rightarrow> replica_id \<Rightarrow> HotstuffBlockWire \<Rightarrow> ('d, 'x) node_scheme
    \<Rightarrow> ('d, 'x) node_scheme result" where
  "receive_fetched cr source response s =
     rbind (receive_block cr response source (blk_heap s)) (\<lambda>(a, hp).
     rbind (validate_hash cr (hp ! a)) (\<lambda>(_, b).
     validate_and_add_net_event cr (BlockReceiveNetEvent a source) (s\<lparr>blk_heap := hp[a := b]\<rparr>)))"

text \<open>One round of the worker of \<open>rid\<close>, with what the network does as in the client.\<close>

definition fetch_worker_step :: "crypto \<Rightarrow> replica_id \<Rightarrow> (bool \<times> bool) list \<Rightarrow> BlockFetchResponse option list
    \<Rightarrow> ('d, 'x) node_scheme \<Rightarrow> ('d, 'x) node_scheme result" where
  "fetch_worker_step cr rid attempts calls s =
     (case fetch_queues (block_fetch_manager s) rid of
        None \<Rightarrow> Inr s
      | Some q \<Rightarrow>
          let w = queue_worker q;
              put = (\<lambda>w s. s\<lparr>block_fetch_manager := (block_fetch_manager s)\<lparr>fetch_queues :=
                (fetch_queues (block_fetch_manager s))(rid \<mapsto> q\<lparr>queue_worker := w\<rparr>)\<rparr>\<rparr>) in
          if rpc_done_flag (fetch_rpc w) \<or> \<not> worker_exists_work_to_do w then Inr s
          else
            let (req, w) = extract_reqs w in
            rbind (try_action attempts calls (fetch_rpc w)) (\<lambda>(res, c, _, _).
            let w = w\<lparr>fetch_rpc := c\<rparr> in
            case res of
              None \<Rightarrow> Inr (put (readd_request req w) s)
            | Some r \<Rightarrow> rfold (receive_fetched cr (info_id (rpc_info c))) (responses r) (put w s)))"

text \<open>\<open>BlockFetchHandler::fetch\<close>.\<close>

definition fetch_handler :: "BlockFetchRequest \<Rightarrow> BlockStore \<Rightarrow> heap \<Rightarrow> BlockFetchResponse" where
  "fetch_handler req st hp =
     \<lparr>responses = concat (map (\<lambda>h. case get_block h st of
        None \<Rightarrow> []
      | Some a \<Rightarrow> if flushed_from_memory (hp ! a) then [] else [to_wire (hp ! a)]) (reqs req))\<rparr>"

section \<open>The collection of a fetch queue\<close>

lemma fetch_gc_loop_mset:
  "i \<le> length l \<Longrightarrow> mset (fetch_gc_loop cs i l) =
    mset (take i l) + filter_mset (\<lambda>c. \<not> block_is_received (cs ! c)) (mset (drop i l))"
proof (induction cs i l rule: fetch_gc_loop.induct)
  case (1 cs i l)
  show ?case
  proof (cases "i < length l")
    case False
    then have "fetch_gc_loop cs i l = l" by (simp add: fetch_gc_loop.simps[of cs i l])
    then show ?thesis using False "1.prems" by simp
  next
    case i: True
    show ?thesis
    proof (cases "block_is_received (cs ! (l ! i))")
      case True
      then show ?thesis using "1.IH"(1)[OF i True] i swap_remove[OF i]
        by (simp add: fetch_gc_loop.simps[of cs i l])
    next
      case False
      have "mset (drop i l) = add_mset (l ! i) (mset (drop (Suc i) l))"
        using i by (simp flip: Cons_nth_drop_Suc)
      then show ?thesis using "1.IH"(2)[OF i False] i False
        by (simp add: fetch_gc_loop.simps[of cs i l] take_Suc_conv_app_nth)
    qed
  qed
qed

section \<open>Waiting events\<close>

text \<open>
  The invariant of the manager: an outstanding request has its own unreceived context, and every
  member of the configuration has a queue.
\<close>

definition fetch_ok :: "ReplicaConfig \<Rightarrow> BlockFetchManager \<Rightarrow> bool" where
  "fetch_ok cfg m \<longleftrightarrow>
     (\<forall>h c. outstanding_reqs m h = Some c \<longrightarrow>
        c < length (contexts m) \<and> request (contexts m ! c) = h \<and> \<not> block_is_received (contexts m ! c))
     \<and> (\<forall>r. is_valid_replica cfg r \<longrightarrow> fetch_queues m r \<noteq> None)"

definition waiting_for :: "BlockFetchManager \<Rightarrow> hash \<Rightarrow> NetEvent list" where
  "waiting_for m h =
     (case outstanding_reqs m h of None \<Rightarrow> [] | Some c \<Rightarrow> dependent_network_events (contexts m ! c))"

lemma fetch_okD:
  assumes "fetch_ok cfg m"
  shows "outstanding_reqs m h = Some c \<Longrightarrow> c < length (contexts m)"
    and "outstanding_reqs m h = Some c \<Longrightarrow> request (contexts m ! c) = h"
    and "outstanding_reqs m h = Some c \<Longrightarrow> \<not> block_is_received (contexts m ! c)"
    and "is_valid_replica cfg r \<Longrightarrow> \<exists>q. fetch_queues m r = Some q"
  using assms unfolding fetch_ok_def by blast+

lemma fetch_okI:
  assumes "\<And>h c. outstanding_reqs m h = Some c \<Longrightarrow>
      c < length (contexts m) \<and> request (contexts m ! c) = h \<and> \<not> block_is_received (contexts m ! c)"
    and "\<And>r. is_valid_replica cfg r \<Longrightarrow> fetch_queues m r \<noteq> None"
  shows "fetch_ok cfg m"
  using assms unfolding fetch_ok_def by blast

lemma fetch_ok_init:
  assumes "config_table_ok cfg"
  shows "fetch_ok cfg (init_configs cfg new_fetch_manager)"
proof -
  have same: "outstanding_reqs (fold fetch_add_replica is m) = outstanding_reqs m" for "is" m
    by (induction "is" arbitrary: m) (simp_all add: fetch_add_replica_def)
  have grow: "fetch_queues m r \<noteq> None \<or> r \<in> info_id ` set is \<Longrightarrow> fetch_queues (fold fetch_add_replica is m) r \<noteq> None"
    for "is" m r
    by (induction "is" arbitrary: m) (auto simp: fetch_add_replica_def)
  have "r \<in> info_id ` set (list_info cfg)" if v: "is_valid_replica cfg r" for r
  proof -
    obtain i where "(r, i) \<in> set (replica_map cfg)"
      using v by (auto simp: is_valid_replica_iff members_def)
    then have "info_id i = r" "i \<in> set (list_info cfg)"
      using assms by (auto simp: config_table_ok_def list_info_def intro: image_eqI[where x = "(r, i)"])
    then show ?thesis by blast
  qed
  then show ?thesis
    using same[of "list_info cfg" new_fetch_manager] grow[of new_fetch_manager _ "list_info cfg"]
    by (intro fetch_okI) (auto simp: init_configs_def new_fetch_manager_def)
qed

lemma request_context_ok:
  assumes "fetch_ok cfg m" and "request_context h m = (c, m')"
  shows "fetch_ok cfg m'" and "outstanding_reqs m' h = Some c" and "waiting_for m' k = waiting_for m k"
    and "fetch_queues m' = fetch_queues m"
proof -
  show "fetch_ok cfg m'"
  proof (cases "outstanding_reqs m h")
    case None
    then have m': "m' = m\<lparr>outstanding_reqs := (outstanding_reqs m)(h \<mapsto> length (contexts m)),
            contexts := contexts m @ [new_request h]\<rparr>" using assms(2) by (auto simp: request_context_def)
    show ?thesis unfolding m'
      using fetch_okD[OF assms(1)]
      by (intro fetch_okI) (auto simp: nth_append new_request_def less_Suc_eq split: if_splits)
  next
    case (Some c)
    then show ?thesis using assms by (simp add: request_context_def)
  qed
  show "outstanding_reqs m' h = Some c" "fetch_queues m' = fetch_queues m"
    using assms(2) by (auto simp: request_context_def split: option.splits)
  show "waiting_for m' k = waiting_for m k"
    using assms(2) fetch_okD(1)[OF assms(1)]
    by (auto simp: request_context_def waiting_for_def nth_append new_request_def split: option.splits if_splits)
qed

text \<open>A fetch request for a member keeps what waits and adds its own events.\<close>

lemma add_fetch_request_ok:
  assumes ok: "fetch_ok cfg m" and valid: "is_valid_replica cfg r"
  shows "\<exists>m'. add_fetch_request cfg h r es m = Inr m' \<and> fetch_ok cfg m'
    \<and> waiting_for m' k = (if k = h then waiting_for m h @ es else waiting_for m k)"
proof -
  obtain c m1 where c: "request_context h m = (c, m1)" by (cases "request_context h m")
  note r = request_context_ok[OF ok c]
  obtain q where q: "fetch_queues m1 r = Some q" using fetch_okD(4)[OF r(1) valid] by blast
  let ?m2 = "if was_requested_from r (contexts m1 ! c) then m1
    else m1\<lparr>fetch_queues := (fetch_queues m1)(r \<mapsto> queue_add_request (contexts m1) c q)\<rparr>"
  let ?m3 = "?m2\<lparr>contexts := (contexts m1)[c := add_network_events es (contexts m1 ! c)]\<rparr>"
  have run: "add_fetch_request cfg h r es m = Inr ?m3"
    using valid c q by (simp add: add_fetch_request_def)
  have cl: "c < length (contexts m1)" using fetch_okD(1)[OF r(1,2)] .
  have inj: "k' = h" if "outstanding_reqs m1 k' = Some c" for k'
    using fetch_okD(2)[OF r(1) that] fetch_okD(2)[OF r(1,2)] by simp
  have ok3: "fetch_ok cfg ?m3"
    using fetch_okD[OF r(1)] cl
    by (intro fetch_okI) (auto simp: nth_list_update add_network_events_def split: if_splits)
  have "waiting_for ?m3 k = (if k = h then waiting_for m1 h @ es else waiting_for m1 k)"
  proof (cases "k = h")
    case True
    then show ?thesis using r(2) cl by (simp add: waiting_for_def add_network_events_def)
  next
    case False
    then have "outstanding_reqs m1 k \<noteq> Some c" using inj by blast
    then have "contexts ?m3 ! c' = contexts m1 ! c'" if "outstanding_reqs m1 k = Some c'" for c'
      using that by (cases "c' = c") auto
    then show ?thesis using False by (simp add: waiting_for_def split: option.split)
  qed
  then show ?thesis using run ok3 r(3) by simp
qed

lemma deliver_block_ok:
  assumes ok: "fetch_ok cfg m" and d: "deliver_block h m = (es, m')"
  shows "es = waiting_for m h" and "fetch_ok cfg m'"
    and "waiting_for m' k = (if k = h then [] else waiting_for m k)"
proof -
  have "es = waiting_for m h \<and> fetch_ok cfg m' \<and> waiting_for m' k = (if k = h then [] else waiting_for m k)"
  proof (cases "outstanding_reqs m h")
    case None
    then show ?thesis using d ok by (auto simp: deliver_block_def waiting_for_def)
  next
    case (Some c)
    let ?m = "m\<lparr>contexts := (contexts m)[c := mark_received (contexts m ! c)],
        outstanding_reqs := (outstanding_reqs m)(h := None)\<rparr>"
    have cl: "c < length (contexts m)" by (rule fetch_okD(1)[OF ok Some])
    have inj: "k' = h" if "outstanding_reqs m k' = Some c" for k'
      using fetch_okD(2)[OF ok that] fetch_okD(2)[OF ok Some] by simp
    have m': "m' = ?m" and es: "es = waiting_for m h"
      using d Some cl by (auto simp: deliver_block_def waiting_for_def mark_received_def Let_def)
    have at: "contexts ?m ! c' = contexts m ! c'" "c' < length (contexts ?m)"
      if "outstanding_reqs ?m k' = Some c'" for k' c'
    proof -
      have k': "outstanding_reqs m k' = Some c'" "k' \<noteq> h" using that by (auto split: if_splits)
      then have "c' \<noteq> c" using inj by blast
      then show "contexts ?m ! c' = contexts m ! c'" "c' < length (contexts ?m)"
        using fetch_okD(1)[OF ok k'(1)] by simp_all
    qed
    have "fetch_ok cfg ?m"
    proof (rule fetch_okI)
      fix k' c' assume k': "outstanding_reqs ?m k' = Some c'"
      then have "outstanding_reqs m k' = Some c'" by (auto split: if_splits)
      then show "c' < length (contexts ?m) \<and> request (contexts ?m ! c') = k' \<and> \<not> block_is_received (contexts ?m ! c')"
        using fetch_okD(2,3)[OF ok] at[OF k'] by simp
    qed (use fetch_okD(4)[OF ok] in auto)
    moreover have "waiting_for ?m k = (if k = h then [] else waiting_for m k)"
      using at(1)[of k] by (auto simp: waiting_for_def split: option.splits)
    ultimately show ?thesis using m' es by simp
  qed
  then show "es = waiting_for m h" and "fetch_ok cfg m'"
    and "waiting_for m' k = (if k = h then [] else waiting_for m k)" by simp_all
qed

text \<open>Every event a node still has to deal with.\<close>

definition pending :: "('d, 'x) node_scheme \<Rightarrow> NetEvent set" where
  "pending s = set (queued (network_event_queue s)) \<union> (\<Union>h. set (waiting_for (block_fetch_manager s) h))"

fun event_source :: "NetEvent \<Rightarrow> replica_id" where
  "event_source (VoteNetEvent cert rid) = rid"
| "event_source (ProposalNetEvent a rid) = rid"
| "event_source (BlockReceiveNetEvent a rid) = rid"

lemma fetch_request_ok:
  assumes ok: "fetch_ok (config s) (block_fetch_manager s)" and valid: "is_valid_replica (config s) r"
  shows "\<exists>m. fetch_request h r es s = Inr (s\<lparr>block_fetch_manager := m\<rparr>) \<and> fetch_ok (config s) m
    \<and> pending (s\<lparr>block_fetch_manager := m\<rparr>) = pending s \<union> set es"
proof -
  obtain m where m: "add_fetch_request (config s) h r es (block_fetch_manager s) = Inr m"
    using add_fetch_request_ok[OF ok valid, of h es] by blast
  have ok': "fetch_ok (config s) m"
    and w: "\<And>k. waiting_for m k = (if k = h then waiting_for (block_fetch_manager s) h @ es
        else waiting_for (block_fetch_manager s) k)"
    using add_fetch_request_ok[OF ok valid, of h es] m by auto
  have "pending (s\<lparr>block_fetch_manager := m\<rparr>) = pending s \<union> set es"
    unfolding pending_def by (auto simp: w split: if_splits)
  then show ?thesis using m ok' by (intro exI[of _ m]) (simp add: fetch_request_def)
qed

lemma wait_for_missing_ok:
  assumes ok: "fetch_ok (config s) (block_fetch_manager s)" and valid: "is_valid_replica (config s) r"
    and missing: "has_missing d"
  shows "\<exists>m. wait_for_missing d r es s = Inr (s\<lparr>block_fetch_manager := m\<rparr>) \<and> fetch_ok (config s) m
    \<and> pending (s\<lparr>block_fetch_manager := m\<rparr>) = pending s \<union> set es"
proof (cases "missing_parent d")
  case None
  then obtain j where "missing_justify d = Some j" using missing by (auto simp: has_missing_def)
  then show ?thesis using None fetch_request_ok[OF ok valid, of j es] by (simp add: wait_for_missing_def)
next
  case (Some p)
  obtain m where m: "fetch_request p r es s = Inr (s\<lparr>block_fetch_manager := m\<rparr>)" "fetch_ok (config s) m"
    "pending (s\<lparr>block_fetch_manager := m\<rparr>) = pending s \<union> set es"
    using fetch_request_ok[OF ok valid] by blast
  show ?thesis
  proof (cases "missing_justify d")
    case None
    then show ?thesis using Some m by (auto simp: wait_for_missing_def)
  next
    case j: (Some j)
    have "fetch_ok (config (s\<lparr>block_fetch_manager := m\<rparr>)) (block_fetch_manager (s\<lparr>block_fetch_manager := m\<rparr>))"
      using m(2) by simp
    from fetch_request_ok[OF this, of r j "[]"] valid obtain m' where
      "fetch_request j r [] (s\<lparr>block_fetch_manager := m\<rparr>) = Inr (s\<lparr>block_fetch_manager := m'\<rparr>)"
      "fetch_ok (config s) m'" "pending (s\<lparr>block_fetch_manager := m'\<rparr>) = pending (s\<lparr>block_fetch_manager := m\<rparr>)"
      by auto
    then show ?thesis using Some j m by (auto simp: wait_for_missing_def)
  qed
qed

lemma deliver_ok:
  assumes ok: "fetch_ok (config s) (block_fetch_manager s)" and d: "deliver a s = (es, s')"
  shows "\<exists>m. s' = s\<lparr>block_fetch_manager := m\<rparr> \<and> fetch_ok (config s) m \<and> pending s = pending s' \<union> set es"
proof -
  let ?h = "get_hash (blk s a)" and ?m = "block_fetch_manager s"
  obtain m where m: "deliver_block ?h ?m = (es, m)" "s' = s\<lparr>block_fetch_manager := m\<rparr>"
    using d by (auto simp: deliver_def split: prod.splits)
  note w = deliver_block_ok[OF ok m(1)]
  have "(\<Union>h. set (waiting_for ?m h)) = (\<Union>h. set (waiting_for m h)) \<union> set es"
    using w(1,3) by (auto split: if_splits)
  then have "pending s = pending s' \<union> set es" using m(2) by (simp add: pending_def Un_assoc)
  then show ?thesis using w(2) m(2) by (intro exI[of _ m]) simp
qed

text \<open>When an event has been dealt with.\<close>

fun dealt_with :: "NetEvent \<Rightarrow> ('d, 'x) node_scheme \<Rightarrow> bool" where
  "dealt_with (VoteNetEvent cert rid) s \<longleftrightarrow> (\<exists>a. VoteEvent rid cert a \<in> set (queued (event_queue s)))"
| "dealt_with (ProposalNetEvent a rid) s \<longleftrightarrow> cache s (get_hash (blk s a)) \<noteq> None
     \<and> (block_height (blk s a) \<noteq> 0 \<longrightarrow> ProposalEvent rid a \<in> set (queued (event_queue s)))"
| "dealt_with (BlockReceiveNetEvent a rid) s \<longleftrightarrow> cache s (get_hash (blk s a)) \<noteq> None"

lemma validate_and_add_event_frame:
  assumes "validate_and_add_event e s = Inr s'"
  shows "\<exists>q. s' = s\<lparr>event_queue := q\<rparr> \<and> set (queued (event_queue s)) \<subseteq> set (queued q)
    \<and> (event_validate (blk_heap s) e = Inr True \<longrightarrow> e \<in> set (queued q))"
proof -
  obtain ok where ok: "event_validate (blk_heap s) e = Inr ok"
    and s': "s' = (if ok then s\<lparr>event_queue := add_event e (event_queue s)\<rparr> else s)"
    using assms by (auto simp: validate_and_add_event_def rbind_eq_Inr)
  show ?thesis
  proof (cases ok)
    case True
    then show ?thesis using ok s' by (intro exI[of _ "add_event e (event_queue s)"]) (simp del: set_append, auto)
  next
    case False
    then show ?thesis using ok s' by (intro exI[of _ "event_queue s"]) simp
  qed
qed

lemma store_insert_stored:
  assumes "store_insert a s = Inr (m, s')"
  shows "\<not> has_missing m \<Longrightarrow> cache s' (get_hash (blk s' a)) \<noteq> None"
    and "\<exists>hp st. s' = s\<lparr>blk_heap := hp, block_store := st\<rparr>"
proof -
  obtain st hp where r: "insert_block a (block_store s) (blk_heap s) = Inr (m, st, hp)"
    and s': "s' = s\<lparr>blk_heap := hp, block_store := st\<rparr>"
    using assms by (auto simp: store_insert_def rbind_eq_Inr)
  then show "\<exists>hp st. s' = s\<lparr>blk_heap := hp, block_store := st\<rparr>" by blast
  show "cache s' (get_hash (blk s' a)) \<noteq> None" if nm: "\<not> has_missing m"
  proof -
    have "get_hash (set_justify a j (set_parent a p hp0) ! a) = get_hash (hp0 ! a)" for j p hp0
      by (cases "a < length hp0") (simp_all add: set_justify_def set_parent_def get_hash_def list_update_beyond)
    moreover obtain p j where "hp = set_justify a j (set_parent a p (blk_heap s))"
      and "block_cache st = (if cache s (get_hash (blk s a)) = None
           then (cache s)(get_hash (blk s a) \<mapsto> a) else cache s)"
      by (rule insert_block_done[OF r nm]) simp
    ultimately show ?thesis using s' by auto
  qed
qed

text \<open>No event is lost.\<close>

lemma on_net_event_keeps:
  assumes ok: "fetch_ok (config s) (block_fetch_manager s)" and valid: "is_valid_replica (config s) (event_source e)"
    and run: "on_net_event e s = Inr s'"
  shows "fetch_ok (config s') (block_fetch_manager s') \<and> pending s \<subseteq> pending s' \<and> pending s' \<subseteq> insert e (pending s)
    \<and> (e \<in> pending s' \<or> dealt_with e s')"
proof -
  have block: "fetch_ok (config s') (block_fetch_manager s') \<and> pending s \<subseteq> pending s'
      \<and> pending s' \<subseteq> insert e (pending s) \<and> (e \<in> pending s' \<or> dealt_with e s')"
    if ins: "store_insert a s = Inr (d, s1)" and del: "deliver a s1 = (es, s2)"
      and done0: "\<not> has_missing d \<Longrightarrow> \<exists>q. s' = s2\<lparr>network_event_queue := add_events es (network_event_queue s2), event_queue := q\<rparr>
          \<and> dealt_with e s'"
      and missing: "has_missing d \<Longrightarrow> wait_for_missing d (event_source e) (es @ [e]) s2 = Inr s'" for a d s1 es s2
  proof -
    obtain hp st where s1: "s1 = s\<lparr>blk_heap := hp, block_store := st\<rparr>" using store_insert_stored(2)[OF ins] by blast
    have ok1: "fetch_ok (config s1) (block_fetch_manager s1)" and p1: "pending s1 = pending s"
      using ok s1 by (simp_all add: pending_def)
    obtain m where s2: "s2 = s1\<lparr>block_fetch_manager := m\<rparr>" "fetch_ok (config s1) m" "pending s1 = pending s2 \<union> set es"
      using deliver_ok[OF ok1 del] by blast
    show ?thesis
    proof (cases "has_missing d")
      case False
      then obtain q where s': "s' = s2\<lparr>network_event_queue := add_events es (network_event_queue s2), event_queue := q\<rparr>"
        and "dealt_with e s'" using done0 by blast
      moreover have "pending s' = pending s2 \<union> set es" unfolding s' pending_def
        by (simp add: add_events_def) blast
      moreover have "pending s = pending s2 \<union> set es" using s2(3) p1 by simp
      moreover have "fetch_ok (config s') (block_fetch_manager s')" using s' s2(1,2) by simp
      ultimately show ?thesis by blast
    next
      case True
      have ok2: "fetch_ok (config s2) (block_fetch_manager s2)" and v2: "is_valid_replica (config s2) (event_source e)"
        using s2 s1 valid by simp_all
      obtain m' where "s' = s2\<lparr>block_fetch_manager := m'\<rparr>" "fetch_ok (config s2) m'"
        "pending s' = pending s2 \<union> set (es @ [e])"
        using wait_for_missing_ok[OF ok2 v2 True, of "es @ [e]"] missing[OF True] by auto
      then show ?thesis using s2 p1 by auto
    qed
  qed
  show ?thesis
  proof (cases e)
    case (VoteNetEvent cert rid)
    show ?thesis
    proof (cases "get_block (pc_hash cert) (block_store s)")
      case None
      then have "fetch_request (pc_hash cert) rid [e] s = Inr s'" using run VoteNetEvent by simp
      then obtain m where "s' = s\<lparr>block_fetch_manager := m\<rparr>" "fetch_ok (config s) m" "pending s' = pending s \<union> {e}"
        using fetch_request_ok[OF ok, of rid "pc_hash cert" "[e]"] valid VoteNetEvent by auto
      then show ?thesis by auto
    next
      case (Some a)
      then have r: "validate_and_add_event (VoteEvent rid cert a) s = Inr s'" using run VoteNetEvent by simp
      obtain q where q: "s' = s\<lparr>event_queue := q\<rparr>"
        "event_validate (blk_heap s) (VoteEvent rid cert a) = Inr True \<longrightarrow> VoteEvent rid cert a \<in> set (queued q)"
        using validate_and_add_event_frame[OF r] by blast
      have "event_validate (blk_heap s) (VoteEvent rid cert a) = Inr True"
        using r by (auto simp: validate_and_add_event_def rbind_eq_Inr split: if_splits)
      then show ?thesis using q ok VoteNetEvent by (auto simp: pending_def)
    qed
  next
    case (ProposalNetEvent a rid)
    obtain d s1 where i: "store_insert a s = Inr (d, s1)" using run ProposalNetEvent by (auto simp: rbind_eq_Inr)
    obtain es s2 where dl: "deliver a s1 = (es, s2)" by (cases "deliver a s1")
    have rest: "(if \<not> has_missing d then validate_and_add_event (ProposalEvent rid a)
         (s2\<lparr>network_event_queue := add_events es (network_event_queue s2)\<rparr>)
       else wait_for_missing d rid (es @ [ProposalNetEvent a rid]) s2) = Inr s'"
      using run ProposalNetEvent i dl by simp
    have s12: "blk_heap s2 = blk_heap s1" "block_store s2 = block_store s1"
      using dl by (auto simp: deliver_def split: prod.splits)
    show ?thesis
    proof (rule block[OF i dl])
      assume nm: "\<not> has_missing d"
      let ?t = "s2\<lparr>network_event_queue := add_events es (network_event_queue s2)\<rparr>"
      have r: "validate_and_add_event (ProposalEvent rid a) ?t = Inr s'" using rest nm by simp
      obtain q where q: "s' = ?t\<lparr>event_queue := q\<rparr>"
        "event_validate (blk_heap ?t) (ProposalEvent rid a) = Inr True \<longrightarrow> ProposalEvent rid a \<in> set (queued q)"
        using validate_and_add_event_frame[OF r] by blast
      have "dealt_with e s'" using q store_insert_stored(1)[OF i nm] s12 ProposalNetEvent by simp
      then show "\<exists>q. s' = s2\<lparr>network_event_queue := add_events es (network_event_queue s2), event_queue := q\<rparr>
          \<and> dealt_with e s'" using q by auto
    qed (use rest ProposalNetEvent in simp)
  next
    case (BlockReceiveNetEvent a rid)
    obtain d s1 where i: "store_insert a s = Inr (d, s1)" using run BlockReceiveNetEvent by (auto simp: rbind_eq_Inr)
    obtain es s2 where dl: "deliver a s1 = (es, s2)" by (cases "deliver a s1")
    have rest: "(if \<not> has_missing d then
         Inr (s2\<lparr>network_event_queue := add_events es (network_event_queue s2)\<rparr>)
       else wait_for_missing d rid (es @ [BlockReceiveNetEvent a rid]) s2) = Inr s'"
      using run BlockReceiveNetEvent i dl by simp
    have s12: "blk_heap s2 = blk_heap s1" "block_store s2 = block_store s1"
      using dl by (auto simp: deliver_def split: prod.splits)
    show ?thesis
    proof (rule block[OF i dl])
      assume nm: "\<not> has_missing d"
      then have s': "s' = s2\<lparr>network_event_queue := add_events es (network_event_queue s2)\<rparr>" using rest by simp
      then have "dealt_with e s'" using store_insert_stored(1)[OF i nm] s12 BlockReceiveNetEvent by simp
      then show "\<exists>q. s' = s2\<lparr>network_event_queue := add_events es (network_event_queue s2), event_queue := q\<rparr>
          \<and> dealt_with e s'" using s' by (intro exI[of _ "event_queue s2"]) simp
    qed (use rest BlockReceiveNetEvent in simp)
  qed
qed

section \<open>The worker and the server\<close>

lemma set_set_insert [simp]: "set (set_insert h ks) = insert h (set ks)"
  by (induction ks) auto

lemma set_fold_set_insert [simp]: "set (fold set_insert hs ks) = set hs \<union> set ks"
  by (induction hs arbitrary: ks) auto

text \<open>A request that was taken but not answered is requested again.\<close>

lemma readd_extracted:
  assumes "extract_reqs w = (hs, w')"
  shows "set (fetch_reqs (readd_request hs w'')) = set (fetch_reqs w) \<union> set (fetch_reqs w'')"
  using assms by (simp add: extract_reqs_def readd_request_def)

lemma fetch_handler_blocks:
  assumes "b \<in> set (responses (fetch_handler req st hp))"
  shows "\<exists>h \<in> set (reqs req). \<exists>a. get_block h st = Some a \<and> \<not> flushed_from_memory (hp ! a) \<and> b = wire_block (hp ! a)"
proof -
  obtain h where h: "h \<in> set (reqs req)" and b: "b \<in> set (case get_block h st of None \<Rightarrow> []
      | Some a \<Rightarrow> if flushed_from_memory (hp ! a) then [] else [to_wire (hp ! a)])"
    using assms by (auto simp: fetch_handler_def)
  from b obtain a where "get_block h st = Some a" by (cases "get_block h st") simp_all
  then show ?thesis using h b by (auto simp: to_wire_def split: if_splits)
qed

section \<open>The shape of a network event's effect\<close>

lemma fetch_request_form: "fetch_request h r es s = Inr s' \<Longrightarrow> \<exists>m. s' = s\<lparr>block_fetch_manager := m\<rparr>"
  by (auto simp: fetch_request_def rbind_eq_Inr)

lemma wait_for_missing_form:
  assumes "wait_for_missing d r es s = Inr s'"
  shows "\<exists>m. s' = s\<lparr>block_fetch_manager := m\<rparr>"
proof -
  obtain es1 s1 where 1: "(case missing_parent d of None \<Rightarrow> Inr (es, s)
      | Some h \<Rightarrow> rbind (fetch_request h r es s) (\<lambda>s. Inr ([], s))) = Inr (es1, s1)"
    and 2: "(case missing_justify d of None \<Rightarrow> Inr s1 | Some h \<Rightarrow> fetch_request h r es1 s1) = Inr s'"
    using assms by (auto simp: wait_for_missing_def rbind_eq_Inr)
  obtain m where "s1 = s\<lparr>block_fetch_manager := m\<rparr>"
    using 1 fetch_request_form[of _ r es s s1]
    by (cases "missing_parent d") (auto simp: rbind_eq_Inr intro: that[of "block_fetch_manager s"])
  then show ?thesis using 2 fetch_request_form[of _ r es1 s1 s'] by (cases "missing_justify d") auto
qed

lemma deliver_form: "deliver a s = (es, s') \<Longrightarrow> \<exists>m. s' = s\<lparr>block_fetch_manager := m\<rparr>"
  by (auto simp: deliver_def split: prod.splits)

text \<open>The events a network event can add to the protocol's queue.\<close>

fun produced :: "NetEvent \<Rightarrow> ('d, 'x) node_scheme \<Rightarrow> MissingDependencies \<Rightarrow> Event set" where
  "produced (VoteNetEvent cert rid) s d =
     (case get_block (pc_hash cert) (block_store s) of None \<Rightarrow> {} | Some a \<Rightarrow> {VoteEvent rid cert a})"
| "produced (ProposalNetEvent a rid) s d = (if has_missing d then {} else {ProposalEvent rid a})"
| "produced (BlockReceiveNetEvent a rid) s d = {}"

fun block_part :: "NetEvent \<Rightarrow> ('d, 'x) node_scheme \<Rightarrow> (MissingDependencies \<times> ('d, 'x) node_scheme) result" where
  "block_part (VoteNetEvent cert rid) s = Inr (\<lparr>missing_parent = None, missing_justify = None\<rparr>, s)"
| "block_part (ProposalNetEvent a rid) s = store_insert a s"
| "block_part (BlockReceiveNetEvent a rid) s = store_insert a s"

lemma validate_and_add_event_form:
  assumes "validate_and_add_event e s = Inr s'"
  shows "\<exists>q. s' = s\<lparr>event_queue := q\<rparr> \<and> set (queued q) \<subseteq> insert e (set (queued (event_queue s)))"
proof -
  obtain ok where "s' = (if ok then s\<lparr>event_queue := add_event e (event_queue s)\<rparr> else s)"
    using assms by (auto simp: validate_and_add_event_def rbind_eq_Inr)
  then have "s' = s\<lparr>event_queue := (if ok then add_event e (event_queue s) else event_queue s)\<rparr>" by simp
  moreover have "set (queued (if ok then add_event e (event_queue s) else event_queue s))
      \<subseteq> insert e (set (queued (event_queue s)))" by (simp add: add_event_def) blast
  ultimately show ?thesis by blast
qed

lemma on_net_event_form:
  assumes run: "on_net_event e s = Inr s'"
  obtains d s1 m q nq where "block_part e s = Inr (d, s1)"
    and "s' = s1\<lparr>block_fetch_manager := m, event_queue := q, network_event_queue := nq\<rparr>"
    and "set (queued q) \<subseteq> set (queued (event_queue s1)) \<union> produced e s d"
proof (cases e)
  case (VoteNetEvent cert rid)
  show ?thesis
  proof (cases "get_block (pc_hash cert) (block_store s)")
    case None
    then obtain m where "s' = s\<lparr>block_fetch_manager := m\<rparr>"
      using run VoteNetEvent fetch_request_form[of "pc_hash cert" rid "[e]" s s'] by auto
    then show ?thesis using VoteNetEvent
      by (intro that[of _ s "network_event_queue s" "event_queue s" m]) auto
  next
    case (Some a)
    then obtain q where "s' = s\<lparr>event_queue := q\<rparr>" "set (queued q) \<subseteq> insert (VoteEvent rid cert a) (set (queued (event_queue s)))"
      using run VoteNetEvent validate_and_add_event_form[of "VoteEvent rid cert a" s s'] by auto
    then show ?thesis using VoteNetEvent Some
      by (intro that[of _ s "network_event_queue s" q "block_fetch_manager s"]) auto
  qed
next
  case (ProposalNetEvent a rid)
  obtain d s1 where i: "store_insert a s = Inr (d, s1)" using run ProposalNetEvent by (auto simp: rbind_eq_Inr)
  obtain es s2 where dl: "deliver a s1 = (es, s2)" by (cases "deliver a s1")
  obtain m where s2: "s2 = s1\<lparr>block_fetch_manager := m\<rparr>" using deliver_form[OF dl] by blast
  show ?thesis
  proof (cases "has_missing d")
    case True
    then have "wait_for_missing d rid (es @ [e]) s2 = Inr s'" using run ProposalNetEvent i dl by simp
    then obtain m' where "s' = s1\<lparr>block_fetch_manager := m'\<rparr>" using wait_for_missing_form s2 by fastforce
    then show ?thesis using ProposalNetEvent i
      by (intro that[of d s1 "network_event_queue s1" "event_queue s1" m']) auto
  next
    case False
    let ?t = "s2\<lparr>network_event_queue := add_events es (network_event_queue s2)\<rparr>"
    have "validate_and_add_event (ProposalEvent rid a) ?t = Inr s'" using run ProposalNetEvent i dl False by simp
    from validate_and_add_event_form[OF this] obtain q where "s' = ?t\<lparr>event_queue := q\<rparr>"
      "set (queued q) \<subseteq> insert (ProposalEvent rid a) (set (queued (event_queue s2)))" by auto
    then show ?thesis using ProposalNetEvent i s2 False
      by (intro that[of d s1 "add_events es (network_event_queue s1)" q m]) auto
  qed
next
  case (BlockReceiveNetEvent a rid)
  obtain d s1 where i: "store_insert a s = Inr (d, s1)" using run BlockReceiveNetEvent by (auto simp: rbind_eq_Inr)
  obtain es s2 where dl: "deliver a s1 = (es, s2)" by (cases "deliver a s1")
  obtain m where s2: "s2 = s1\<lparr>block_fetch_manager := m\<rparr>" using deliver_form[OF dl] by blast
  show ?thesis
  proof (cases "has_missing d")
    case True
    then have "wait_for_missing d rid (es @ [e]) s2 = Inr s'" using run BlockReceiveNetEvent i dl by simp
    then obtain m' where "s' = s1\<lparr>block_fetch_manager := m'\<rparr>" using wait_for_missing_form s2 by fastforce
    then show ?thesis using BlockReceiveNetEvent i
      by (intro that[of d s1 "network_event_queue s1" "event_queue s1" m']) auto
  next
    case False
    then have "s' = s2\<lparr>network_event_queue := add_events es (network_event_queue s2)\<rparr>"
      using run BlockReceiveNetEvent i dl by simp
    then show ?thesis using BlockReceiveNetEvent i s2
      by (intro that[of d s1 "add_events es (network_event_queue s1)" "event_queue s1" m]) auto
  qed
qed

section \<open>Claims\<close>

text \<open>C16: no message is lost on its way to the protocol: after the network thread has handled an event, every
event that was waiting still waits, and the event itself is either done with (its block stored and, for
a vote or a proposal, the protocol's event queued) or waits for a missing block.\<close>

theorem no_network_event_lost:
  assumes "fetch_ok (config s) (block_fetch_manager s)" and "is_valid_replica (config s) (event_source e)"
    and "on_net_event e s = Inr s'"
  shows "pending s \<subseteq> pending s' \<and> (e \<in> pending s' \<or> dealt_with e s')
    \<and> fetch_ok (config s') (block_fetch_manager s')"
  using on_net_event_keeps[OF assms] by blast

definition sample_node :: "unit node" where
  "sample_node = \<lparr>blk_heap = [genesis_block], genesis = 0, hqc_block = 0, hqc_wire = qc_serialize (new_qc zero_hash),
     b_lock = 0, b_exec = 0, vheight = 0, self_id = 0, config = sample_config, b_leaf = 0, decided_hash_index = (),
     disk = sample_fs 1000, block_store = genesis_store,
     block_fetch_manager = init_configs sample_config new_fetch_manager, event_queue = new_queue, network_event_queue = new_queue\<rparr>"

theorem no_network_event_lost_witness:
  "\<exists>s'. on_net_event (VoteNetEvent \<lparr>pc_hash = replicate 32 7, pc_sig = []\<rparr> 0) sample_node = Inr s'
     \<and> (VoteNetEvent \<lparr>pc_hash = replicate 32 7, pc_sig = []\<rparr> 0 \<in> pending s'
        \<or> dealt_with (VoteNetEvent \<lparr>pc_hash = replicate 32 7, pc_sig = []\<rparr> 0) s')"
proof -
  let ?e = "VoteNetEvent \<lparr>pc_hash = replicate 32 7, pc_sig = []\<rparr> 0"
  have c: "config_table_ok sample_config" by (simp add: config_table_ok_def sample_config_def sample_info_def)
  have f: "fetch_ok (config sample_node) (block_fetch_manager sample_node)"
    using fetch_ok_init[OF c] by (simp add: sample_node_def)
  have v: "is_valid_replica (config sample_node) 0" by (simp add: sample_node_def sample_config_def is_valid_replica_def)
  have "get_block (replicate 32 7) (block_store sample_node) = None"
    using seven_not_zero by (simp add: sample_node_def get_block_def genesis_store_def)
  then obtain s' where s': "on_net_event ?e sample_node = Inr s'"
    using fetch_request_ok[OF f v, of "replicate 32 7" "[?e]"] by auto
  show ?thesis using no_network_event_lost[OF f _ s'] v s' by auto
qed

text \<open>The clean-up of a fetch queue keeps exactly the requests that are still open, although it swaps elements
while it walks.\<close>

lemma fetch_cleanup_is_exact:
  "mset (fetch_gc_loop cs 0 l) = filter_mset (\<lambda>c. \<not> block_is_received (cs ! c)) (mset l)"
  using fetch_gc_loop_mset[of 0 l cs] by simp

text \<open>The manager never records whom it asked: a request for a block that is already outstanding is put on the
same replica's queue once more.\<close>

lemma requests_are_repeated:
  assumes "add_fetch_request cfg h r es m = Inr m'" and "is_valid_replica cfg r"
    and "\<forall>c \<in> set (contexts m). requested_from c = 0" and "fetch_ok cfg m"
  shows "(\<forall>c \<in> set (contexts m'). \<not> was_requested_from r c)
    \<and> (\<exists>c q. outstanding_reqs m' h = Some c \<and> fetch_queues m' r = Some q
        \<and> (\<exists>q0. fetch_queues m r = Some q0 \<and> q = queue_add_request (contexts (snd (request_context h m))) c q0))"
proof -
  obtain c m1 where r: "request_context h m = (c, m1)" by fastforce
  note ok = request_context_ok[OF assms(4) r]
  have z: "\<forall>x \<in> set (contexts m1). requested_from x = 0"
    using r assms(3) by (auto simp: request_context_def new_request_def split: option.splits)
  have cl: "c < length (contexts m1)" using fetch_okD(1)[OF ok(1) ok(2)] .
  have nr: "\<not> was_requested_from r (contexts m1 ! c)" using z cl nth_mem by (simp add: was_requested_from_def)
  obtain q0 where q0: "fetch_queues m1 r = Some q0" using fetch_okD(4)[OF ok(1) assms(2)] by auto
  have m': "m' = m1\<lparr>fetch_queues := (fetch_queues m1)(r \<mapsto> queue_add_request (contexts m1) c q0),
      contexts := (contexts m1)[c := add_network_events es (contexts m1 ! c)]\<rparr>"
    using assms(1,2) r nr q0 by (simp add: add_fetch_request_def)
  have "requested_from x = 0" if "x \<in> set (contexts m')" for x
  proof -
    have "x \<in> insert (add_network_events es (contexts m1 ! c)) (set (contexts m1))"
      using that set_update_subset_insert[of "contexts m1" c] by (auto simp: m')
    then show ?thesis using z nth_mem[OF cl] by (auto simp: add_network_events_def)
  qed
  then show ?thesis using m' ok(2,4) q0 r by (auto simp: was_requested_from_def)
qed

lemma requests_are_repeated_instance:
  "\<exists>m'. add_fetch_request sample_config (replicate 32 7) 0 [] (init_configs sample_config new_fetch_manager) = Inr m'
     \<and> (\<forall>c \<in> set (contexts m'). \<not> was_requested_from 0 c)"
proof -
  have "config_table_ok sample_config" by (simp add: config_table_ok_def sample_config_def sample_info_def)
  then have f: "fetch_ok sample_config (init_configs sample_config new_fetch_manager)" by (rule fetch_ok_init)
  have v: "is_valid_replica sample_config 0" by (simp add: sample_config_def is_valid_replica_def)
  have c: "contexts (init_configs sample_config new_fetch_manager) = []"
    by (simp add: init_configs_def list_info_def sample_config_def fetch_add_replica_def new_fetch_manager_def)
  obtain m' where m': "add_fetch_request sample_config (replicate 32 7) 0 [] (init_configs sample_config new_fetch_manager) = Inr m'"
    using add_fetch_request_ok[OF f v] by blast
  show ?thesis using requests_are_repeated[OF m' v _ f] c m' by auto
qed

end
