(* ===== verification/Vm.thy ===== *)
theory Vm
  imports Consensus
begin

text \<open>
  \<open>hotstuff/vm/speculative_exec_gadget.h\<close> and \<open>vm_control_interface.h\<close>: what lies between the bridges of
  \<open>Vm_Bridge\<close> and the replicated state machine. The template parameter \<open>VMType\<close> is the record \<open>vm_ops\<close>.

  The gadget keeps a \<open>forward_list\<close> with an iterator to its last element; the iterator is a position
  here, and the mutex of the gadget is a flag, since locking a held \<open>std::mutex\<close> again has no
  defined outcome. The theory shows that the gadget always holds the heights between the committed one
  and the head, that the worker of the control interface never throws, and that waiting for it ends.
\<close>

section \<open>The state machine as a parameter\<close>

record ('v, 'b, 'i) vm_ops =
  vm_init_clean :: "'v \<Rightarrow> 'v"
  vm_propose :: "'v \<Rightarrow> 'b \<times> 'v"
  vm_exec_block :: "'b \<Rightarrow> 'v \<Rightarrow> 'v"
  vm_log_commitment :: "'i \<Rightarrow> 'v \<Rightarrow> 'v"
  vm_rewind_to_last_commit :: "'v \<Rightarrow> 'v"
  nonempty_block_id :: "'b \<Rightarrow> 'i"
  empty_block_id :: 'i
  id_has_value :: "'i \<Rightarrow> bool"
  id_serialize :: "'i \<Rightarrow> bytes result"
  block_to_opaque :: "'b \<Rightarrow> bytes result"
  block_load :: "bytes \<Rightarrow> ('b \<times> bytes) result"

section \<open>The speculation gadget\<close>

record 'i SpeculativeExecGadget =
  height_map :: "(nat \<times> 'i) list"
  last_elt_iter :: "nat option"
  gadget_mtx :: bool
  speculation_head_hotstuff_height :: nat
  highest_committed_height :: nat

definition new_gadget :: "'i SpeculativeExecGadget" where
  "new_gadget = \<lparr>height_map = [], last_elt_iter = None, gadget_mtx = False,
     speculation_head_hotstuff_height = 1, highest_committed_height = 0\<rparr>"

definition gadget_lock :: "'i SpeculativeExecGadget \<Rightarrow> 'i SpeculativeExecGadget result" where
  "gadget_lock g =
     (if gadget_mtx g then Inl (Undefined_behaviour ''mutex locked twice by one thread'')
      else Inr (g\<lparr>gadget_mtx := True\<rparr>))"

definition gadget_unlock :: "'i SpeculativeExecGadget \<Rightarrow> 'i SpeculativeExecGadget" where
  "gadget_unlock g = g\<lparr>gadget_mtx := False\<rparr>"

definition gadget_empty :: "'i SpeculativeExecGadget \<Rightarrow> bool" where
  "gadget_empty g \<longleftrightarrow> last_elt_iter g = None"

definition add_height_pair :: "nat \<Rightarrow> 'i \<Rightarrow> 'i SpeculativeExecGadget \<Rightarrow> 'i SpeculativeExecGadget" where
  "add_height_pair hotstuff_height vm_value g =
     (if speculation_head_hotstuff_height g \<noteq> hotstuff_height then g
      else let g = g\<lparr>speculation_head_hotstuff_height := u64 (speculation_head_hotstuff_height g + 1)\<rparr> in
        case last_elt_iter g of
          None \<Rightarrow> g\<lparr>height_map := (hotstuff_height, vm_value) # height_map g, last_elt_iter := Some 0\<rparr>
        | Some i \<Rightarrow> g\<lparr>height_map := take (Suc i) (height_map g) @ [(hotstuff_height, vm_value)]
                         @ drop (Suc i) (height_map g),
                     last_elt_iter := Some (Suc i)\<rparr>)"

definition on_commit_hotstuff :: "nat \<Rightarrow> 'i SpeculativeExecGadget \<Rightarrow> ('i \<times> 'i SpeculativeExecGadget) result" where
  "on_commit_hotstuff hotstuff_height g =
     rbind (gadget_lock g) (\<lambda>g.
     if gadget_empty g then Inl (Runtime_error ''committing on empty map at hs height'')
     else case height_map g of
       [] \<Rightarrow> Inl (Undefined_behaviour ''front of an empty list'')
     | front # rest \<Rightarrow>
         if hotstuff_height \<noteq> fst front then Inl (Runtime_error ''gap in commit log!'')
         else Inr (snd front, gadget_unlock (g\<lparr>highest_committed_height := fst front, height_map := rest,
            last_elt_iter := (if rest = [] then None else map_option (\<lambda>i. i - 1) (last_elt_iter g))\<rparr>)))"

definition gadget_clear :: "'i SpeculativeExecGadget \<Rightarrow> 'i SpeculativeExecGadget result" where
  "gadget_clear g =
     rbind (gadget_lock g) (\<lambda>g. Inr (gadget_unlock (g\<lparr>height_map := [], last_elt_iter := None,
       speculation_head_hotstuff_height := u64 (highest_committed_height g + 1)\<rparr>)))"

definition gadget_init_from_disk :: "nat \<Rightarrow> 'i SpeculativeExecGadget \<Rightarrow> 'i SpeculativeExecGadget result" where
  "gadget_init_from_disk highest_decided_height g =
     gadget_clear (g\<lparr>highest_committed_height := highest_decided_height\<rparr>)"

definition get_lowest_speculative_hotstuff_height :: "'i SpeculativeExecGadget \<Rightarrow> (nat \<times> 'i) result" where
  "get_lowest_speculative_hotstuff_height g =
     (if gadget_empty g then Inl (Runtime_error ''can't access from empty list!'')
      else case height_map g of [] \<Rightarrow> Inl (Undefined_behaviour ''begin of an empty list'') | e # _ \<Rightarrow> Inr e)"

text \<open>The invariant: the iterator is at the end of the list, whose heights are one interval.\<close>

definition gadget_ok :: "'i SpeculativeExecGadget \<Rightarrow> bool" where
  "gadget_ok g \<longleftrightarrow>
     last_elt_iter g = (if height_map g = [] then None else Some (length (height_map g) - 1))
     \<and> map fst (height_map g) = [Suc (highest_committed_height g) ..< speculation_head_hotstuff_height g]
     \<and> highest_committed_height g < speculation_head_hotstuff_height g"

lemma gadget_ok_new: "gadget_ok new_gadget"
  by (simp add: gadget_ok_def new_gadget_def)

lemma gadget_ok_empty: "gadget_ok g \<Longrightarrow> gadget_empty g \<longleftrightarrow> height_map g = []"
  by (simp add: gadget_ok_def gadget_empty_def)

lemma gadget_ok_head:
  assumes "gadget_ok g" and "height_map g = []"
  shows "speculation_head_hotstuff_height g = Suc (highest_committed_height g)"
proof -
  have "[Suc (highest_committed_height g) ..< speculation_head_hotstuff_height g] = []"
    using assms by (metis gadget_ok_def list.simps(8))
  then show ?thesis using assms(1) by (auto simp: gadget_ok_def)
qed

lemma add_height_pair_head:
  assumes "gadget_ok g" and "h = speculation_head_hotstuff_height g" and "h + 1 < 18446744073709551616"
  shows "add_height_pair h v g = g\<lparr>speculation_head_hotstuff_height := h + 1,
      height_map := height_map g @ [(h, v)], last_elt_iter := Some (length (height_map g))\<rparr>"
  using assms by (auto simp: add_height_pair_def gadget_ok_def Let_def split: if_splits)

lemma gadget_ok_add:
  assumes "gadget_ok g" and "h + 1 < 18446744073709551616"
  shows "gadget_ok (add_height_pair h v g)"
proof (cases "h = speculation_head_hotstuff_height g")
  case True
  then show ?thesis using assms add_height_pair_head[OF assms(1) True assms(2)]
    by (auto simp: gadget_ok_def upt_Suc_append)
next
  case False
  then show ?thesis using assms by (simp add: add_height_pair_def)
qed

lemma on_commit_hotstuff_ok:
  assumes "gadget_ok g" and "\<not> gadget_mtx g" and "on_commit_hotstuff h g = Inr (v, g')"
  shows "gadget_ok g'" and "h = Suc (highest_committed_height g)" and "height_map g = (h, v) # height_map g'"
    and "highest_committed_height g' = h" and "\<not> gadget_mtx g'"
proof -
  from assms obtain k w rest where hm: "height_map g = (k, w) # rest"
    by (cases "height_map g") (auto simp: on_commit_hotstuff_def gadget_lock_def gadget_ok_def gadget_empty_def)
  then have i: "last_elt_iter g = Some (length rest)" using assms(1) by (simp add: gadget_ok_def)
  have e: "[Suc (highest_committed_height g) ..< speculation_head_hotstuff_height g] = k # map fst rest"
    using assms(1) hm by (simp add: gadget_ok_def)
  then have k: "k = Suc (highest_committed_height g)" "map fst rest = [Suc k ..< speculation_head_hotstuff_height g]"
    "k < speculation_head_hotstuff_height g"
    by (auto simp: upt_eq_Cons_conv)
  have g': "h = k" "v = w" "g' = g\<lparr>highest_committed_height := k, height_map := rest,
      last_elt_iter := (if rest = [] then None else Some (length rest - 1)), gadget_mtx := False\<rparr>"
    using assms(2,3) hm i by (auto simp: on_commit_hotstuff_def gadget_lock_def gadget_empty_def gadget_unlock_def
        split: if_splits)
  show "gadget_ok g'" using g' k by (auto simp: gadget_ok_def)
  show "h = Suc (highest_committed_height g)" "height_map g = (h, v) # height_map g'"
    "highest_committed_height g' = h" "\<not> gadget_mtx g'" using g' k hm by simp_all
qed

text \<open>Committing the next height succeeds whenever something has been logged for it.\<close>

lemma on_commit_hotstuff_next:
  assumes "gadget_ok g" and "\<not> gadget_mtx g" and "height_map g \<noteq> []"
  shows "\<exists>v g'. on_commit_hotstuff (Suc (highest_committed_height g)) g = Inr (v, g')"
proof -
  obtain k w rest where hm: "height_map g = (k, w) # rest" using assms(3) by (cases "height_map g") auto
  have "[Suc (highest_committed_height g) ..< speculation_head_hotstuff_height g] = k # map fst rest"
    using assms(1) hm by (simp add: gadget_ok_def)
  then have "k = Suc (highest_committed_height g)" by (simp add: upt_eq_Cons_conv)
  then show ?thesis using assms hm
    by (simp add: on_commit_hotstuff_def gadget_lock_def gadget_empty_def gadget_ok_def)
qed

lemma gadget_clear_ok:
  assumes "\<not> gadget_mtx g" and "highest_committed_height g + 1 < 18446744073709551616"
  shows "\<exists>g'. gadget_clear g = Inr g' \<and> gadget_ok g' \<and> height_map g' = []
    \<and> highest_committed_height g' = highest_committed_height g"
  using assms by (simp add: gadget_clear_def gadget_lock_def gadget_unlock_def gadget_ok_def)

section \<open>The control interface\<close>

text \<open>
  \<open>VMControlInterface\<close>: the buffers between the consensus thread and the thread that runs the
  machine. Every method takes the mutex for its whole length and the worker keeps it for a whole
  round of its loop, so the state changes only by whole methods and whole rounds. A thread that
  waits on the condition variable is resumed after the rounds of the worker that make its predicate
  true.
\<close>

record ('v, 'b, 'i) VMControlInterface =
  vm_instance :: 'v
  PROPOSAL_BUFFER_TARGET :: nat
  blocks_to_validate :: "'b option list"
  vm_proposal_buffer :: "'b list"
  additional_proposal_requests :: nat
  is_proposer :: bool
  highest_committed_id :: "'i option"
  vm_done_flag :: bool

definition new_vm_interface :: "'v \<Rightarrow> ('v, 'b, 'i) VMControlInterface" where
  "new_vm_interface v = \<lparr>vm_instance = v, PROPOSAL_BUFFER_TARGET = 3, blocks_to_validate = [],
     vm_proposal_buffer = [], additional_proposal_requests = 0, is_proposer = False,
     highest_committed_id = None, vm_done_flag = False\<rparr>"

definition vm_exists_work_to_do :: "('v, 'b, 'i) VMControlInterface \<Rightarrow> bool" where
  "vm_exists_work_to_do c \<longleftrightarrow> blocks_to_validate c \<noteq> []
     \<or> (additional_proposal_requests c > 0 \<and> is_proposer c)
     \<or> highest_committed_id c \<noteq> None"

definition interface_init_clean :: "('v, 'b, 'i) vm_ops \<Rightarrow> ('v, 'b, 'i) VMControlInterface
    \<Rightarrow> ('v, 'b, 'i) VMControlInterface" where
  "interface_init_clean vm c = c\<lparr>vm_instance := vm_init_clean vm (vm_instance c)\<rparr>"

definition set_proposer :: "('v, 'b, 'i) VMControlInterface \<Rightarrow> ('v, 'b, 'i) VMControlInterface" where
  "set_proposer c = c\<lparr>is_proposer := True\<rparr>"

definition clear_proposal_settings :: "('v, 'b, 'i) VMControlInterface \<Rightarrow> ('v, 'b, 'i) VMControlInterface" where
  "clear_proposal_settings c = c\<lparr>is_proposer := False, vm_proposal_buffer := [], additional_proposal_requests := 0\<rparr>"

definition submit_block_for_exec :: "'b option \<Rightarrow> ('v, 'b, 'i) VMControlInterface \<Rightarrow> ('v, 'b, 'i) VMControlInterface" where
  "submit_block_for_exec submission c =
     (let c = clear_proposal_settings c in c\<lparr>blocks_to_validate := blocks_to_validate c @ [submission]\<rparr>)"

definition log_commitment :: "('v, 'b, 'i) vm_ops \<Rightarrow> 'i \<Rightarrow> ('v, 'b, 'i) VMControlInterface
    \<Rightarrow> ('v, 'b, 'i) VMControlInterface" where
  "log_commitment vm block_id c =
     (if id_has_value vm block_id then c\<lparr>highest_committed_id := Some block_id\<rparr> else c)"

definition interface_buffer_is_empty :: "('v, 'b, 'i) VMControlInterface \<Rightarrow> bool" where
  "interface_buffer_is_empty c \<longleftrightarrow>
     vm_proposal_buffer c = [] \<and> PROPOSAL_BUFFER_TARGET c = 0 \<and> additional_proposal_requests c = 0"

definition interface_stop_proposals :: "('v, 'b, 'i) VMControlInterface \<Rightarrow> ('v, 'b, 'i) VMControlInterface" where
  "interface_stop_proposals c = c\<lparr>PROPOSAL_BUFFER_TARGET := 0\<rparr>"

text \<open>The inner loop of \<open>run\<close>: the blocks in the order of submission; a null block is skipped.\<close>

fun exec_pending :: "('v, 'b, 'i) vm_ops \<Rightarrow> 'b option list \<Rightarrow> 'v \<Rightarrow> 'v" where
  "exec_pending vm [] v = v"
| "exec_pending vm (None # bs) v = exec_pending vm bs v"
| "exec_pending vm (Some b # bs) v = exec_pending vm bs (vm_exec_block vm b v)"

text \<open>One round of \<open>run\<close>; with nothing to do, or once told to end, the thread changes nothing.\<close>

definition vm_run_step :: "('v, 'b, 'i) vm_ops \<Rightarrow> ('v, 'b, 'i) VMControlInterface
    \<Rightarrow> ('v, 'b, 'i) VMControlInterface result" where
  "vm_run_step vm c =
     (if vm_done_flag c \<or> \<not> vm_exists_work_to_do c then Inr c
      else
        let c = c\<lparr>vm_instance := exec_pending vm (blocks_to_validate c) (vm_instance c), blocks_to_validate := []\<rparr>;
            c = (case highest_committed_id c of None \<Rightarrow> c
                 | Some i \<Rightarrow> c\<lparr>vm_instance := vm_log_commitment vm i (vm_instance c), highest_committed_id := None\<rparr>) in
        if additional_proposal_requests c > 0 then
          if \<not> is_proposer c then Inl (Runtime_error ''vm thread woke up early'')
          else let (b, v) = vm_propose vm (vm_instance c) in
            Inr (c\<lparr>vm_instance := v, vm_proposal_buffer := vm_proposal_buffer c @ [b],
                   additional_proposal_requests := additional_proposal_requests c - 1\<rparr>)
        else Inr c)"

text \<open>
  \<open>AsyncWorker::wait_for_async_task\<close>: rounds of the worker until it has nothing to do. Once the
  worker has been told to end it does no more rounds and the wait does not return.
\<close>

definition rounds_left :: "('v, 'b, 'i) VMControlInterface \<Rightarrow> nat" where
  "rounds_left c = additional_proposal_requests c
     + (if blocks_to_validate c \<noteq> [] \<or> highest_committed_id c \<noteq> None then 1 else 0)"

lemma vm_run_step_rounds:
  assumes "vm_run_step vm c = Inr c'" and "vm_exists_work_to_do c" and "\<not> vm_done_flag c"
  shows "rounds_left c' < rounds_left c"
  using assms
  by (auto simp: vm_run_step_def rounds_left_def vm_exists_work_to_do_def Let_def
      split: if_splits option.splits prod.splits)

function wait_for_async_task :: "('v, 'b, 'i) vm_ops \<Rightarrow> ('v, 'b, 'i) VMControlInterface
    \<Rightarrow> ('v, 'b, 'i) VMControlInterface result" where
  "wait_for_async_task vm c =
     (if \<not> vm_exists_work_to_do c then Inr c
      else if vm_done_flag c then Inl Out_of_fuel
      else rbind (vm_run_step vm c) (wait_for_async_task vm))"
  by pat_completeness auto

termination
  by (relation "measure (\<lambda>(vm, c). rounds_left c)") (auto simp: vm_run_step_rounds)

declare wait_for_async_task.simps [simp del]

definition finish_work_and_force_rewind :: "('v, 'b, 'i) vm_ops \<Rightarrow> ('v, 'b, 'i) VMControlInterface
    \<Rightarrow> ('v, 'b, 'i) VMControlInterface result" where
  "finish_work_and_force_rewind vm c =
     rbind (wait_for_async_task vm c) (\<lambda>c. Inr (c\<lparr>vm_instance := vm_rewind_to_last_commit vm (vm_instance c)\<rparr>))"

text \<open>
  \<open>get_proposal\<close>: up to the wait, and from the wait on. Between the two the worker runs; its
  callers hold the gadget's mutex, so no block is submitted meanwhile.
\<close>

definition request_proposals :: "('v, 'b, 'i) VMControlInterface \<Rightarrow> ('v, 'b, 'i) VMControlInterface" where
  "request_proposals c =
     (if additional_proposal_requests c < PROPOSAL_BUFFER_TARGET c
      then c\<lparr>additional_proposal_requests := PROPOSAL_BUFFER_TARGET c\<rparr> else c)"

definition take_proposal :: "('v, 'b, 'i) VMControlInterface
    \<Rightarrow> ('b option \<times> ('v, 'b, 'i) VMControlInterface) result" where
  "take_proposal c =
     (if vm_done_flag c then Inr (None, c)
      else case vm_proposal_buffer c of
        [] \<Rightarrow> Inl (Undefined_behaviour ''front of an empty vector'')
      | out # rest \<Rightarrow>
          Inr (Some out, c\<lparr>vm_proposal_buffer := rest,
            additional_proposal_requests :=
              (if length rest > PROPOSAL_BUFFER_TARGET c then 0 else PROPOSAL_BUFFER_TARGET c - length rest)\<rparr>))"

definition get_proposal :: "('v, 'b, 'i) vm_ops \<Rightarrow> ('v, 'b, 'i) VMControlInterface
    \<Rightarrow> ('b option \<times> ('v, 'b, 'i) VMControlInterface) result" where
  "get_proposal vm c =
     (if \<not> is_proposer c then Inr (None, c)
      else if vm_done_flag c then Inr (None, c)
      else if vm_proposal_buffer c = [] then
        let c = request_proposals c in
        if PROPOSAL_BUFFER_TARGET c = 0 then Inr (None, c)
        else rbind (vm_run_step vm c) (\<lambda>c.
          if \<not> vm_done_flag c \<and> vm_proposal_buffer c = [] then Inl Out_of_fuel else take_proposal c)
      else take_proposal c)"

text \<open>
  The invariant: the worker is asked for proposals only in proposer mode, and it runs at most three
  proposals ahead.
\<close>

definition interface_ok :: "('v, 'b, 'i) VMControlInterface \<Rightarrow> bool" where
  "interface_ok c \<longleftrightarrow>
     (additional_proposal_requests c > 0 \<longrightarrow> is_proposer c)
     \<and> length (vm_proposal_buffer c) + additional_proposal_requests c \<le> 3
     \<and> PROPOSAL_BUFFER_TARGET c \<le> 3"

lemma interface_ok_new: "interface_ok (new_vm_interface v)"
  by (simp add: interface_ok_def new_vm_interface_def)

lemma interface_ok_updates:
  assumes "interface_ok c"
  shows "interface_ok (interface_init_clean vm c)" and "interface_ok (set_proposer c)"
    and "interface_ok (clear_proposal_settings c)" and "interface_ok (submit_block_for_exec b c)"
    and "interface_ok (log_commitment vm i c)" and "interface_ok (interface_stop_proposals c)"
    and "interface_ok (c\<lparr>vm_instance := v\<rparr>)"
  using assms
  by (auto simp: interface_ok_def interface_init_clean_def set_proposer_def clear_proposal_settings_def
      submit_block_for_exec_def log_commitment_def interface_stop_proposals_def Let_def)

lemma vm_run_step_ok:
  assumes "interface_ok c"
  shows "\<exists>c'. vm_run_step vm c = Inr c' \<and> interface_ok c'"
  using assms
  by (auto simp: vm_run_step_def interface_ok_def Let_def split: option.splits prod.splits)

lemma wait_for_async_task_ok:
  assumes "interface_ok c" and "\<not> vm_done_flag c"
  shows "\<exists>c'. wait_for_async_task vm c = Inr c' \<and> interface_ok c' \<and> \<not> vm_exists_work_to_do c'"
  using assms
proof (induction vm c rule: wait_for_async_task.induct)
  case (1 vm c)
  show ?case
  proof (cases "vm_exists_work_to_do c")
    case True
    obtain c1 where c1: "vm_run_step vm c = Inr c1" "interface_ok c1"
      using vm_run_step_ok 1(2) by blast
    moreover have "\<not> vm_done_flag c1"
      using c1(1) 1(3) by (auto simp: vm_run_step_def Let_def split: if_splits option.splits prod.splits)
    ultimately have "\<exists>c'. wait_for_async_task vm c1 = Inr c' \<and> interface_ok c' \<and> \<not> vm_exists_work_to_do c'"
      using 1(1) 1(3) True by simp
    then show ?thesis using True 1(3) c1(1) by (simp add: wait_for_async_task.simps[of vm c])
  next
    case False
    then show ?thesis using 1(2) by (simp add: wait_for_async_task.simps[of vm c])
  qed
qed

lemma take_proposal_ok:
  assumes "interface_ok c" and "is_proposer c" and "take_proposal c = Inr (out, c')"
  shows "interface_ok c'"
  using assms by (auto simp: take_proposal_def interface_ok_def split: if_splits list.splits)

lemma get_proposal_ok:
  assumes "interface_ok c"
  shows "\<exists>out c'. get_proposal vm c = Inr (out, c') \<and> interface_ok c'"
proof (cases "is_proposer c \<and> \<not> vm_done_flag c")
  case False
  then show ?thesis using assms by (auto simp: get_proposal_def)
next
  case p: True
  let ?r = "request_proposals c"
  have r: "is_proposer ?r" "\<not> vm_done_flag ?r" "PROPOSAL_BUFFER_TARGET ?r = PROPOSAL_BUFFER_TARGET c"
    "vm_proposal_buffer ?r = vm_proposal_buffer c"
    using p by (simp_all add: request_proposals_def)
  have taken: "\<exists>out c'. take_proposal d = Inr (out, c') \<and> interface_ok c'"
    if d: "interface_ok d" "is_proposer d" "vm_proposal_buffer d \<noteq> []" for d :: "('a, 'b, 'c) VMControlInterface"
  proof -
    have "\<exists>x. take_proposal d = Inr x"
      using d(3) by (cases "vm_proposal_buffer d") (simp_all add: take_proposal_def)
    then obtain out c' where t: "take_proposal d = Inr (out, c')" by (metis surj_pair)
    with take_proposal_ok[OF d(1,2) t] show ?thesis by blast
  qed
  show ?thesis
  proof (cases "vm_proposal_buffer c = []")
    case False
    then show ?thesis using p taken[of c] assms by (auto simp: get_proposal_def)
  next
    case e: True
    have rok: "interface_ok ?r" using assms p e by (auto simp: interface_ok_def request_proposals_def)
    show ?thesis
    proof (cases "PROPOSAL_BUFFER_TARGET c = 0")
      case True
      then show ?thesis using p e rok r by (simp add: get_proposal_def Let_def)
    next
      case False
      have req: "additional_proposal_requests ?r > 0" using False by (auto simp: request_proposals_def)
      obtain c1 where c1: "vm_run_step vm ?r = Inr c1" "interface_ok c1" using vm_run_step_ok[OF rok] by blast
      have "is_proposer c1" "vm_proposal_buffer c1 \<noteq> []"
        using c1(1) req r p
        by (auto simp: vm_run_step_def vm_exists_work_to_do_def Let_def split: if_splits option.splits prod.splits)
      then show ?thesis using taken[OF c1(2)] p e r False c1(1) by (auto simp: get_proposal_def Let_def)
    qed
  qed
qed

section \<open>Claims\<close>

text \<open>C22: waiting for the virtual machine ends: from every consistent interface whose worker is not being shut
down, the worker's rounds use up the work, and the interface is consistent and idle.\<close>

theorem waiting_for_the_vm_ends:
  assumes "interface_ok c" and "\<not> vm_done_flag c"
  shows "\<exists>c'. wait_for_async_task vm c = Inr c' \<and> interface_ok c' \<and> \<not> vm_exists_work_to_do c'"
  by (rule wait_for_async_task_ok[OF assms])

theorem waiting_for_the_vm_ends_witness:
  "\<forall>vm :: (nat, nat, nat) vm_ops. \<exists>c'. wait_for_async_task vm (submit_block_for_exec (Some 5) (new_vm_interface 0)) = Inr c'
     \<and> interface_ok c' \<and> \<not> vm_exists_work_to_do c'"
proof
  fix vm :: "(nat, nat, nat) vm_ops"
  show "\<exists>c'. wait_for_async_task vm (submit_block_for_exec (Some 5) (new_vm_interface 0)) = Inr c'
     \<and> interface_ok c' \<and> \<not> vm_exists_work_to_do c'"
    by (rule waiting_for_the_vm_ends)
      (simp_all add: interface_ok_def submit_block_for_exec_def clear_proposal_settings_def new_vm_interface_def Let_def)
qed

text \<open>C23: \<open>get_proposal\<close> always returns and leaves the interface consistent: the buffer and the requests never
exceed the target, and the worker never finds a request while the replica is not the proposer, so the
exception of its loop is never thrown.\<close>

theorem get_proposal_returns:
  assumes "interface_ok c"
  shows "\<exists>out c'. get_proposal vm c = Inr (out, c') \<and> interface_ok c'
    \<and> (\<exists>c''. vm_run_step vm c' = Inr c'' \<and> interface_ok c'')"
  using get_proposal_ok[OF assms, of vm] vm_run_step_ok[where vm = vm] by blast

theorem get_proposal_returns_witness:
  "\<forall>vm :: (nat, nat, nat) vm_ops. \<exists>out c'. get_proposal vm (set_proposer (new_vm_interface 0)) = Inr (out, c') \<and> interface_ok c'"
proof
  fix vm :: "(nat, nat, nat) vm_ops"
  show "\<exists>out c'. get_proposal vm (set_proposer (new_vm_interface 0)) = Inr (out, c') \<and> interface_ok c'"
    using get_proposal_returns[OF interface_ok_updates(2)[OF interface_ok_new], of vm 0] by blast
qed

text \<open>C24: the speculation gadget only lets the height after the last committed one commit, gives back the value
that was speculated for it, and stays consistent.\<close>

theorem commits_follow_the_heights:
  assumes "gadget_ok g" and "\<not> gadget_mtx g" and "on_commit_hotstuff h g = Inr (v, g')"
  shows "gadget_ok g' \<and> h = Suc (highest_committed_height g) \<and> height_map g = (h, v) # height_map g'
    \<and> highest_committed_height g' = h"
  using on_commit_hotstuff_ok[OF assms] by blast

theorem commits_follow_the_heights_witness:
  "\<exists>g'. on_commit_hotstuff 1 (add_height_pair 1 (7 :: nat) new_gadget) = Inr (7, g') \<and> gadget_ok g'"
proof -
  let ?g = "add_height_pair 1 (7 :: nat) new_gadget"
  obtain g' where r: "on_commit_hotstuff 1 ?g = Inr (7, g')"
    by (simp add: on_commit_hotstuff_def add_height_pair_def new_gadget_def gadget_lock_def gadget_empty_def Let_def)
  have "gadget_ok ?g" by (rule gadget_ok_add[OF gadget_ok_new]) simp
  moreover have "\<not> gadget_mtx ?g" by (simp add: add_height_pair_def new_gadget_def Let_def)
  ultimately show ?thesis using r commits_follow_the_heights[of ?g 1 7 g'] by blast
qed

end
