(* ===== verification/Vm_Bridge.thy ===== *)
theory Vm_Bridge
  imports Vm
begin

text \<open>
  \<open>hotstuff/vm\<close>: \<open>HotstuffVMBridge\<close>, \<open>NonspeculativeVMBridge\<close> and \<open>CountingVM\<close>.

  A commit is \<open>apply_block\<close> followed by \<open>notify_vm_of_commitment\<close>. The theory shows what a run
  of commits does when nothing has been speculated (every block is handed to the machine once, in
  order) and when exactly the committed blocks were speculated (the machine is left alone), that any
  other speculation makes \<open>apply_block\<close> lock the gadget's mutex twice, and that the buffer of the
  non-speculative bridge is a first-in first-out queue.
\<close>

section \<open>The speculative bridge\<close>

record ('v, 'b, 'i) HotstuffVMBridge =
  speculation_map :: "'i SpeculativeExecGadget"
  vm_interface :: "('v, 'b, 'i) VMControlInterface"
  bridge_initialized :: bool

definition new_bridge :: "'v \<Rightarrow> ('v, 'b, 'i) HotstuffVMBridge" where
  "new_bridge v = \<lparr>speculation_map = new_gadget, vm_interface = new_vm_interface v, bridge_initialized = False\<rparr>"

definition revert_to_last_commitment :: "('v, 'b, 'i) HotstuffVMBridge \<Rightarrow> ('v, 'b, 'i) HotstuffVMBridge result" where
  "revert_to_last_commitment br =
     rbind (gadget_clear (speculation_map br)) (\<lambda>g. Inr (br\<lparr>speculation_map := g\<rparr>))"

definition get_block_id :: "('v, 'b, 'i) vm_ops \<Rightarrow> 'b option \<Rightarrow> 'i" where
  "get_block_id vm b = (case b of Some v \<Rightarrow> nonempty_block_id vm v | None \<Rightarrow> empty_block_id vm)"

definition init_guard :: "bool \<Rightarrow> unit result" where
  "init_guard initialized = (if initialized then Inr () else Inl (Runtime_error ''uninitialized vm!''))"

definition bridge_init_clean :: "('v, 'b, 'i) vm_ops \<Rightarrow> ('v, 'b, 'i) HotstuffVMBridge \<Rightarrow> ('v, 'b, 'i) HotstuffVMBridge" where
  "bridge_init_clean vm br =
     br\<lparr>vm_interface := interface_init_clean vm (vm_interface br), bridge_initialized := True\<rparr>"

text \<open>\<open>init_from_disk\<close>; the machine's own method is the first argument.\<close>

definition bridge_init_from_disk ::
    "('v \<Rightarrow> 'v result) \<Rightarrow> nat \<Rightarrow> ('v, 'b, 'i) HotstuffVMBridge \<Rightarrow> ('v, 'b, 'i) HotstuffVMBridge result" where
  "bridge_init_from_disk vm_init decided_hotstuff_height br =
     rbind (vm_init (vm_instance (vm_interface br))) (\<lambda>v.
     rbind (gadget_init_from_disk decided_hotstuff_height (speculation_map br)) (\<lambda>g.
     Inr (br\<lparr>vm_interface := (vm_interface br)\<lparr>vm_instance := v\<rparr>, speculation_map := g,
             bridge_initialized := True\<rparr>)))"

text \<open>\<open>auto lock = speculation_map.lock();\<close> is released when the method returns.\<close>

definition make_empty_proposal :: "('v, 'b, 'i) vm_ops \<Rightarrow> nat \<Rightarrow> ('v, 'b, 'i) HotstuffVMBridge
    \<Rightarrow> (bytes \<times> ('v, 'b, 'i) HotstuffVMBridge) result" where
  "make_empty_proposal vm proposal_height br =
     rbind (init_guard (bridge_initialized br)) (\<lambda>_.
     rbind (gadget_lock (speculation_map br)) (\<lambda>g.
     let g = add_height_pair proposal_height (empty_block_id vm) g in
     Inr ([], br\<lparr>speculation_map := gadget_unlock g\<rparr>)))"

definition get_and_apply_next_proposal :: "('v, 'b, 'i) vm_ops \<Rightarrow> nat \<Rightarrow> ('v, 'b, 'i) HotstuffVMBridge
    \<Rightarrow> (bytes \<times> ('v, 'b, 'i) HotstuffVMBridge) result" where
  "get_and_apply_next_proposal vm proposal_height br =
     rbind (init_guard (bridge_initialized br)) (\<lambda>_.
     rbind (gadget_lock (speculation_map br)) (\<lambda>g.
     rbind (get_proposal vm (vm_interface br)) (\<lambda>(proposal, c).
     case proposal of
       None \<Rightarrow>
         let g = add_height_pair proposal_height (empty_block_id vm) g in
         Inr ([], br\<lparr>speculation_map := gadget_unlock g, vm_interface := c\<rparr>)
     | Some b \<Rightarrow>
         let g = add_height_pair proposal_height (nonempty_block_id vm b) g in
         rbind (block_to_opaque vm b) (\<lambda>bs.
         Inr (bs, br\<lparr>speculation_map := gadget_unlock g, vm_interface := c\<rparr>)))))"

definition bridge_apply_block ::
    "('v, 'b, 'i) vm_ops \<Rightarrow> ('d, 't) index_ops \<Rightarrow> HotstuffBlock \<Rightarrow> 't \<Rightarrow> ('v, 'b, 'i) HotstuffVMBridge
     \<Rightarrow> ('t \<times> ('v, 'b, 'i) HotstuffVMBridge) result" where
  "bridge_apply_block vm ix b txn br =
     rbind (init_guard (bridge_initialized br)) (\<lambda>_.
     rbind (gadget_lock (speculation_map br)) (\<lambda>g.
     let br = br\<lparr>speculation_map := g\<rparr> in
     rbind (try_vm_parse (block_load vm) b) (\<lambda>blk_value.
     let blk_id = get_block_id vm blk_value in
     rbind (id_serialize vm blk_id) (\<lambda>id_bytes.
     rbind (txn_add_decided_block ix b id_bytes txn) (\<lambda>txn.
     let submit = (\<lambda>br. Inr (txn, br\<lparr>
           speculation_map := gadget_unlock (add_height_pair (block_height b) blk_id (speculation_map br)),
           vm_interface := submit_block_for_exec blk_value (vm_interface br)\<rparr>)) in
     if \<not> gadget_empty (speculation_map br) then
       rbind (get_lowest_speculative_hotstuff_height (speculation_map br)) (\<lambda>(_, speculative_block_id).
       if blk_id = speculative_block_id
       then Inr (txn, br\<lparr>speculation_map := gadget_unlock (speculation_map br)\<rparr>)
       else
         rbind (revert_to_last_commitment br) (\<lambda>br.
         rbind (finish_work_and_force_rewind vm (vm_interface br)) (\<lambda>c.
         submit (br\<lparr>vm_interface := c\<rparr>))))
     else submit br)))))"

definition bridge_notify_commitment ::
    "('v, 'b, 'i) vm_ops \<Rightarrow> HotstuffBlock \<Rightarrow> ('v, 'b, 'i) HotstuffVMBridge \<Rightarrow> ('v, 'b, 'i) HotstuffVMBridge result" where
  "bridge_notify_commitment vm b br =
     rbind (init_guard (bridge_initialized br)) (\<lambda>_.
     rbind (on_commit_hotstuff (block_height b) (speculation_map br)) (\<lambda>(committed_block_id, g).
     Inr (br\<lparr>speculation_map := g, vm_interface := log_commitment vm committed_block_id (vm_interface br)\<rparr>)))"

definition put_vm_in_proposer_mode :: "('v, 'b, 'i) HotstuffVMBridge \<Rightarrow> ('v, 'b, 'i) HotstuffVMBridge result" where
  "put_vm_in_proposer_mode br =
     rbind (init_guard (bridge_initialized br)) (\<lambda>_. Inr (br\<lparr>vm_interface := set_proposer (vm_interface br)\<rparr>))"

definition bridge_buffer_is_empty :: "('v, 'b, 'i) HotstuffVMBridge \<Rightarrow> bool" where
  "bridge_buffer_is_empty br = interface_buffer_is_empty (vm_interface br)"

definition bridge_stop_proposals :: "('v, 'b, 'i) HotstuffVMBridge \<Rightarrow> ('v, 'b, 'i) HotstuffVMBridge" where
  "bridge_stop_proposals br = br\<lparr>vm_interface := interface_stop_proposals (vm_interface br)\<rparr>"

section \<open>The invariant of the bridge\<close>

definition bridge_ok :: "('v, 'b, 'i) HotstuffVMBridge \<Rightarrow> bool" where
  "bridge_ok br \<longleftrightarrow> gadget_ok (speculation_map br) \<and> \<not> gadget_mtx (speculation_map br)
     \<and> interface_ok (vm_interface br)"

lemma bridge_okD:
  assumes "bridge_ok br"
  shows "gadget_ok (speculation_map br)" and "\<not> gadget_mtx (speculation_map br)"
    and "interface_ok (vm_interface br)"
  using assms by (simp_all add: bridge_ok_def)

lemma bridge_ok_new: "bridge_ok (new_bridge v)"
  by (simp add: bridge_ok_def new_bridge_def gadget_ok_new interface_ok_new) (simp add: new_gadget_def)

lemma gadget_lock_free: "\<not> gadget_mtx g \<Longrightarrow> gadget_lock g = Inr (g\<lparr>gadget_mtx := True\<rparr>)"
  by (simp add: gadget_lock_def)

text \<open>The flag of the mutex is independent of the list.\<close>

lemma gadget_ok_mtx [simp]: "gadget_ok (g\<lparr>gadget_mtx := m\<rparr>) = gadget_ok g"
  by (simp add: gadget_ok_def)

lemma gadget_empty_mtx [simp]: "gadget_empty (g\<lparr>gadget_mtx := m\<rparr>) = gadget_empty g"
  by (simp add: gadget_empty_def)

lemma unlock_add_height_pair [simp]:
  "gadget_unlock (add_height_pair h v (g\<lparr>gadget_mtx := True\<rparr>)) = add_height_pair h v (gadget_unlock g)"
  by (auto simp: gadget_unlock_def add_height_pair_def Let_def split: option.splits)

lemma gadget_unlock_id [simp]: "\<not> gadget_mtx g \<Longrightarrow> gadget_unlock g = g"
  by (simp add: gadget_unlock_def)

lemma gadget_unlock_mtx [simp]: "\<not> gadget_mtx g \<Longrightarrow> gadget_unlock (g\<lparr>gadget_mtx := m\<rparr>) = g"
  by (simp add: gadget_unlock_def)

lemma mtx_add_height_pair [simp]: "gadget_mtx (add_height_pair h v g) = gadget_mtx g"
  by (auto simp: add_height_pair_def Let_def split: option.splits)

lemma bridge_init_clean_ok: "bridge_ok br \<Longrightarrow> bridge_ok (bridge_init_clean vm br)"
  by (simp add: bridge_ok_def bridge_init_clean_def interface_ok_updates)

lemma make_empty_proposal_ok:
  assumes "bridge_ok br" and "h + 1 < 18446744073709551616"
    and "make_empty_proposal vm h br = Inr (bs, br')"
  shows "bridge_ok br'" and "bs = []"
  using assms bridge_okD[OF assms(1)]
  by (auto simp: make_empty_proposal_def bridge_ok_def gadget_lock_free rbind_eq_Inr Let_def gadget_ok_add)

lemma get_and_apply_next_proposal_ok:
  assumes "bridge_ok br" and "h + 1 < 18446744073709551616"
    and "get_and_apply_next_proposal vm h br = Inr (bs, br')"
  shows "bridge_ok br'"
proof -
  note ok = bridge_okD[OF assms(1)]
  obtain out c where g: "get_proposal vm (vm_interface br) = Inr (out, c)" "interface_ok c"
    using get_proposal_ok[OF ok(3)] by blast
  show ?thesis using assms(2,3) ok g
    by (auto simp: get_and_apply_next_proposal_def bridge_ok_def gadget_lock_free rbind_eq_Inr Let_def gadget_ok_add
        split: option.splits)
qed

section \<open>Commits\<close>

definition bridge_commit ::
    "('v, 'b, 'i) vm_ops \<Rightarrow> ('d, 't) index_ops \<Rightarrow> HotstuffBlock \<Rightarrow> 't \<times> ('v, 'b, 'i) HotstuffVMBridge
     \<Rightarrow> ('t \<times> ('v, 'b, 'i) HotstuffVMBridge) result" where
  "bridge_commit vm ix b = (\<lambda>(txn, br).
     rbind (bridge_apply_block vm ix b txn br) (\<lambda>(txn, br).
     rbind (bridge_notify_commitment vm b br) (\<lambda>br. Inr (txn, br))))"

text \<open>Nothing speculated: the block is submitted, whatever the interface was doing for a proposer.\<close>

lemma bridge_commit_fresh:
  assumes ok: "bridge_ok br" and init: "bridge_initialized br"
    and empty: "height_map (speculation_map br) = []"
    and ht: "block_height b = Suc (highest_committed_height (speculation_map br))"
    and bound: "block_height b + 1 < 18446744073709551616"
    and parse: "try_vm_parse (block_load vm) b = Inr v"
    and ids: "id_serialize vm (get_block_id vm v) = Inr bs"
    and added: "txn_add_decided_block ix b bs txn = Inr txn'"
  shows "\<exists>br'. bridge_commit vm ix b (txn, br) = Inr (txn', br') \<and> bridge_ok br' \<and> bridge_initialized br'
    \<and> height_map (speculation_map br') = []
    \<and> highest_committed_height (speculation_map br') = block_height b
    \<and> vm_interface br' = log_commitment vm (get_block_id vm v) (submit_block_for_exec v (vm_interface br))"
proof -
  note g = bridge_okD[OF ok]
  let ?g = "speculation_map br" and ?h = "block_height b" and ?i = "get_block_id vm v"
  have head: "speculation_head_hotstuff_height ?g = ?h"
    using gadget_ok_head[OF g(1) empty] ht by simp
  let ?g1 = "add_height_pair ?h ?i ?g"
  have g1: "?g1 = ?g\<lparr>speculation_head_hotstuff_height := ?h + 1, height_map := [(?h, ?i)], last_elt_iter := Some 0\<rparr>"
    using add_height_pair_head[OF g(1) head[symmetric] bound, of ?i] empty by simp
  let ?br1 = "br\<lparr>speculation_map := ?g1, vm_interface := submit_block_for_exec v (vm_interface br)\<rparr>"
  have a: "bridge_apply_block vm ix b txn br = Inr (txn', ?br1)"
    using init g empty parse ids added
    by (simp add: bridge_apply_block_def init_guard_def gadget_lock_free Let_def gadget_ok_empty)
  let ?g2 = "?g\<lparr>speculation_head_hotstuff_height := ?h + 1, height_map := [], last_elt_iter := None,
      highest_committed_height := ?h\<rparr>"
  have c: "on_commit_hotstuff ?h ?g1 = Inr (?i, ?g2)"
    using g(2) g1 by (simp add: on_commit_hotstuff_def gadget_lock_def gadget_empty_def gadget_unlock_def)
  have ok2: "gadget_ok ?g2" by (simp add: gadget_ok_def)
  show ?thesis
    using a c init g(2,3) ok2
    by (simp add: bridge_commit_def bridge_notify_commitment_def init_guard_def bridge_ok_def interface_ok_updates)
qed

text \<open>The block was speculated: only the commitment is logged.\<close>

lemma bridge_commit_speculated:
  assumes ok: "bridge_ok br" and init: "bridge_initialized br"
    and spec: "height_map (speculation_map br) = (h, get_block_id vm v) # rest"
    and ht: "block_height b = h"
    and parse: "try_vm_parse (block_load vm) b = Inr v"
    and ids: "id_serialize vm (get_block_id vm v) = Inr bs"
    and added: "txn_add_decided_block ix b bs txn = Inr txn'"
  shows "\<exists>br'. bridge_commit vm ix b (txn, br) = Inr (txn', br') \<and> bridge_ok br' \<and> bridge_initialized br'
    \<and> height_map (speculation_map br') = rest
    \<and> highest_committed_height (speculation_map br') = h
    \<and> vm_interface br' = log_commitment vm (get_block_id vm v) (vm_interface br)"
proof -
  note g = bridge_okD[OF ok]
  let ?g = "speculation_map br"
  have ne: "\<not> gadget_empty ?g" using gadget_ok_empty[OF g(1)] spec by simp
  have a: "bridge_apply_block vm ix b txn br = Inr (txn', br)"
    using init g ne spec parse ids added
    by (simp add: bridge_apply_block_def init_guard_def gadget_lock_free Let_def
        get_lowest_speculative_hotstuff_height_def)
  have "h = Suc (highest_committed_height ?g)"
    using g(1) spec by (auto simp: gadget_ok_def upt_eq_Cons_conv dest!: sym[of _ "[_ ..< _]"])
  with on_commit_hotstuff_next[OF g(1,2)] spec obtain w g' where c: "on_commit_hotstuff h ?g = Inr (w, g')" by auto
  note c' = on_commit_hotstuff_ok[OF g(1,2) c]
  have "w = get_block_id vm v" "height_map g' = rest" using c'(3) spec by simp_all
  then show ?thesis
    using a c c' ht init g(3)
    by (simp add: bridge_commit_def bridge_notify_commitment_def init_guard_def bridge_ok_def interface_ok_updates)
qed

text \<open>Any other speculation: the mutex is held when \<open>clear\<close> locks it.\<close>

lemma bridge_apply_mismatch:
  assumes ok: "bridge_ok br" and init: "bridge_initialized br"
    and spec: "height_map (speculation_map br) = (h, i) # rest"
    and other: "i \<noteq> get_block_id vm v"
    and parse: "try_vm_parse (block_load vm) b = Inr v"
    and ids: "id_serialize vm (get_block_id vm v) = Inr bs"
    and added: "txn_add_decided_block ix b bs txn = Inr txn'"
  shows "bridge_apply_block vm ix b txn br = Inl (Undefined_behaviour ''mutex locked twice by one thread'')"
proof -
  note g = bridge_okD[OF ok]
  have ne: "\<not> gadget_empty (speculation_map br)" using gadget_ok_empty[OF g(1)] spec by simp
  then show ?thesis
    using init g spec parse ids added other
    by (simp add: bridge_apply_block_def init_guard_def gadget_lock_free Let_def
        get_lowest_speculative_hotstuff_height_def revert_to_last_commitment_def gadget_clear_def)
      (simp add: gadget_lock_def)
qed

text \<open>A run of commits on consecutive heights with nothing speculated.\<close>

fun parsed_blocks :: "('v, 'b, 'i) vm_ops \<Rightarrow> HotstuffBlock list \<Rightarrow> 'b option list \<Rightarrow> bool" where
  "parsed_blocks vm [] [] = True"
| "parsed_blocks vm (b # bs) (v # vs) =
     (try_vm_parse (block_load vm) b = Inr v \<and> parsed_blocks vm bs vs)"
| "parsed_blocks vm _ _ = False"

lemma blocks_log_commitment [simp]: "blocks_to_validate (log_commitment vm i c) = blocks_to_validate c"
  by (simp add: log_commitment_def)

lemma blocks_submit [simp]: "blocks_to_validate (submit_block_for_exec v c) = blocks_to_validate c @ [v]"
  by (simp add: submit_block_for_exec_def clear_proposal_settings_def Let_def)

lemma vm_instance_log_commitment [simp]: "vm_instance (log_commitment vm i c) = vm_instance c"
  by (simp add: log_commitment_def)

lemma vm_instance_submit [simp]: "vm_instance (submit_block_for_exec v c) = vm_instance c"
  by (simp add: submit_block_for_exec_def clear_proposal_settings_def Let_def)

lemma bridge_commits_fresh:
  assumes "bridge_ok br" and "bridge_initialized br" and "height_map (speculation_map br) = []"
    and "map block_height bs = [Suc hc ..< Suc hc + length bs]" and "hc = highest_committed_height (speculation_map br)"
    and "hc + length bs + 1 < 18446744073709551616"
    and "parsed_blocks vm bs vs"
    and total: "\<And>i. \<exists>x. id_serialize vm i = Inr x" "\<And>b x t. \<exists>t'. txn_add_decided_block ix b x t = Inr t'"
  shows "\<exists>txn' br'. rfold (bridge_commit vm ix) bs (txn, br) = Inr (txn', br') \<and> bridge_ok br'
    \<and> height_map (speculation_map br') = []
    \<and> highest_committed_height (speculation_map br') = hc + length bs
    \<and> blocks_to_validate (vm_interface br') = blocks_to_validate (vm_interface br) @ vs
    \<and> vm_instance (vm_interface br') = vm_instance (vm_interface br)"
  using assms(1-7)
proof (induction bs arbitrary: vs txn br hc)
  case Nil
  then show ?case by (cases vs) auto
next
  case (Cons b bs)
  from Cons.prems(7) obtain v vs' where vs: "vs = v # vs'" and v: "try_vm_parse (block_load vm) b = Inr v"
    and rest: "parsed_blocks vm bs vs'" by (cases vs) auto
  obtain x where x: "id_serialize vm (get_block_id vm v) = Inr x" using total(1) by blast
  obtain t where t: "txn_add_decided_block ix b x txn = Inr t" using total(2) by blast
  have h: "block_height b = Suc hc" "map block_height bs = [Suc (Suc hc) ..< Suc (Suc hc) + length bs]"
    using Cons.prems(4) by (simp_all add: upt_rec[of "Suc hc"] del: upt_Suc)
  obtain br1 where br1: "bridge_commit vm ix b (txn, br) = Inr (t, br1)" "bridge_ok br1" "bridge_initialized br1"
    "height_map (speculation_map br1) = []" "highest_committed_height (speculation_map br1) = Suc hc"
    "vm_interface br1 = log_commitment vm (get_block_id vm v) (submit_block_for_exec v (vm_interface br))"
    using bridge_commit_fresh[OF Cons.prems(1-3) _ _ v x t] h(1) Cons.prems(5,6) by auto
  show ?case
    using Cons.IH[OF br1(2-4) h(2) _ _ rest, of t] br1 Cons.prems(6) vs by auto
qed

text \<open>A run of commits of exactly what was speculated.\<close>

lemma bridge_commits_speculated:
  assumes "bridge_ok br" and "bridge_initialized br"
    and "height_map (speculation_map br) = zip (map block_height bs) (map (get_block_id vm) vs) @ rest"
    and "parsed_blocks vm bs vs"
    and total: "\<And>i. \<exists>x. id_serialize vm i = Inr x" "\<And>b x t. \<exists>t'. txn_add_decided_block ix b x t = Inr t'"
  shows "\<exists>txn' br'. rfold (bridge_commit vm ix) bs (txn, br) = Inr (txn', br') \<and> bridge_ok br'
    \<and> height_map (speculation_map br') = rest
    \<and> blocks_to_validate (vm_interface br') = blocks_to_validate (vm_interface br)
    \<and> vm_instance (vm_interface br') = vm_instance (vm_interface br)"
  using assms(1-4)
proof (induction bs arbitrary: vs txn br)
  case Nil
  then show ?case by (cases vs) auto
next
  case (Cons b bs)
  from Cons.prems(4) obtain v vs' where vs: "vs = v # vs'" and v: "try_vm_parse (block_load vm) b = Inr v"
    and rest: "parsed_blocks vm bs vs'" by (cases vs) auto
  obtain x where x: "id_serialize vm (get_block_id vm v) = Inr x" using total(1) by blast
  obtain t where t: "txn_add_decided_block ix b x txn = Inr t" using total(2) by blast
  obtain br1 where br1: "bridge_commit vm ix b (txn, br) = Inr (t, br1)" "bridge_ok br1" "bridge_initialized br1"
    "height_map (speculation_map br1) = zip (map block_height bs) (map (get_block_id vm) vs') @ rest"
    "vm_interface br1 = log_commitment vm (get_block_id vm v) (vm_interface br)"
    using bridge_commit_speculated[OF Cons.prems(1,2) _ _ v x t, of "block_height b"] Cons.prems(3) vs by auto
  show ?case using Cons.IH[OF br1(2-4) rest, of t] br1 by auto
qed

section \<open>The non-speculative bridge\<close>

record 'v NonspeculativeVMBridge =
  nonspec_vm :: 'v
  nonspec_initialized :: bool
  nonspec_buffer :: "bytes list"

definition new_nonspec_bridge :: "'v \<Rightarrow> 'v NonspeculativeVMBridge" where
  "new_nonspec_bridge v = \<lparr>nonspec_vm = v, nonspec_initialized = False, nonspec_buffer = []\<rparr>"

definition nonspec_init_clean :: "'v NonspeculativeVMBridge \<Rightarrow> 'v NonspeculativeVMBridge" where
  "nonspec_init_clean br = br\<lparr>nonspec_initialized := True\<rparr>"

definition nonspec_init_from_disk :: "'d \<Rightarrow> nat \<Rightarrow> 'v NonspeculativeVMBridge \<Rightarrow> 'v NonspeculativeVMBridge" where
  "nonspec_init_from_disk decided_block_index decided_hotstuff_height br = br\<lparr>nonspec_initialized := True\<rparr>"

definition nonspec_make_empty_proposal :: "nat \<Rightarrow> 'v NonspeculativeVMBridge \<Rightarrow> bytes result" where
  "nonspec_make_empty_proposal proposal_height br = rbind (init_guard (nonspec_initialized br)) (\<lambda>_. Inr [])"

text \<open>\<open>std::vector\<close>: \<open>back\<close> and \<open>pop_back\<close>, or nothing when it is empty.\<close>

definition pop_oldest :: "'v NonspeculativeVMBridge \<Rightarrow> (bytes \<times> 'v NonspeculativeVMBridge) option" where
  "pop_oldest br =
     (if nonspec_buffer br = [] then None
      else Some (last (nonspec_buffer br), br\<lparr>nonspec_buffer := butlast (nonspec_buffer br)\<rparr>))"

definition get_next_proposal :: "nat \<Rightarrow> 'v NonspeculativeVMBridge \<Rightarrow> (bytes \<times> 'v NonspeculativeVMBridge) result" where
  "get_next_proposal proposal_height br =
     rbind (init_guard (nonspec_initialized br)) (\<lambda>_.
     Inr (case pop_oldest br of None \<Rightarrow> ([], br) | Some x \<Rightarrow> x))"

definition nonspec_apply_block ::
    "('v, 'b, 'i) vm_ops \<Rightarrow> ('d, 't) index_ops \<Rightarrow> HotstuffBlock \<Rightarrow> 't \<Rightarrow> 'v NonspeculativeVMBridge
     \<Rightarrow> ('t \<times> 'v NonspeculativeVMBridge) result" where
  "nonspec_apply_block vm ix b txn br =
     rbind (init_guard (nonspec_initialized br)) (\<lambda>_.
     rbind (try_vm_parse (block_load vm) b) (\<lambda>blk_value.
     let blk_id = get_block_id vm blk_value in
     rbind (id_serialize vm blk_id) (\<lambda>id_bytes.
     rbind (txn_add_decided_block ix b id_bytes txn) (\<lambda>txn.
     case blk_value of
       None \<Rightarrow> Inl (Undefined_behaviour ''dereference of a null block'')
     | Some v \<Rightarrow> Inr (txn, br\<lparr>nonspec_vm := vm_exec_block vm v (nonspec_vm br)\<rparr>)))))"

definition nonspec_notify_commitment :: "HotstuffBlock \<Rightarrow> 'v NonspeculativeVMBridge \<Rightarrow> 'v NonspeculativeVMBridge" where
  "nonspec_notify_commitment b br = br"

definition nonspec_buffer_is_empty :: "'v NonspeculativeVMBridge \<Rightarrow> bool" where
  "nonspec_buffer_is_empty br \<longleftrightarrow> length (nonspec_buffer br) = 0"

definition add_proposal :: "bytes \<Rightarrow> 'v NonspeculativeVMBridge \<Rightarrow> 'v NonspeculativeVMBridge" where
  "add_proposal p br = br\<lparr>nonspec_buffer := p # nonspec_buffer br\<rparr>"

interpretation proposals: fifo_queue add_proposal pop_oldest "\<lambda>br. rev (nonspec_buffer br)"
proof
  fix q :: "'v NonspeculativeVMBridge" and x xs
  assume "rev (nonspec_buffer q) = x # xs"
  then have "nonspec_buffer q = rev xs @ [x]" by (metis rev.simps(2) rev_rev_ident)
  then show "\<exists>q'. pop_oldest q = Some (x, q') \<and> rev (nonspec_buffer q') = xs" by (simp add: pop_oldest_def)
qed (simp_all add: add_proposal_def pop_oldest_def)

text \<open>An empty or unparsable block has no value to execute.\<close>

lemma nonspec_apply_no_value:
  assumes "nonspec_initialized br" and "try_vm_parse (block_load vm) b = Inr None"
    and "id_serialize vm (empty_block_id vm) = Inr bs" and "txn_add_decided_block ix b bs txn = Inr txn'"
  shows "nonspec_apply_block vm ix b txn br = Inl (Undefined_behaviour ''dereference of a null block'')"
  using assms by (simp add: nonspec_apply_block_def init_guard_def get_block_id_def)

section \<open>The counting machine\<close>

type_synonym CountingVMBlockID = "bytes option"

record CountingVM =
  count_state :: nat
  last_committed_state :: nat

definition id_from_bytes :: "bytes \<Rightarrow> CountingVMBlockID result" where
  "id_from_bytes bs =
     (if length bs > 0 then rbind (xdr_from_opaque (get_opaque_vec XDR_MAX_LEN) bs) (\<lambda>v. Inr (Some v))
      else Inr None)"

definition counting_id_serialize :: "CountingVMBlockID \<Rightarrow> bytes result" where
  "counting_id_serialize i = (case i of None \<Rightarrow> Inr [] | Some v \<Rightarrow> xdr_to_opaque opaque_vec_size put_opaque_vec v)"

definition counting_init_clean :: "CountingVM \<Rightarrow> CountingVM" where
  "counting_init_clean v = v\<lparr>count_state := 0, last_committed_state := 0\<rparr>"

text \<open>\<open>make_unique<opaque_vec<>>(state)\<close> is the constructor with a length: that many zero bytes.\<close>

definition counting_propose :: "CountingVM \<Rightarrow> bytes \<times> CountingVM" where
  "counting_propose v =
     (let v = v\<lparr>count_state := u64 (count_state v + 1)\<rparr> in (replicate (count_state v) 0, v))"

definition counting_exec_block :: "bytes \<Rightarrow> CountingVM \<Rightarrow> CountingVM" where
  "counting_exec_block b v = v\<lparr>count_state := u64 (count_state v + 1)\<rparr>"

definition counting_log_commitment :: "CountingVMBlockID \<Rightarrow> CountingVM \<Rightarrow> CountingVM" where
  "counting_log_commitment i v = v"

definition counting_rewind :: "CountingVM \<Rightarrow> CountingVM" where
  "counting_rewind v = v\<lparr>count_state := last_committed_state v\<rparr>"

definition counting_vm :: "(CountingVM, bytes, CountingVMBlockID) vm_ops" where
  "counting_vm = \<lparr>vm_init_clean = counting_init_clean, vm_propose = counting_propose,
     vm_exec_block = counting_exec_block, vm_log_commitment = counting_log_commitment,
     vm_rewind_to_last_commit = counting_rewind, nonempty_block_id = Some, empty_block_id = None,
     id_has_value = (\<lambda>i. i \<noteq> None), id_serialize = counting_id_serialize,
     block_to_opaque = xdr_to_opaque opaque_vec_size put_opaque_vec,
     block_load = get_opaque_vec XDR_MAX_LEN\<rparr>"

text \<open>\<open>init_from_disk\<close>: the entries of the decided index in order; an entry without a value is skipped.\<close>

fun counting_init_from_disk ::
    "(hash \<Rightarrow> bytes result) \<Rightarrow> (hash \<times> CountingVMBlockID) list \<Rightarrow> CountingVM \<Rightarrow> CountingVM result" where
  "counting_init_from_disk load_vm_block [] v = Inr v"
| "counting_init_from_disk load_vm_block ((hash, vm_id) # es) v =
     (if vm_id \<noteq> None then
        rbind (load_vm_block hash) (\<lambda>loaded_block.
        counting_init_from_disk load_vm_block es
          (counting_log_commitment vm_id (counting_exec_block loaded_block v)))
      else counting_init_from_disk load_vm_block es v)"

lemma counting_replay:
  assumes "counting_init_from_disk ld es v = Inr v'"
  shows "count_state v' mod 2 ^ 64 = (count_state v + length (filter (\<lambda>(h, i). i \<noteq> None) es)) mod 2 ^ 64"
    and "last_committed_state v' = last_committed_state v"
proof -
  have "count_state v' mod 2 ^ 64 = (count_state v + length (filter (\<lambda>(h, i). i \<noteq> None) es)) mod 2 ^ 64
      \<and> last_committed_state v' = last_committed_state v"
    using assms
  proof (induction ld es v rule: counting_init_from_disk.induct)
    case (2 ld h i es v)
    show ?case
    proof (cases i)
      case None
      then show ?thesis using 2 by simp
    next
      case (Some w)
      then obtain lb where "ld h = Inr lb"
        "counting_init_from_disk ld es (counting_log_commitment i (counting_exec_block lb v)) = Inr v'"
        using 2(3) by (auto simp: rbind_eq_Inr)
      then show ?thesis using 2(1)[of lb] Some
        by (simp add: counting_log_commitment_def counting_exec_block_def u64_def mod_simps)
    qed
  qed simp
  then show "count_state v' mod 2 ^ 64 = (count_state v + length (filter (\<lambda>(h, i). i \<noteq> None) es)) mod 2 ^ 64"
    and "last_committed_state v' = last_committed_state v" by simp_all
qed

section \<open>Claims\<close>

text \<open>C11: on a replica that did not speculate, committing a run of consecutive blocks hands exactly their parsed
values, in order, to the virtual machine's queue, and the speculation gadget ends at the last height with
nothing speculated.\<close>

theorem commits_reach_the_vm:
  assumes "bridge_ok br" and "bridge_initialized br" and "height_map (speculation_map br) = []"
    and "map block_height bs = [Suc hc ..< Suc hc + length bs]" and "hc = highest_committed_height (speculation_map br)"
    and "hc + length bs + 1 < 18446744073709551616"
    and "parsed_blocks vm bs vs"
    and "\<And>i. \<exists>x. id_serialize vm i = Inr x" and "\<And>b x t. \<exists>t'. txn_add_decided_block ix b x t = Inr t'"
  shows "\<exists>txn' br'. rfold (bridge_commit vm ix) bs (txn, br) = Inr (txn', br') \<and> bridge_ok br'
    \<and> height_map (speculation_map br') = []
    \<and> highest_committed_height (speculation_map br') = hc + length bs
    \<and> blocks_to_validate (vm_interface br') = blocks_to_validate (vm_interface br) @ vs
    \<and> vm_instance (vm_interface br') = vm_instance (vm_interface br)"
  by (rule bridge_commits_fresh[OF assms])

definition list_index :: "(bytes list, bytes list) index_ops" where
  "list_index = \<lparr>open_txn = Inr, txn_add_decided_block = (\<lambda>b x t. Inr (t @ [x])), set_qc_on_top_block = (\<lambda>qc. Inr),
     commit_txn = (\<lambda>t d. Inr t), get_highest_qc = (\<lambda>d. Inr (qc_serialize (new_qc zero_hash)))\<rparr>"

lemma counting_id_total: "\<exists>x. id_serialize counting_vm i = Inr x"
  by (cases i) (simp_all add: counting_vm_def counting_id_serialize_def xdr_to_opaque_def opaque_vec_size_put)

lemma list_index_total: "\<exists>t'. txn_add_decided_block list_index b x t = Inr t'"
  by (simp add: list_index_def)

lemma sample_block_parse: "try_vm_parse (block_load counting_vm) sample_block = Inr None"
  by (simp add: try_vm_parse_def has_body_def sample_block_def sample_wire_def)

definition ready_bridge :: "(CountingVM, bytes, CountingVMBlockID) HotstuffVMBridge" where
  "ready_bridge = bridge_init_clean counting_vm (new_bridge \<lparr>count_state = 0, last_committed_state = 0\<rparr>)"

lemma ready_bridge_facts:
  shows "bridge_ok ready_bridge" and "bridge_initialized ready_bridge" and "speculation_map ready_bridge = new_gadget"
proof -
  show "bridge_ok ready_bridge" unfolding ready_bridge_def by (rule bridge_init_clean_ok[OF bridge_ok_new])
  show "bridge_initialized ready_bridge" by (simp add: ready_bridge_def bridge_init_clean_def)
  show "speculation_map ready_bridge = new_gadget" by (simp add: ready_bridge_def bridge_init_clean_def new_bridge_def)
qed

theorem commits_reach_the_vm_witness:
  "\<exists>txn' br'. rfold (bridge_commit counting_vm list_index) [sample_block] ([], ready_bridge) = Inr (txn', br')
     \<and> blocks_to_validate (vm_interface br') = blocks_to_validate (vm_interface ready_bridge) @ [None]"
proof -
  have "\<exists>txn' br'. rfold (bridge_commit counting_vm list_index) [sample_block] ([], ready_bridge) = Inr (txn', br') \<and> bridge_ok br'
    \<and> height_map (speculation_map br') = [] \<and> highest_committed_height (speculation_map br') = 0 + length [sample_block]
    \<and> blocks_to_validate (vm_interface br') = blocks_to_validate (vm_interface ready_bridge) @ [None]
    \<and> vm_instance (vm_interface br') = vm_instance (vm_interface ready_bridge)"
    by (rule commits_reach_the_vm[OF ready_bridge_facts(1,2)])
      (simp_all add: ready_bridge_facts(3) new_gadget_def sample_block_parse counting_id_total list_index_total,
       simp add: sample_block_def)
  then show ?thesis by blast
qed

text \<open>C15: on the proposer, committing blocks in the order in which they were speculated confirms them from the
gadget and does not execute them a second time.\<close>

theorem speculated_commits_run_once:
  assumes "bridge_ok br" and "bridge_initialized br"
    and "height_map (speculation_map br) = zip (map block_height bs) (map (get_block_id vm) vs) @ rest"
    and "parsed_blocks vm bs vs"
    and "\<And>i. \<exists>x. id_serialize vm i = Inr x" and "\<And>b x t. \<exists>t'. txn_add_decided_block ix b x t = Inr t'"
  shows "\<exists>txn' br'. rfold (bridge_commit vm ix) bs (txn, br) = Inr (txn', br') \<and> bridge_ok br'
    \<and> height_map (speculation_map br') = rest
    \<and> blocks_to_validate (vm_interface br') = blocks_to_validate (vm_interface br)
    \<and> vm_instance (vm_interface br') = vm_instance (vm_interface br)"
  by (rule bridge_commits_speculated[OF assms])

definition speculating_bridge :: "CountingVMBlockID \<Rightarrow> (CountingVM, bytes, CountingVMBlockID) HotstuffVMBridge" where
  "speculating_bridge i = ready_bridge\<lparr>speculation_map := add_height_pair 1 i new_gadget\<rparr>"

lemma speculating_bridge_facts:
  shows "bridge_ok (speculating_bridge i)" and "bridge_initialized (speculating_bridge i)"
    and "height_map (speculation_map (speculating_bridge i)) = [(1, i)]"
  using ready_bridge_facts gadget_ok_add[OF gadget_ok_new, of 1 i]
  by (simp_all add: speculating_bridge_def bridge_ok_def)
     (simp_all add: add_height_pair_def new_gadget_def Let_def)

theorem speculated_commits_run_once_witness:
  "\<exists>txn' br'. rfold (bridge_commit counting_vm list_index) [sample_block] ([], speculating_bridge None) = Inr (txn', br')
     \<and> blocks_to_validate (vm_interface br') = blocks_to_validate (vm_interface (speculating_bridge None))"
proof -
  have "get_block_id counting_vm None = None" "block_height sample_block = 1"
    by (simp_all add: get_block_id_def counting_vm_def sample_block_def)
  then have "height_map (speculation_map (speculating_bridge None)) =
      zip (map block_height [sample_block]) (map (get_block_id counting_vm) [None]) @ []"
    by (simp add: speculating_bridge_facts(3))
  from speculated_commits_run_once[OF speculating_bridge_facts(1,2) this _ counting_id_total list_index_total, of "[]"]
  show ?thesis using sample_block_parse by auto
qed

text \<open>C38: when the decided block is not the one that was speculated at its height, \<open>apply_block\<close> holds the
gadget's mutex and \<open>revert_to_last_commitment\<close> locks it again in the same thread: the recovery path
cannot be taken.\<close>

theorem wrong_speculation_locks_twice:
  assumes "bridge_ok br" and "bridge_initialized br"
    and "height_map (speculation_map br) = (h, i) # rest" and "i \<noteq> get_block_id vm v"
    and "try_vm_parse (block_load vm) b = Inr v"
    and "id_serialize vm (get_block_id vm v) = Inr bs" and "txn_add_decided_block ix b bs txn = Inr txn'"
  shows "bridge_apply_block vm ix b txn br = Inl (Undefined_behaviour ''mutex locked twice by one thread'')"
  by (rule bridge_apply_mismatch[OF assms])

theorem wrong_speculation_locks_twice_witness:
  "bridge_apply_block counting_vm list_index sample_block [] (speculating_bridge (Some []))
     = Inl (Undefined_behaviour ''mutex locked twice by one thread'')"
  by (rule wrong_speculation_locks_twice[OF speculating_bridge_facts(1,2) _ _ sample_block_parse])
    (auto simp: speculating_bridge_facts(3) get_block_id_def counting_vm_def counting_id_serialize_def list_index_def)

text \<open>\<open>CountingVM::log_commitment\<close> does not move the committed state: after any number of executed and
committed blocks a rewind goes back to zero.\<close>

lemma counting_rewind_loses_commits:
  "count_state (counting_rewind (fold (\<lambda>(b, i) v. counting_log_commitment i (counting_exec_block b v)) l
     (counting_init_clean v))) = 0"
proof -
  have "last_committed_state (fold (\<lambda>(b, i) v. counting_log_commitment i (counting_exec_block b v)) l w)
      = last_committed_state w" for w
    by (induction l arbitrary: w) (auto simp: counting_log_commitment_def counting_exec_block_def)
  then show ?thesis by (simp add: counting_rewind_def counting_init_clean_def)
qed

end
