(* ===== verification/Lmdb.thy ===== *)
theory Lmdb
  imports Block_IO Big_Endian
begin

text \<open>
  \<open>lmdb/lmdb_types.{h,cc}\<close> and \<open>lmdb/lmdb_wrapper.{h,cc}\<close>: the C++ layer over the LMDB
  library. The library itself is not part of the repository: its entry points are the fields of the
  record \<open>mdb\<close>, each returning its code first, and what the wrapper relies on of them is the
  predicate \<open>mdb_laws\<close>, stated over a view of environments, transactions and cursors.
  \<open>map_mdb\<close> is a concrete library that satisfies them.
\<close>

section \<open>The library as a parameter\<close>

definition MDB_NOTFOUND :: int where "MDB_NOTFOUND = - 30798"
definition MDB_KEYEXIST :: int where "MDB_KEYEXIST = - 30799"

datatype cursor_op = MDB_FIRST | MDB_NEXT

type_synonym dbi = nat
type_synonym kv = "bytes \<times> bytes"

record ('e, 't, 'c) mdb =
  mdb_env_open :: "string \<Rightarrow> 'e \<Rightarrow> int \<times> 'e"
  mdb_env_sync :: "'e \<Rightarrow> int"
  mdb_txn_begin :: "bool \<Rightarrow> 'e \<Rightarrow> int \<times> 't"
  mdb_txn_commit :: "'t \<Rightarrow> 'e \<Rightarrow> int \<times> 'e"
  mdb_dbi_open :: "string \<Rightarrow> bool \<Rightarrow> 't \<Rightarrow> int \<times> dbi \<times> 't"
  mdb_get :: "dbi \<Rightarrow> bytes \<Rightarrow> 't \<Rightarrow> int \<times> bytes"
  mdb_put :: "dbi \<Rightarrow> bytes \<Rightarrow> bytes \<Rightarrow> nat \<Rightarrow> 't \<Rightarrow> int \<times> 't"
  mdb_del :: "dbi \<Rightarrow> bytes \<Rightarrow> bytes option \<Rightarrow> 't \<Rightarrow> int \<times> 't"
  mdb_entries :: "dbi \<Rightarrow> 't \<Rightarrow> int \<times> nat"
  mdb_cursor_open :: "dbi \<Rightarrow> 't \<Rightarrow> int \<times> 'c"
  mdb_cursor_get :: "cursor_op \<Rightarrow> 'c \<Rightarrow> int \<times> kv \<times> 'c"

section \<open>\<open>lmdb_types\<close>\<close>

text \<open>The text of a \<open>dberror\<close>; \<open>strerror\<close> is \<open>mdb_strerror\<close>.\<close>

definition mkWhat :: "(int \<Rightarrow> string) \<Rightarrow> int \<Rightarrow> string option \<Rightarrow> string" where
  "mkWhat strerror code msg =
     (let ret = (case msg of None \<Rightarrow> [] | Some m \<Rightarrow> m);
          ret = (if code \<noteq> 0 then (if ret \<noteq> [] then ret @ '': '' else ret) @ strerror code else ret)
      in if ret = [] then ''dberror'' else ret)"

definition check :: "int \<Rightarrow> unit result" where
  "check err = (if err \<noteq> 0 then Inl (Db_error err) else Inr ())"

text \<open>\<open>dbval("...")\<close>: the characters without the closing NUL.\<close>

definition dbval_str :: "string \<Rightarrow> bytes" where
  "dbval_str s = map of_char s"

text \<open>The object representation of a \<open>uint64_t\<close> on a little-endian machine.\<close>

definition dbval_of_u64 :: "nat \<Rightarrow> bytes" where
  "dbval_of_u64 n = rev (be_bytes 8 (word_of_nat n :: 64 word))"

definition dbval_uint64 :: "bytes \<Rightarrow> nat result" where
  "dbval_uint64 v = (if length v \<noteq> 8 then Inl (Db_error 0) else Inr (be_val (rev v)))"

definition dbval_to_xdr :: "(bytes \<Rightarrow> ('a \<times> bytes) result) \<Rightarrow> bytes \<Rightarrow> 'a result" where
  "dbval_to_xdr load d = xdr_from_opaque load d"

definition env_open_at :: "('e, 't, 'c) mdb \<Rightarrow> string \<Rightarrow> 'e \<Rightarrow> 'e result" where
  "env_open_at m path e = (let (err, e) = mdb_env_open m path e in rbind (check err) (\<lambda>_. Inr e))"

definition env_sync :: "('e, 't, 'c) mdb \<Rightarrow> 'e \<Rightarrow> unit result" where
  "env_sync m e = check (mdb_env_sync m e)"

definition env_rbegin :: "('e, 't, 'c) mdb \<Rightarrow> 'e \<Rightarrow> 't result" where
  "env_rbegin m e = (let (err, t) = mdb_txn_begin m True e in rbind (check err) (\<lambda>_. Inr t))"

definition env_wbegin :: "('e, 't, 'c) mdb \<Rightarrow> 'e \<Rightarrow> 't result" where
  "env_wbegin m e = (let (err, t) = mdb_txn_begin m False e in rbind (check err) (\<lambda>_. Inr t))"

definition txn_commit :: "('e, 't, 'c) mdb \<Rightarrow> 't \<Rightarrow> 'e \<Rightarrow> 'e result" where
  "txn_commit m t e = (let (err, e) = mdb_txn_commit m t e in rbind (check err) (\<lambda>_. Inr e))"

definition txn_open :: "('e, 't, 'c) mdb \<Rightarrow> string \<Rightarrow> bool \<Rightarrow> 't \<Rightarrow> (dbi \<times> 't) result" where
  "txn_open m name create t =
     (let (err, d, t) = mdb_dbi_open m name create t in rbind (check err) (\<lambda>_. Inr (d, t)))"

definition txn_stat :: "('e, 't, 'c) mdb \<Rightarrow> dbi \<Rightarrow> 't \<Rightarrow> nat result" where
  "txn_stat m d t = (let (err, n) = mdb_entries m d t in rbind (check err) (\<lambda>_. Inr n))"

definition txn_get :: "('e, 't, 'c) mdb \<Rightarrow> dbi \<Rightarrow> bytes \<Rightarrow> 't \<Rightarrow> bytes option result" where
  "txn_get m db key t =
     (let (code, ret) = mdb_get m db key t in
      if code = 0 then Inr (Some ret)
      else if code = MDB_NOTFOUND then Inr None
      else Inl (Db_error code))"

definition wtxn_put :: "('e, 't, 'c) mdb \<Rightarrow> dbi \<Rightarrow> bytes \<Rightarrow> bytes \<Rightarrow> nat \<Rightarrow> 't \<Rightarrow> 't result" where
  "wtxn_put m db key val flags t =
     (let (err, t) = mdb_put m db key val flags t in rbind (check err) (\<lambda>_. Inr t))"

definition wtxn_tryput :: "('e, 't, 'c) mdb \<Rightarrow> dbi \<Rightarrow> bytes \<Rightarrow> bytes \<Rightarrow> nat \<Rightarrow> 't \<Rightarrow> (bool \<times> 't) result" where
  "wtxn_tryput m db key val flags t =
     (let (code, t) = mdb_put m db key val flags t in
      if code = 0 then Inr (True, t)
      else if code = MDB_KEYEXIST then Inr (False, t)
      else Inl (Db_error code))"

definition wtxn_del :: "('e, 't, 'c) mdb \<Rightarrow> dbi \<Rightarrow> bytes \<Rightarrow> bytes option \<Rightarrow> 't \<Rightarrow> (bool \<times> 't) result" where
  "wtxn_del m db key val t =
     (let (code, t) = mdb_del m db key val t in
      if code = 0 then Inr (True, t)
      else if code = MDB_NOTFOUND then Inr (False, t)
      else Inl (Db_error code))"

record 'c cursor =
  cursor_c :: 'c
  cursor_kv :: kv
  cursor_err :: int

definition cursor_open :: "('e, 't, 'c) mdb \<Rightarrow> dbi \<Rightarrow> 't \<Rightarrow> 'c cursor result" where
  "cursor_open m d t =
     (let (err, c) = mdb_cursor_open m d t in
      rbind (check err) (\<lambda>_. Inr \<lparr>cursor_c = c, cursor_kv = ([], []), cursor_err = MDB_NOTFOUND\<rparr>))"

definition cursor_get :: "('e, 't, 'c) mdb \<Rightarrow> cursor_op \<Rightarrow> 'c cursor \<Rightarrow> (bool \<times> 'c cursor) result" where
  "cursor_get m op c =
     (let (err, kv, c') = mdb_cursor_get m op (cursor_c c);
          c' = \<lparr>cursor_c = c', cursor_kv = (if err = 0 then kv else cursor_kv c), cursor_err = err\<rparr> in
      if err = 0 then Inr (True, c')
      else if err = MDB_NOTFOUND then Inr (False, c')
      else Inl (Db_error err))"

definition cursor_deref :: "'c cursor \<Rightarrow> kv result" where
  "cursor_deref c = rbind (check (cursor_err c)) (\<lambda>_. Inr (cursor_kv c))"

text \<open>\<open>iter == end\<close>.\<close>

definition cursor_at_end :: "'c cursor \<Rightarrow> bool" where
  "cursor_at_end c \<longleftrightarrow> cursor_err c \<noteq> 0"

text \<open>
  \<open>for (auto iter = cursor.begin(); iter != cursor.end(); ++iter) body\<close>. The fuel is one more than
  the number of entries the cursor can visit.
\<close>

fun cursor_loop :: "nat \<Rightarrow> ('e, 't, 'c) mdb \<Rightarrow> (kv \<Rightarrow> 's \<Rightarrow> 's result) \<Rightarrow> 'c cursor \<Rightarrow> 's \<Rightarrow> 's result" where
  "cursor_loop 0 m f c s = Inl Out_of_fuel"
| "cursor_loop (Suc fuel) m f c s =
     (if cursor_at_end c then Inr s
      else rbind (cursor_deref c) (\<lambda>kv.
        rbind (f kv s) (\<lambda>s.
        rbind (cursor_get m MDB_NEXT c) (\<lambda>(_, c). cursor_loop fuel m f c s))))"

definition cursor_for :: "nat \<Rightarrow> ('e, 't, 'c) mdb \<Rightarrow> (kv \<Rightarrow> 's \<Rightarrow> 's result) \<Rightarrow> 'c cursor \<Rightarrow> 's \<Rightarrow> 's result" where
  "cursor_for fuel m f c s =
     rbind (cursor_get m MDB_FIRST c) (\<lambda>(_, c). cursor_loop fuel m f c s)"

section \<open>\<open>lmdb_wrapper\<close>\<close>

record 'e BaseLMDBInstance =
  env :: 'e
  env_open :: bool
  metadata_dbi :: dbi
  metadata_dbi_open :: bool

definition new_base_lmdb :: "'e \<Rightarrow> 'e BaseLMDBInstance" where
  "new_base_lmdb e = \<lparr>env = e, env_open = False, metadata_dbi = 0, metadata_dbi_open = False\<rparr>"

definition open_env :: "('e, 't, 'c) mdb \<Rightarrow> string \<Rightarrow> ('e, 'x) BaseLMDBInstance_scheme
    \<Rightarrow> ('e, 'x) BaseLMDBInstance_scheme result" where
  "open_env m path i = rbind (env_open_at m path (env i)) (\<lambda>e. Inr (i\<lparr>env := e, env_open := True\<rparr>))"

definition wbegin :: "('e, 't, 'c) mdb \<Rightarrow> ('e, 'x) BaseLMDBInstance_scheme \<Rightarrow> 't result" where
  "wbegin m i =
     (if \<not> env_open i then Inl (Runtime_error ''can't access a db if env is unopened'')
      else env_wbegin m (env i))"

definition rbegin :: "('e, 't, 'c) mdb \<Rightarrow> ('e, 'x) BaseLMDBInstance_scheme \<Rightarrow> 't result" where
  "rbegin m i = env_rbegin m (env i)"

definition persisted_key :: bytes where
  "persisted_key = dbval_str ''persisted block''"

definition open_db :: "('e, 't, 'c) mdb \<Rightarrow> string \<Rightarrow> ('e, 'x) BaseLMDBInstance_scheme
    \<Rightarrow> (dbi \<times> ('e, 'x) BaseLMDBInstance_scheme) result" where
  "open_db m name i =
     (if \<not> env_open i then Inl (Runtime_error ''env not open'')
      else
        rbind (env_rbegin m (env i)) (\<lambda>rtx.
        rbind (txn_open m name False rtx) (\<lambda>(d, rtx).
        rbind (if \<not> metadata_dbi_open i
               then rbind (txn_open m ''metadata'' False rtx) (\<lambda>(md, rtx).
                 Inr (rtx, i\<lparr>metadata_dbi := md, metadata_dbi_open := True\<rparr>))
               else Inr (rtx, i)) (\<lambda>(rtx, i).
        rbind (txn_get m (metadata_dbi i) persisted_key rtx) (\<lambda>persisted_round_number_opt.
        if persisted_round_number_opt = None then Inl (Runtime_error ''missing metadata contents'')
        else rbind (txn_commit m rtx (env i)) (\<lambda>e. Inr (d, i\<lparr>env := e\<rparr>)))))))"

definition get_persisted_round_number :: "('e, 't, 'c) mdb \<Rightarrow> ('e, 'x) BaseLMDBInstance_scheme \<Rightarrow> nat result" where
  "get_persisted_round_number m i =
     (if \<not> env_open i then Inr 0
      else
        rbind (env_rbegin m (env i)) (\<lambda>rtx.
        rbind (txn_get m (metadata_dbi i) persisted_key rtx) (\<lambda>persisted_round_number.
        case persisted_round_number of
          None \<Rightarrow> Inr 0
        | Some v \<Rightarrow>
            rbind (dbval_uint64 v) (\<lambda>out.
            rbind (txn_commit m rtx (env i)) (\<lambda>_. Inr out)))))"

definition write_persisted_round_number ::
    "('e, 't, 'c) mdb \<Rightarrow> 't \<Rightarrow> nat \<Rightarrow> ('e, 'x) BaseLMDBInstance_scheme \<Rightarrow> 't result" where
  "write_persisted_round_number m wtx round_number i =
     wtxn_put m (metadata_dbi i) persisted_key (dbval_of_u64 round_number) 0 wtx"

definition create_db :: "('e, 't, 'c) mdb \<Rightarrow> string \<Rightarrow> ('e, 'x) BaseLMDBInstance_scheme
    \<Rightarrow> (dbi \<times> ('e, 'x) BaseLMDBInstance_scheme) result" where
  "create_db m name i =
     (if \<not> env_open i then Inl (Runtime_error ''env not open'')
      else
        rbind (env_wbegin m (env i)) (\<lambda>wtx.
        rbind (txn_open m name True wtx) (\<lambda>(d, wtx).
        rbind (if \<not> metadata_dbi_open i
               then rbind (txn_open m ''metadata'' True wtx) (\<lambda>(md, wtx).
                 Inr (wtx, i\<lparr>metadata_dbi := md, metadata_dbi_open := True\<rparr>))
               else Inr (wtx, i)) (\<lambda>(wtx, i).
        rbind (txn_get m (metadata_dbi i) persisted_key wtx) (\<lambda>preexist_check.
        rbind (case preexist_check of None \<Rightarrow> Inr 0 | Some v \<Rightarrow> dbval_uint64 v) (\<lambda>n.
        if n \<noteq> 0 then Inl (Runtime_error ''database already existed, can't create new'')
        else
          rbind (write_persisted_round_number m wtx 0 i) (\<lambda>wtx.
          rbind (txn_commit m wtx (env i)) (\<lambda>e. Inr (d, i\<lparr>env := e\<rparr>)))))))))"

definition commit_wtxn :: "('e, 't, 'c) mdb \<Rightarrow> 't \<Rightarrow> nat \<Rightarrow> bool \<Rightarrow> ('e, 'x) BaseLMDBInstance_scheme
    \<Rightarrow> ('e, 'x) BaseLMDBInstance_scheme result" where
  "commit_wtxn m txn persisted_round do_sync i =
     rbind (get_persisted_round_number m i) (\<lambda>n.
     if persisted_round < n then Inl (Runtime_error ''can't overwrite later round with earlier round'')
     else if \<not> env_open i then Inr i
     else
       rbind (write_persisted_round_number m txn persisted_round i) (\<lambda>txn.
       rbind (txn_commit m txn (env i)) (\<lambda>e.
       let i = i\<lparr>env := e\<rparr> in
       if do_sync then rbind (env_sync m (env i)) (\<lambda>_. Inr i) else Inr i)))"

record 'e LMDBInstance = "'e BaseLMDBInstance" +
  data_dbi :: dbi
  dbi_valid :: bool

definition new_lmdb :: "'e \<Rightarrow> 'e LMDBInstance" where
  "new_lmdb e = BaseLMDBInstance.extend (new_base_lmdb e) \<lparr>data_dbi = 0, dbi_valid = False\<rparr>"

definition get_data_dbi :: "('e, 'x) LMDBInstance_scheme \<Rightarrow> dbi result" where
  "get_data_dbi i =
     (if \<not> dbi_valid i then Inl (Runtime_error ''invalid data dbi access before opening!'')
      else Inr (data_dbi i))"

definition lmdb_stat :: "('e, 't, 'c) mdb \<Rightarrow> ('e, 'x) LMDBInstance_scheme \<Rightarrow> nat result" where
  "lmdb_stat m i = rbind (rbegin m i) (txn_stat m (data_dbi i))"

definition lmdb_create_db :: "('e, 't, 'c) mdb \<Rightarrow> string \<Rightarrow> ('e, 'x) LMDBInstance_scheme
    \<Rightarrow> ('e, 'x) LMDBInstance_scheme result" where
  "lmdb_create_db m name i =
     rbind (create_db m name i) (\<lambda>(d, i). Inr (i\<lparr>data_dbi := d, dbi_valid := True\<rparr>))"

definition lmdb_open_db :: "('e, 't, 'c) mdb \<Rightarrow> string \<Rightarrow> ('e, 'x) LMDBInstance_scheme
    \<Rightarrow> ('e, 'x) LMDBInstance_scheme result" where
  "lmdb_open_db m name i =
     rbind (open_db m name i) (\<lambda>(d, i). Inr (i\<lparr>data_dbi := d, dbi_valid := True\<rparr>))"

text \<open>\<open>SharedLMDBInstance\<close>: a reference to a base instance, here its state, and a handle.\<close>

record 'e SharedLMDBInstance =
  base_lmdb :: "'e BaseLMDBInstance"
  local_dbi :: dbi
  local_dbi_valid :: bool

definition new_shared :: "'e BaseLMDBInstance \<Rightarrow> 'e SharedLMDBInstance" where
  "new_shared b = \<lparr>base_lmdb = b, local_dbi = 0, local_dbi_valid = False\<rparr>"

definition shared_get_data_dbi :: "'e SharedLMDBInstance \<Rightarrow> dbi result" where
  "shared_get_data_dbi i =
     (if \<not> local_dbi_valid i then Inl (Runtime_error ''shared lmdb dbi access before opening'')
      else Inr (local_dbi i))"

definition shared_create_db :: "('e, 't, 'c) mdb \<Rightarrow> string \<Rightarrow> 'e SharedLMDBInstance \<Rightarrow> 'e SharedLMDBInstance result" where
  "shared_create_db m name i =
     rbind (create_db m name (base_lmdb i)) (\<lambda>(d, b).
     Inr (i\<lparr>base_lmdb := b, local_dbi := d, local_dbi_valid := True\<rparr>))"

definition shared_open_db :: "('e, 't, 'c) mdb \<Rightarrow> string \<Rightarrow> 'e SharedLMDBInstance \<Rightarrow> 'e SharedLMDBInstance result" where
  "shared_open_db m name i =
     rbind (open_db m name (base_lmdb i)) (\<lambda>(d, b).
     Inr (i\<lparr>base_lmdb := b, local_dbi := d, local_dbi_valid := True\<rparr>))"

text \<open>
  \<open>LMDBLoadingWrapper\<close>: operations are skipped, and count as successful, when the wrapped instance
  already reflects the block.
\<close>

definition loading_do_operations :: "nat \<Rightarrow> nat \<Rightarrow> bool" where
  "loading_do_operations persisted_round current_block_number \<longleftrightarrow> persisted_round < current_block_number"

definition generic_do :: "bool \<Rightarrow> ('w \<Rightarrow> 'r \<times> 'w) \<Rightarrow> 'r \<Rightarrow> 'w \<Rightarrow> 'r \<times> 'w" where
  "generic_do do_operations func success w = (if do_operations then func w else (success, w))"

definition unconditional_do :: "('w \<Rightarrow> 'r \<times> 'w) \<Rightarrow> 'w \<Rightarrow> 'r \<times> 'w" where
  "unconditional_do func w = func w"

section \<open>What the library promises\<close>

type_synonym tables = "dbi \<Rightarrow> bytes \<Rightarrow> bytes option"

record ('e, 't, 'c) mdb_view =
  env_view :: "'e \<Rightarrow> tables"
  txn_view :: "'t \<Rightarrow> tables"
  cursor_all :: "'c \<Rightarrow> kv list"
  cursor_left :: "'c \<Rightarrow> kv list"

text \<open>
  The documented behaviour the wrapper relies on: a transaction starts from the committed contents,
  sees its own puts, and replaces the contents when it commits; reads do not fail; a cursor visits the
  entries of one database in the order of \<open>memcmp\<close> on the keys.
\<close>

definition mdb_laws :: "('e, 't, 'c) mdb \<Rightarrow> ('e, 't, 'c) mdb_view \<Rightarrow> bool" where
  "mdb_laws m w \<longleftrightarrow>
     (\<forall>ro e t. mdb_txn_begin m ro e = (0, t) \<longrightarrow> txn_view w t = env_view w e)
     \<and> (\<forall>e. \<exists>t. mdb_txn_begin m True e = (0, t) \<and> (\<exists>e'. mdb_txn_commit m t e = (0, e')))
     \<and> (\<forall>d k t. mdb_get m d k t = (case txn_view w t d k of Some v \<Rightarrow> (0, v) | None \<Rightarrow> (MDB_NOTFOUND, [])))
     \<and> (\<forall>d k v t t'. mdb_put m d k v 0 t = (0, t') \<longrightarrow>
          txn_view w t' = (txn_view w t)(d := (txn_view w t d)(k \<mapsto> v)))
     \<and> (\<forall>t e e'. mdb_txn_commit m t e = (0, e') \<longrightarrow> env_view w e' = txn_view w t)
     \<and> (\<forall>n cr t d t'. mdb_dbi_open m n cr t = (0, d, t') \<longrightarrow> txn_view w t' = txn_view w t)
     \<and> (\<forall>d t. \<exists>c. mdb_cursor_open m d t = (0, c) \<and> sorted_wrt bytes_less (map fst (cursor_all w c))
          \<and> map_of (cursor_all w c) = txn_view w t d)
     \<and> (\<forall>c. case cursor_all w c of
          [] \<Rightarrow> fst (mdb_cursor_get m MDB_FIRST c) = MDB_NOTFOUND
        | kv # r \<Rightarrow> \<exists>c'. mdb_cursor_get m MDB_FIRST c = (0, kv, c') \<and> cursor_left w c' = r)
     \<and> (\<forall>c. case cursor_left w c of
          [] \<Rightarrow> fst (mdb_cursor_get m MDB_NEXT c) = MDB_NOTFOUND
        | kv # r \<Rightarrow> \<exists>c'. mdb_cursor_get m MDB_NEXT c = (0, kv, c') \<and> cursor_left w c' = r)"

lemma mdb_lawsD:
  assumes "mdb_laws m w"
  shows "mdb_txn_begin m ro e = (0, t) \<Longrightarrow> txn_view w t = env_view w e"
    and "\<exists>t. mdb_txn_begin m True e = (0, t) \<and> (\<exists>e'. mdb_txn_commit m t e = (0, e'))"
    and "mdb_get m d k t = (case txn_view w t d k of Some v \<Rightarrow> (0, v) | None \<Rightarrow> (MDB_NOTFOUND, []))"
    and "mdb_put m d k v 0 t = (0, t') \<Longrightarrow> txn_view w t' = (txn_view w t)(d := (txn_view w t d)(k \<mapsto> v))"
    and "mdb_txn_commit m t e = (0, e') \<Longrightarrow> env_view w e' = txn_view w t"
    and "mdb_dbi_open m n cr t = (0, d, t') \<Longrightarrow> txn_view w t' = txn_view w t"
    and "\<exists>c. mdb_cursor_open m d t = (0, c) \<and> sorted_wrt bytes_less (map fst (cursor_all w c))
      \<and> map_of (cursor_all w c) = txn_view w t d"
    and "case cursor_all w c of
          [] \<Rightarrow> fst (mdb_cursor_get m MDB_FIRST c) = MDB_NOTFOUND
        | kv # r \<Rightarrow> \<exists>c'. mdb_cursor_get m MDB_FIRST c = (0, kv, c') \<and> cursor_left w c' = r"
    and "case cursor_left w c of
          [] \<Rightarrow> fst (mdb_cursor_get m MDB_NEXT c) = MDB_NOTFOUND
        | kv # r \<Rightarrow> \<exists>c'. mdb_cursor_get m MDB_NEXT c = (0, kv, c') \<and> cursor_left w c' = r"
  using assms unfolding mdb_laws_def by simp_all

lemma check_eq [simp]: "check err = Inr () \<longleftrightarrow> err = 0"
  by (simp add: check_def)

lemma env_begin_view:
  assumes "mdb_laws m w"
  shows "env_wbegin m e = Inr t \<Longrightarrow> txn_view w t = env_view w e"
    and "env_rbegin m e = Inr t \<Longrightarrow> txn_view w t = env_view w e"
  using mdb_lawsD(1)[OF assms]
  by (auto simp: env_wbegin_def env_rbegin_def rbind_eq_Inr check_def split: prod.splits if_splits)

lemma env_rbegin_total:
  assumes "mdb_laws m w"
  shows "\<exists>t. env_rbegin m e = Inr t \<and> txn_view w t = env_view w e \<and> (\<exists>e'. txn_commit m t e = Inr e')"
proof -
  obtain t e' where t: "mdb_txn_begin m True e = (0, t)" "mdb_txn_commit m t e = (0, e')"
    using mdb_lawsD(2)[OF assms, of e] by blast
  then show ?thesis using mdb_lawsD(1)[OF assms t(1)]
    by (simp add: env_rbegin_def txn_commit_def check_def)
qed

lemma txn_get_view:
  assumes "mdb_laws m w"
  shows "txn_get m d k t = Inr (txn_view w t d k)"
  using mdb_lawsD(3)[OF assms, of d k t] by (simp add: txn_get_def MDB_NOTFOUND_def split: option.splits)

lemma wtxn_put_view:
  assumes "mdb_laws m w" and "wtxn_put m d k v 0 t = Inr t'"
  shows "txn_view w t' = (txn_view w t)(d := (txn_view w t d)(k \<mapsto> v))"
  using assms(2) mdb_lawsD(4)[OF assms(1)]
  by (auto simp: wtxn_put_def rbind_eq_Inr check_def split: prod.splits if_splits)

lemma txn_commit_view:
  assumes "mdb_laws m w" and "txn_commit m t e = Inr e'"
  shows "env_view w e' = txn_view w t"
  using assms(2) mdb_lawsD(5)[OF assms(1)]
  by (auto simp: txn_commit_def rbind_eq_Inr check_def split: prod.splits if_splits)

lemma txn_open_view:
  assumes "mdb_laws m w" and "txn_open m n cr t = Inr (d, t')"
  shows "txn_view w t' = txn_view w t"
  using assms(2) mdb_lawsD(6)[OF assms(1)]
  by (auto simp: txn_open_def rbind_eq_Inr check_def split: prod.splits if_splits)

text \<open>With enough fuel the loop runs its body over the entries in order.\<close>

lemma cursor_get_at:
  assumes "mdb_laws m w"
  shows "\<exists>b c'. cursor_get m MDB_NEXT c = Inr (b, c') \<and>
      (case cursor_left w (cursor_c c) of
         [] \<Rightarrow> cursor_err c' \<noteq> 0
       | kv # r \<Rightarrow> cursor_err c' = 0 \<and> cursor_kv c' = kv \<and> cursor_left w (cursor_c c') = r)"
    and "\<exists>b c'. cursor_get m MDB_FIRST c = Inr (b, c') \<and>
      (case cursor_all w (cursor_c c) of
         [] \<Rightarrow> cursor_err c' \<noteq> 0
       | kv # r \<Rightarrow> cursor_err c' = 0 \<and> cursor_kv c' = kv \<and> cursor_left w (cursor_c c') = r)"
proof -
  have found: "\<exists>b c'. cursor_get m op c = Inr (b, c') \<and>
      (case l of [] \<Rightarrow> cursor_err c' \<noteq> 0
       | kv # r \<Rightarrow> cursor_err c' = 0 \<and> cursor_kv c' = kv \<and> cursor_left w (cursor_c c') = r)"
    if "case l of [] \<Rightarrow> fst (mdb_cursor_get m op (cursor_c c)) = MDB_NOTFOUND
        | kv # r \<Rightarrow> \<exists>c'. mdb_cursor_get m op (cursor_c c) = (0, kv, c') \<and> cursor_left w c' = r" for op l
  proof (cases l)
    case Nil
    with that obtain kv c' where "mdb_cursor_get m op (cursor_c c) = (MDB_NOTFOUND, kv, c')"
      by (cases "mdb_cursor_get m op (cursor_c c)") auto
    with Nil show ?thesis by (auto simp: cursor_get_def MDB_NOTFOUND_def)
  next
    case (Cons kv r)
    with that obtain c' where "mdb_cursor_get m op (cursor_c c) = (0, kv, c')" "cursor_left w c' = r" by auto
    with Cons show ?thesis by (auto simp: cursor_get_def)
  qed
  show "\<exists>b c'. cursor_get m MDB_NEXT c = Inr (b, c') \<and>
      (case cursor_left w (cursor_c c) of
         [] \<Rightarrow> cursor_err c' \<noteq> 0
       | kv # r \<Rightarrow> cursor_err c' = 0 \<and> cursor_kv c' = kv \<and> cursor_left w (cursor_c c') = r)"
    by (rule found[OF mdb_lawsD(9)[OF assms]])
  show "\<exists>b c'. cursor_get m MDB_FIRST c = Inr (b, c') \<and>
      (case cursor_all w (cursor_c c) of
         [] \<Rightarrow> cursor_err c' \<noteq> 0
       | kv # r \<Rightarrow> cursor_err c' = 0 \<and> cursor_kv c' = kv \<and> cursor_left w (cursor_c c') = r)"
    by (rule found[OF mdb_lawsD(8)[OF assms]])
qed

lemma cursor_loop_run:
  assumes "mdb_laws m w"
  shows "\<lbrakk>cursor_err c = 0; fuel > Suc (length (cursor_left w (cursor_c c)))\<rbrakk>
    \<Longrightarrow> cursor_loop fuel m f c s = rfold f (cursor_kv c # cursor_left w (cursor_c c)) s"
proof (induction "cursor_left w (cursor_c c)" arbitrary: c s fuel)
  case Nil
  note l = Nil(1)[symmetric]
  from Nil(3) obtain n where n: "fuel = Suc (Suc n)" by (auto dest: less_imp_Suc_add)
  obtain b c' where c': "cursor_get m MDB_NEXT c = Inr (b, c')" "cursor_err c' \<noteq> 0"
    using cursor_get_at(1)[OF assms, of c] l by auto
  show ?case using Nil(2) l n c'
    by (cases "f (cursor_kv c) s") (simp_all add: cursor_at_end_def cursor_deref_def check_def)
next
  case (Cons kv r)
  note l = Cons(2)[symmetric]
  from Cons(4) obtain n where n: "fuel = Suc n" by (auto dest: less_imp_Suc_add)
  obtain b c' where c': "cursor_get m MDB_NEXT c = Inr (b, c')" "cursor_err c' = 0" "cursor_kv c' = kv"
    "cursor_left w (cursor_c c') = r"
    using cursor_get_at(1)[OF assms, of c] l by auto
  have "Suc (length r) < n" using Cons(4) l n by simp
  then have "cursor_loop n m f c' t = rfold f (kv # r) t" for t
    using Cons(1)[of c' n t] c' by simp
  then show ?case using Cons(3) l n c'
    by (cases "f (cursor_kv c) s") (simp_all add: cursor_at_end_def cursor_deref_def check_def)
qed

lemma cursor_for_run:
  assumes "mdb_laws m w" and "fuel > length (cursor_all w (cursor_c c))"
  shows "cursor_for fuel m f c s = rfold f (cursor_all w (cursor_c c)) s"
proof (cases "cursor_all w (cursor_c c)")
  case Nil
  then obtain b c' where "cursor_get m MDB_FIRST c = Inr (b, c')" "cursor_err c' \<noteq> 0"
    using cursor_get_at(2)[OF assms(1), of c] by auto
  moreover obtain n where "fuel = Suc n" using assms(2) by (auto dest: less_imp_Suc_add)
  ultimately show ?thesis using Nil by (simp add: cursor_for_def cursor_at_end_def)
next
  case (Cons kv r)
  then obtain b c' where "cursor_get m MDB_FIRST c = Inr (b, c')" "cursor_err c' = 0" "cursor_kv c' = kv"
    "cursor_left w (cursor_c c') = r"
    using cursor_get_at(2)[OF assms(1), of c] by auto
  then show ?thesis using Cons cursor_loop_run[OF assms(1), of c' fuel f s] assms(2)
    by (simp add: cursor_for_def)
qed

lemma cursor_open_view:
  assumes "mdb_laws m w"
  shows "\<exists>c. cursor_open m d t = Inr c \<and> sorted_wrt bytes_less (map fst (cursor_all w (cursor_c c)))
    \<and> map_of (cursor_all w (cursor_c c)) = txn_view w t d"
proof -
  obtain c where "mdb_cursor_open m d t = (0, c)" "sorted_wrt bytes_less (map fst (cursor_all w c))"
    "map_of (cursor_all w c) = txn_view w t d"
    using mdb_lawsD(7)[OF assms, of d t] by blast
  then show ?thesis by (simp add: cursor_open_def check_def)
qed

section \<open>The round number\<close>

lemma dbval_u64_roundtrip:
  assumes "n < 18446744073709551616"
  shows "dbval_uint64 (dbval_of_u64 n) = Inr n"
  using assms be_val_be_bytes[of 8 "word_of_nat n :: 64 word"]
  by (simp add: dbval_uint64_def dbval_of_u64_def unat_of_nat)

text \<open>The round number an instance holds.\<close>

definition round_of :: "('e, 't, 'c) mdb_view \<Rightarrow> ('e, 'x) BaseLMDBInstance_scheme \<Rightarrow> bytes option" where
  "round_of w i = env_view w (env i) (metadata_dbi i) persisted_key"

lemma get_persisted_round_number_view:
  assumes "mdb_laws m w" and "env_open i"
  shows "get_persisted_round_number m i = (case round_of w i of None \<Rightarrow> Inr 0 | Some v \<Rightarrow> dbval_uint64 v)"
proof -
  obtain t e' where t: "env_rbegin m (env i) = Inr t" "txn_view w t = env_view w (env i)"
    "txn_commit m t (env i) = Inr e'"
    using env_rbegin_total[OF assms(1)] by blast
  then show ?thesis using assms(2)
    by (cases "round_of w i")
      (auto simp: get_persisted_round_number_def txn_get_view[OF assms(1)] round_of_def rbind_def split: sum.splits)
qed

lemma commit_wtxn_view:
  assumes "mdb_laws m w" and "env_open i" and "commit_wtxn m t n sy i = Inr i'"
  shows "\<exists>e. i' = i\<lparr>env := e\<rparr> \<and> env_view w e =
    (txn_view w t)(metadata_dbi i := (txn_view w t (metadata_dbi i))(persisted_key \<mapsto> dbval_of_u64 n))"
proof -
  obtain t' e where t': "wtxn_put m (metadata_dbi i) persisted_key (dbval_of_u64 n) 0 t = Inr t'"
    and e: "txn_commit m t' (env i) = Inr e" and i': "i' = i\<lparr>env := e\<rparr>"
    using assms(2,3)
    by (auto simp: commit_wtxn_def write_persisted_round_number_def rbind_eq_Inr Let_def split: if_splits)
  show ?thesis
    by (rule exI[of _ e]) (use i' txn_commit_view[OF assms(1) e] wtxn_put_view[OF assms(1) t'] in simp)
qed

text \<open>A commit never lowers the round number.\<close>

lemma commit_wtxn_monotone:
  assumes "mdb_laws m w" and "env_open i" and "n < 18446744073709551616" and "commit_wtxn m t n sy i = Inr i'"
  shows "get_persisted_round_number m i' = Inr n" and "\<exists>k. get_persisted_round_number m i = Inr k \<and> k \<le> n"
proof -
  obtain e where e: "i' = i\<lparr>env := e\<rparr>" "env_view w e =
    (txn_view w t)(metadata_dbi i := (txn_view w t (metadata_dbi i))(persisted_key \<mapsto> dbval_of_u64 n))"
    using commit_wtxn_view[OF assms(1,2,4)] by blast
  have "env_open i'" using e(1) assms(2) by simp
  then show "get_persisted_round_number m i' = Inr n"
    using get_persisted_round_number_view[OF assms(1), of i'] dbval_u64_roundtrip[OF assms(3)] e
    by (simp add: round_of_def)
  show "\<exists>k. get_persisted_round_number m i = Inr k \<and> k \<le> n"
    using assms(4) by (auto simp: commit_wtxn_def rbind_eq_Inr split: if_splits)
qed

text \<open>A database that has seen a round is never created again.\<close>

lemma create_db_existing:
  assumes "mdb_laws m w" and "env_open i" and "metadata_dbi_open i"
    and "round_of w i = Some (dbval_of_u64 n)" and "0 < n" and "n < 18446744073709551616"
  shows "\<exists>e. create_db m name i = Inl e"
proof (rule ccontr)
  assume "\<nexists>e. create_db m name i = Inl e"
  then obtain r where "create_db m name i = Inr r" by (cases "create_db m name i") auto
  then obtain t d t1 where t: "env_wbegin m (env i) = Inr t" "txn_open m name True t = Inr (d, t1)"
    and g: "(case txn_view w t1 (metadata_dbi i) persisted_key of None \<Rightarrow> Inr 0 | Some v \<Rightarrow> dbval_uint64 v) = Inr 0"
    using assms(2,3)
    by (auto simp: create_db_def rbind_eq_Inr txn_get_view[OF assms(1)] split: if_splits)
  have "txn_view w t1 (metadata_dbi i) persisted_key = round_of w i"
    using txn_open_view[OF assms(1) t(2)] env_begin_view(1)[OF assms(1) t(1)] by (simp add: round_of_def)
  then show False using g assms(4,5) dbval_u64_roundtrip[OF assms(6)] by simp
qed

section \<open>A concrete library\<close>

text \<open>
  The library over association lists: an environment has the names of its databases and, per handle,
  its puts in reverse order; a cursor orders the entries.
\<close>

record map_env =
  db_names :: "string list"
  db_puts :: "dbi \<Rightarrow> kv list"

fun insert_kv :: "bytes \<Rightarrow> bytes \<Rightarrow> kv list \<Rightarrow> kv list" where
  "insert_kv k v [] = [(k, v)]"
| "insert_kv k v ((k', v') # m) =
     (if bytes_less k k' then (k, v) # (k', v') # m
      else if k = k' then (k, v) # m
      else (k', v') # insert_kv k v m)"

definition ordered :: "kv list \<Rightarrow> kv list" where
  "ordered xs = foldr (\<lambda>(k, v). insert_kv k v) xs []"

fun name_index :: "string \<Rightarrow> string list \<Rightarrow> nat" where
  "name_index n [] = 0"
| "name_index n (x # xs) = (if n = x then 0 else Suc (name_index n xs))"

definition map_mdb :: "(map_env, map_env, kv list \<times> kv list) mdb" where
  "map_mdb = \<lparr>
     mdb_env_open = (\<lambda>_ e. (0, e)),
     mdb_env_sync = (\<lambda>_. 0),
     mdb_txn_begin = (\<lambda>_ e. (0, e)),
     mdb_txn_commit = (\<lambda>t _. (0, t)),
     mdb_dbi_open = (\<lambda>n cr t. let i = name_index n (db_names t) in
        if i < length (db_names t) then (0, i, t)
        else if cr then (0, i, t\<lparr>db_names := db_names t @ [n]\<rparr>) else (MDB_NOTFOUND, 0, t)),
     mdb_get = (\<lambda>d k t. case map_of (db_puts t d) k of Some v \<Rightarrow> (0, v) | None \<Rightarrow> (MDB_NOTFOUND, [])),
     mdb_put = (\<lambda>d k v flags t. (0, t\<lparr>db_puts := (db_puts t)(d := (k, v) # db_puts t d)\<rparr>)),
     mdb_del = (\<lambda>d k v t. if map_of (db_puts t d) k = None then (MDB_NOTFOUND, t)
        else (0, t\<lparr>db_puts := (db_puts t)(d := filter (\<lambda>e. fst e \<noteq> k) (db_puts t d))\<rparr>)),
     mdb_entries = (\<lambda>d t. (0, length (ordered (db_puts t d)))),
     mdb_cursor_open = (\<lambda>d t. (0, (ordered (db_puts t d), []))),
     mdb_cursor_get = (\<lambda>op (all, left). case (case op of MDB_FIRST \<Rightarrow> all | MDB_NEXT \<Rightarrow> left) of
        [] \<Rightarrow> (MDB_NOTFOUND, ([], []), (all, [])) | kv # r \<Rightarrow> (0, kv, (all, r)))\<rparr>"

definition map_mdb_view :: "(map_env, map_env, kv list \<times> kv list) mdb_view" where
  "map_mdb_view = \<lparr>env_view = (\<lambda>e d. map_of (db_puts e d)), txn_view = (\<lambda>e d. map_of (db_puts e d)),
     cursor_all = fst, cursor_left = snd\<rparr>"

lemma bytes_less_total: "bytes_less k k' \<or> k = k' \<or> bytes_less k' k"
  by (induction k k' rule: bytes_less.induct) auto

lemma bytes_less_trans: "bytes_less a b \<Longrightarrow> bytes_less b c \<Longrightarrow> bytes_less a c"
proof (induction a b arbitrary: c rule: bytes_less.induct)
  case (1 ys)
  then show ?case by (cases ys; cases c) auto
next
  case (3 x xs y ys)
  then show ?case by (cases c) auto
qed simp

lemma bytes_less_irrefl [simp]: "\<not> bytes_less k k"
  by (induction k) auto

lemma keys_insert_kv: "fst ` set (insert_kv k v m) = insert k (fst ` set m)"
  by (induction k v m rule: insert_kv.induct) (auto simp: insert_commute)

lemma sorted_insert_kv: "sorted_wrt bytes_less (map fst m) \<Longrightarrow> sorted_wrt bytes_less (map fst (insert_kv k v m))"
proof (induction k v m rule: insert_kv.induct)
  case (2 k v k' v' m)
  have "\<forall>x \<in> fst ` set (insert_kv k v m). bytes_less k' x" if "\<not> bytes_less k k'" "k \<noteq> k'"
    using that 2(2) bytes_less_total[of k k'] by (auto simp: keys_insert_kv)
  then show ?case using 2 by (auto intro: bytes_less_trans)
qed simp

lemma map_of_insert_kv: "map_of (insert_kv k v m) = (map_of m)(k \<mapsto> v)"
  by (induction k v m rule: insert_kv.induct) (auto simp: fun_eq_iff)

lemma ordered_ok: "sorted_wrt bytes_less (map fst (ordered xs)) \<and> map_of (ordered xs) = map_of xs"
  by (induction xs) (auto simp: ordered_def sorted_insert_kv map_of_insert_kv fun_eq_iff)

lemma map_mdb_laws: "mdb_laws map_mdb map_mdb_view"
  using ordered_ok
  by (auto simp: mdb_laws_def map_mdb_def map_mdb_view_def fun_eq_iff Let_def MDB_NOTFOUND_def
      split: list.splits option.splits if_splits)

section \<open>Claims\<close>

text \<open>C31: a commit persists the round number it is given and never goes back: the number stored before is at
most the new one, otherwise \<open>commit_wtxn\<close> throws.\<close>

theorem persisted_rounds_grow:
  assumes "mdb_laws m w" and "env_open i" and "n < 18446744073709551616" and "commit_wtxn m t n sy i = Inr i'"
  shows "get_persisted_round_number m i' = Inr n \<and> (\<exists>k. get_persisted_round_number m i = Inr k \<and> k \<le> n)"
  using commit_wtxn_monotone[OF assms] by blast

definition open_instance :: "map_env BaseLMDBInstance" where
  "open_instance = \<lparr>env = \<lparr>db_names = [''metadata''], db_puts = (\<lambda>_. [])\<rparr>, env_open = True, metadata_dbi = 0,
     metadata_dbi_open = True\<rparr>"

theorem persisted_rounds_grow_witness:
  "\<exists>i'. commit_wtxn map_mdb (env open_instance) 7 True open_instance = Inr i' \<and> get_persisted_round_number map_mdb i' = Inr 7"
proof -
  obtain i' where i': "commit_wtxn map_mdb (env open_instance) 7 True open_instance = Inr i'"
    by (simp add: commit_wtxn_def get_persisted_round_number_def open_instance_def env_rbegin_def txn_get_def
        write_persisted_round_number_def wtxn_put_def txn_commit_def env_sync_def check_def map_mdb_def MDB_NOTFOUND_def)
  have "get_persisted_round_number map_mdb i' = Inr 7"
    using persisted_rounds_grow[OF map_mdb_laws _ _ i'] by (simp add: open_instance_def)
  then show ?thesis using i' by blast
qed

end
