(* ===== verification/Decided_Index.thy ===== *)
theory Decided_Index
  imports Lmdb Consensus
begin

text \<open>
  \<open>hotstuff/lmdb.{h,cc}\<close>: \<open>HotstuffLMDB\<close>, the index of decided blocks. The data database maps the
  height, in eight big-endian bytes, to the block's hash followed by the serialised identifier of the
  virtual machine; the metadata database holds the round number and the certificate on the highest
  decided block.

  The abstract index is a map from heights to pairs of hash and identifier; adding a block refines
  its update, and the cursor enumerates it in the order of the heights.
\<close>

section \<open>The index\<close>

record 'e HotstuffLMDB = "'e LMDBInstance" +
  data_directory :: string

definition DB_NAME :: string where "DB_NAME = ''hotstuff''"

definition new_hotstuff_lmdb :: "('e, 't, 'c) mdb \<Rightarrow> 'e \<Rightarrow> string \<Rightarrow> 'e HotstuffLMDB result" where
  "new_hotstuff_lmdb m e dir =
     open_env m (dir @ HOTSTUFF_INDEX)
       (LMDBInstance.extend (new_lmdb e) \<lparr>data_directory = dir\<rparr>)"

definition index_create_db :: "('e, 't, 'c) mdb \<Rightarrow> 'e HotstuffLMDB \<Rightarrow> 'e HotstuffLMDB result" where
  "index_create_db m i = lmdb_create_db m DB_NAME i"

definition index_open_db :: "('e, 't, 'c) mdb \<Rightarrow> 'e HotstuffLMDB \<Rightarrow> 'e HotstuffLMDB result" where
  "index_open_db m i = lmdb_open_db m DB_NAME i"

record 't index_txn =
  tx :: 't
  tx_data_dbi :: dbi
  tx_meta_dbi :: dbi

definition index_open_txn :: "('e, 't, 'c) mdb \<Rightarrow> 'e HotstuffLMDB \<Rightarrow> 't index_txn result" where
  "index_open_txn m i =
     rbind (wbegin m i) (\<lambda>t.
     rbind (get_data_dbi i) (\<lambda>d.
     Inr \<lparr>tx = t, tx_data_dbi = d, tx_meta_dbi = metadata_dbi i\<rparr>))"

definition index_commit :: "('e, 't, 'c) mdb \<Rightarrow> 't index_txn \<Rightarrow> 'e HotstuffLMDB \<Rightarrow> 'e HotstuffLMDB result" where
  "index_commit m t i =
     rbind (get_persisted_round_number m i) (\<lambda>n. commit_wtxn m (tx t) (u64 (n + 1)) True i)"

text \<open>The key of a height.\<close>

definition height_key :: "nat \<Rightarrow> bytes result" where
  "height_key height = write_unsigned_big_endian 8 (replicate 8 0) (word_of_nat height :: 64 word) 0"

definition add_decided_block :: "('e, 't, 'c) mdb \<Rightarrow> HotstuffBlock \<Rightarrow> bytes \<Rightarrow> 't index_txn \<Rightarrow> 't index_txn result" where
  "add_decided_block m b serialized_vm_blk_id t =
     rbind (height_key (block_height b)) (\<lambda>key_bytes.
     let value_bytes = get_hash b @ serialized_vm_blk_id in
     rbind (wtxn_put m (tx_data_dbi t) key_bytes value_bytes 0 (tx t)) (\<lambda>x. Inr (t\<lparr>tx := x\<rparr>)))"

text \<open>\<open>value_bytes.begin() + hash.size()\<close> past the end is undefined.\<close>

definition hash_of_value :: "bytes \<Rightarrow> hash result" where
  "hash_of_value value_bytes =
     (if length value_bytes < HASH_LEN then Inl (Undefined_behaviour ''iterator past the end'')
      else xdr_from_opaque (get_opaque_array HASH_LEN) (take HASH_LEN value_bytes))"

definition get_decided_hash_id_pair_bytes ::
    "('e, 't, 'c) mdb \<Rightarrow> nat \<Rightarrow> 'e HotstuffLMDB \<Rightarrow> (hash \<times> bytes) option result" where
  "get_decided_hash_id_pair_bytes m height i =
     rbind (height_key height) (\<lambda>key_val.
     rbind (rbegin m i) (\<lambda>rtxn.
     rbind (get_data_dbi i) (\<lambda>d.
     rbind (txn_get m d key_val rtxn) (\<lambda>value.
     case value of
       None \<Rightarrow> Inr None
     | Some value_bytes \<Rightarrow>
         rbind (hash_of_value value_bytes) (\<lambda>hash. Inr (Some (hash, value_bytes)))))))"

definition get_decided_hash_id_pair ::
    "('e, 't, 'c) mdb \<Rightarrow> (bytes \<Rightarrow> 'i result) \<Rightarrow> nat \<Rightarrow> 'e HotstuffLMDB \<Rightarrow> (hash \<times> 'i) option result" where
  "get_decided_hash_id_pair m vm_block_id height i =
     rbind (get_decided_hash_id_pair_bytes m height i) (\<lambda>out.
     case out of None \<Rightarrow> Inr None
     | Some (hash, bs) \<Rightarrow> rbind (vm_block_id bs) (\<lambda>v. Inr (Some (hash, v))))"

definition qc_key :: bytes where
  "qc_key = dbval_str ''qc''"

definition index_set_qc_on_top_block ::
    "('e, 't, 'c) mdb \<Rightarrow> QuorumCertificate \<Rightarrow> 't index_txn \<Rightarrow> 't index_txn result" where
  "index_set_qc_on_top_block m qc t =
     rbind (xdr_to_opaque size_qc save_qc (qc_serialize qc)) (\<lambda>bs.
     rbind (wtxn_put m (tx_meta_dbi t) qc_key bs 0 (tx t)) (\<lambda>x. Inr (t\<lparr>tx := x\<rparr>)))"

definition index_get_highest_qc :: "('e, 't, 'c) mdb \<Rightarrow> 'e HotstuffLMDB \<Rightarrow> QuorumCertificateWire result" where
  "index_get_highest_qc m i =
     rbind (rbegin m i) (\<lambda>rtxn.
     rbind (txn_get m (metadata_dbi i) qc_key rtxn) (\<lambda>value.
     case value of
       None \<Rightarrow> Inl (Runtime_error ''failed to get highest qc when loading from db'')
     | Some bs \<Rightarrow> xdr_from_opaque load_qc bs))"

text \<open>The cursor: \<open>*it\<close>, and the hash with the identifier.\<close>

definition iter_height_hash :: "kv \<Rightarrow> (nat \<times> hash) result" where
  "iter_height_hash = (\<lambda>(k, v).
     rbind (read_unsigned_big_endian 8 k) (\<lambda>key_parsed.
     rbind (hash_of_value v) (\<lambda>hash. Inr (unat (key_parsed :: 64 word), hash))))"

definition iter_hash_vm_data :: "(bytes \<Rightarrow> 'i result) \<Rightarrow> kv \<Rightarrow> (hash \<times> 'i) result" where
  "iter_hash_vm_data vm_block_id = (\<lambda>(_, v).
     rbind (hash_of_value v) (\<lambda>hash.
     rbind (vm_block_id (drop HASH_LEN v)) (\<lambda>i. Inr (hash, i))))"

definition forward_cursor :: "('e, 't, 'c) mdb \<Rightarrow> 'e HotstuffLMDB \<Rightarrow> 'c cursor result" where
  "forward_cursor m i = rbind (rbegin m i) (\<lambda>rtx. rbind (get_data_dbi i) (\<lambda>d. cursor_open m d rtx))"

definition load_vm_block ::
    "(bytes \<Rightarrow> ('b \<times> bytes) result) \<Rightarrow> filesystem \<Rightarrow> hash \<Rightarrow> 'e HotstuffLMDB \<Rightarrow> 'b result" where
  "load_vm_block load fs hash i =
     rbind (load_block hash (data_directory i) fs) (\<lambda>unparsed_opt.
     case unparsed_opt of
       None \<Rightarrow> Inl (Runtime_error ''failed to load expected block'')
     | Some b \<Rightarrow> xdr_from_opaque load (body b))"

text \<open>What the core uses of it.\<close>

definition lmdb_index :: "('e, 't, 'c) mdb \<Rightarrow> ('e HotstuffLMDB, 't index_txn) index_ops" where
  "lmdb_index m = \<lparr>open_txn = index_open_txn m, txn_add_decided_block = add_decided_block m,
     set_qc_on_top_block = index_set_qc_on_top_block m, commit_txn = index_commit m,
     get_highest_qc = index_get_highest_qc m\<rparr>"

section \<open>The abstract index\<close>

definition abs_value :: "bytes \<Rightarrow> hash \<times> bytes" where
  "abs_value v = (take HASH_LEN v, drop HASH_LEN v)"

definition abs_data :: "(bytes \<Rightarrow> bytes option) \<Rightarrow> nat \<Rightarrow> (hash \<times> bytes) option" where
  "abs_data db height = map_option abs_value (db (be_bytes 8 (word_of_nat height :: 64 word)))"

definition abs_index :: "('e, 't, 'c) mdb_view \<Rightarrow> 'e HotstuffLMDB \<Rightarrow> nat \<Rightarrow> (hash \<times> bytes) option" where
  "abs_index w i = abs_data (env_view w (env i) (data_dbi i))"

text \<open>Every entry has a height for its key and starts with a hash.\<close>

definition data_ok :: "(bytes \<Rightarrow> bytes option) \<Rightarrow> bool" where
  "data_ok db \<longleftrightarrow> (\<forall>k v. db k = Some v \<longrightarrow> length k = 8 \<and> HASH_LEN \<le> length v)"

lemma height_key_eq [simp]: "height_key h = Inr (be_bytes 8 (word_of_nat h :: 64 word))"
  by (simp add: height_key_def write_unsigned_big_endian_eq)

lemma height_key_inject:
  assumes "h < 18446744073709551616" and "k < 18446744073709551616"
  shows "be_bytes 8 (word_of_nat h :: 64 word) = be_bytes 8 (word_of_nat k :: 64 word) \<longleftrightarrow> h = k"
proof
  assume "be_bytes 8 (word_of_nat h :: 64 word) = be_bytes 8 (word_of_nat k :: 64 word)"
  then have "be_val (be_bytes 8 (word_of_nat h :: 64 word)) = be_val (be_bytes 8 (word_of_nat k :: 64 word))"
    by simp
  then show "h = k" using assms by (simp add: be_val_be_bytes unat_of_nat)
qed simp

lemma hash_of_value_eq:
  assumes "HASH_LEN \<le> length v"
  shows "hash_of_value v = Inr (take HASH_LEN v)"
  using assms
  by (simp add: hash_of_value_def xdr_from_opaque_def get_opaque_array_def get_bytes_def xdr_check_def HASH_LEN_def
      padding_def)

text \<open>Adding a block is an update of the abstract index.\<close>

lemma add_decided_block_abs:
  assumes "mdb_laws m w" and "add_decided_block m b i t = Inr t'" and "length (get_hash b) = HASH_LEN"
    and "block_height b < 18446744073709551616" and "h < 18446744073709551616"
  shows "abs_data (txn_view w (tx t') (tx_data_dbi t')) h =
      ((abs_data (txn_view w (tx t) (tx_data_dbi t)))(block_height b \<mapsto> (get_hash b, i))) h"
proof -
  from assms(2) obtain x where x: "wtxn_put m (tx_data_dbi t) (be_bytes 8 (word_of_nat (block_height b) :: 64 word))
      (get_hash b @ i) 0 (tx t) = Inr x" and t': "t' = t\<lparr>tx := x\<rparr>"
    by (auto simp: add_decided_block_def rbind_eq_Inr Let_def)
  show ?thesis
    using wtxn_put_view[OF assms(1) x] t' height_key_inject[OF assms(4,5)] height_key_inject[OF assms(5,4)] assms(3)
    by (auto simp: abs_data_def abs_value_def)
qed

section \<open>One transaction of the core\<close>

text \<open>A transaction as \<open>update\<close> uses it: decided blocks, the certificate, commit.\<close>

lemma keys_distinct [simp]: "qc_key \<noteq> persisted_key" "persisted_key \<noteq> qc_key"
  by (simp_all add: qc_key_def persisted_key_def dbval_str_def)

lemma add_decided_block_frame:
  assumes "mdb_laws m w" and "add_decided_block m b i t = Inr t'"
  shows "tx_data_dbi t' = tx_data_dbi t" and "tx_meta_dbi t' = tx_meta_dbi t"
    and "d \<noteq> tx_data_dbi t \<Longrightarrow> txn_view w (tx t') d = txn_view w (tx t) d"
proof -
  from assms(2) obtain x where x: "wtxn_put m (tx_data_dbi t) (be_bytes 8 (word_of_nat (block_height b) :: 64 word))
      (get_hash b @ i) 0 (tx t) = Inr x" and t': "t' = t\<lparr>tx := x\<rparr>"
    by (auto simp: add_decided_block_def rbind_eq_Inr Let_def)
  then show "tx_data_dbi t' = tx_data_dbi t" "tx_meta_dbi t' = tx_meta_dbi t"
    "d \<noteq> tx_data_dbi t \<Longrightarrow> txn_view w (tx t') d = txn_view w (tx t) d"
    using wtxn_put_view[OF assms(1) x] by simp_all
qed

lemma set_qc_view:
  assumes "mdb_laws m w" and "index_set_qc_on_top_block m qc t = Inr t'" and "wf_qc (qc_serialize qc)"
  shows "tx_data_dbi t' = tx_data_dbi t" and "tx_meta_dbi t' = tx_meta_dbi t"
    and "txn_view w (tx t') = (txn_view w (tx t))(tx_meta_dbi t :=
      (txn_view w (tx t) (tx_meta_dbi t))(qc_key \<mapsto> save_qc (qc_serialize qc)))"
proof -
  have s: "xdr_to_opaque size_qc save_qc (qc_serialize qc) = Inr (save_qc (qc_serialize qc))"
    using assms(3) by (rule qc_codec.to_opaque)
  from assms(2) obtain x where x: "wtxn_put m (tx_meta_dbi t) qc_key (save_qc (qc_serialize qc)) 0 (tx t) = Inr x"
    and t': "t' = t\<lparr>tx := x\<rparr>"
    by (auto simp: index_set_qc_on_top_block_def rbind_eq_Inr s)
  then show "tx_data_dbi t' = tx_data_dbi t" and "tx_meta_dbi t' = tx_meta_dbi t"
    and "txn_view w (tx t') = (txn_view w (tx t))(tx_meta_dbi t :=
      (txn_view w (tx t) (tx_meta_dbi t))(qc_key \<mapsto> save_qc (qc_serialize qc)))"
    using wtxn_put_view[OF assms(1) x] by simp_all
qed

lemma index_open_txn_view:
  assumes "mdb_laws m w" and "index_open_txn m i = Inr t"
  shows "txn_view w (tx t) = env_view w (env i)" and "tx_data_dbi t = data_dbi i"
    and "tx_meta_dbi t = metadata_dbi i" and "env_open i" and "dbi_valid i"
  using assms(2) env_begin_view(1)[OF assms(1)]
  by (auto simp: index_open_txn_def wbegin_def get_data_dbi_def rbind_eq_Inr split: if_splits)

lemma index_commit_view:
  assumes "mdb_laws m w" and "env_open i" and "index_commit m t i = Inr i'"
  shows "\<exists>e n. i' = i\<lparr>env := e\<rparr> \<and> env_view w e = (txn_view w (tx t))(metadata_dbi i :=
    (txn_view w (tx t) (metadata_dbi i))(persisted_key \<mapsto> dbval_of_u64 n))"
proof -
  obtain n where "commit_wtxn m (tx t) (u64 (n + 1)) True i = Inr i'"
    using assms(3) by (auto simp: index_commit_def rbind_eq_Inr)
  then show ?thesis using commit_wtxn_view[OF assms(1,2)] by blast
qed

lemma get_highest_qc_view:
  assumes "mdb_laws m w"
  shows "index_get_highest_qc m i =
    (case env_view w (env i) (metadata_dbi i) qc_key of
       None \<Rightarrow> Inl (Runtime_error ''failed to get highest qc when loading from db'')
     | Some bs \<Rightarrow> xdr_from_opaque load_qc bs)"
proof -
  obtain t where "env_rbegin m (env i) = Inr t" "txn_view w t = env_view w (env i)"
    using env_rbegin_total[OF assms] by blast
  then show ?thesis by (simp add: index_get_highest_qc_def rbegin_def txn_get_view[OF assms])
qed

lemma highest_qc_after_commit:
  assumes laws: "mdb_laws m w" and open_i: "env_open i"
    and meta: "tx_meta_dbi t = metadata_dbi i"
    and set: "index_set_qc_on_top_block m qc t = Inr t'" and commit: "index_commit m t' i = Inr i'"
    and wf: "wf_qc (qc_serialize qc)"
  shows "index_get_highest_qc m i' = Inr (qc_serialize qc)"
proof -
  obtain e n where i': "i' = i\<lparr>env := e\<rparr>" and e: "env_view w e = (txn_view w (tx t'))(metadata_dbi i :=
      (txn_view w (tx t') (metadata_dbi i))(persisted_key \<mapsto> dbval_of_u64 n))"
    using index_commit_view[OF laws open_i commit] by blast
  show ?thesis
    using get_highest_qc_view[OF laws, of i'] set_qc_view[OF laws set wf] meta i' e
      qc_codec.from_opaque_save[OF wf] by simp
qed

lemma abs_index_after_commit:
  assumes laws: "mdb_laws m w" and open_i: "env_open i" and ne: "data_dbi i \<noteq> metadata_dbi i"
    and meta: "tx_meta_dbi t = metadata_dbi i" and data: "tx_data_dbi t = data_dbi i"
    and set: "index_set_qc_on_top_block m qc t = Inr t'" and commit: "index_commit m t' i = Inr i'"
    and wf: "wf_qc (qc_serialize qc)"
  shows "abs_index w i' = abs_data (txn_view w (tx t) (data_dbi i))"
proof -
  obtain e n where i': "i' = i\<lparr>env := e\<rparr>" and e: "env_view w e = (txn_view w (tx t'))(metadata_dbi i :=
      (txn_view w (tx t') (metadata_dbi i))(persisted_key \<mapsto> dbval_of_u64 n))"
    using index_commit_view[OF laws open_i commit] by blast
  show ?thesis using set_qc_view[OF laws set wf] meta i' e ne by (simp add: abs_index_def)
qed

text \<open>What a lookup by height returns: the hash, and all the bytes of the entry.\<close>

lemma get_decided_view:
  assumes "mdb_laws m w" and "dbi_valid i" and "data_ok (env_view w (env i) (data_dbi i))"
  shows "get_decided_hash_id_pair_bytes m h i =
    Inr (map_option (\<lambda>(hash, vid). (hash, hash @ vid)) (abs_index w i h))"
proof -
  obtain t where t: "env_rbegin m (env i) = Inr t" "txn_view w t = env_view w (env i)"
    using env_rbegin_total[OF assms(1)] by blast
  let ?v = "env_view w (env i) (data_dbi i) (be_bytes 8 (word_of_nat h :: 64 word))"
  have "HASH_LEN \<le> length v" if "?v = Some v" for v
    using assms(3) that unfolding data_ok_def by blast
  then show ?thesis using t assms(2)
    by (cases ?v) (simp_all add: get_decided_hash_id_pair_bytes_def rbegin_def get_data_dbi_def
        txn_get_view[OF assms(1)] abs_index_def abs_data_def abs_value_def hash_of_value_eq)
qed

section \<open>The cursor visits the heights in order\<close>

definition collect :: "('a \<Rightarrow> 'b result) \<Rightarrow> 'a \<Rightarrow> 'b list \<Rightarrow> 'b list result" where
  "collect f x acc = rbind (f x) (\<lambda>y. Inr (acc @ [y]))"

lemma rfold_collect:
  assumes "\<And>x. x \<in> set xs \<Longrightarrow> f x = Inr (g x)"
  shows "rfold (collect f) xs acc = Inr (acc @ map g xs)"
  using assms by (induction xs arbitrary: acc) (simp_all add: collect_def)

definition key_height :: "bytes \<Rightarrow> nat" where
  "key_height k = be_val k"

lemma key_of_height:
  assumes "length k = 8"
  shows "be_bytes 8 (word_of_nat (be_val k) :: 64 word) = k" and "be_val k < 18446744073709551616"
proof -
  show b: "be_val k < 18446744073709551616" using be_val_bound[of k] assms by simp
  let ?k = "be_bytes 8 (word_of_nat (be_val k) :: 64 word)"
  have v: "be_val ?k = be_val k" using b by (simp add: be_val_be_bytes unat_of_nat)
  have "\<not> bytes_less ?k k" "\<not> bytes_less k ?k"
    using bytes_less_be_val[of ?k k] bytes_less_be_val[of k ?k] v assms by simp_all
  then show "?k = k" using bytes_less_total[of ?k k] by blast
qed

lemma iter_height_hash_eq:
  assumes "length k = 8" and "HASH_LEN \<le> length v"
  shows "iter_height_hash (k, v) = Inr (be_val k, take HASH_LEN v)"
proof -
  let ?n = "word_of_nat (be_val k) :: 64 word"
  have "read_unsigned_big_endian 8 (be_bytes 8 ?n @ []) = Inr ?n" by (rule read_be_bytes) simp
  then have "read_unsigned_big_endian 8 k = Inr ?n" using key_of_height[OF assms(1)] by simp
  then show ?thesis using assms key_of_height(2)[OF assms(1)]
    by (simp add: iter_height_hash_def hash_of_value_eq unat_of_nat)
qed

lemma sorted_bytes_distinct: "sorted_wrt bytes_less xs \<Longrightarrow> distinct xs"
  by (induction xs) auto

lemma cursor_heights:
  assumes laws: "mdb_laws m w" and valid: "dbi_valid i" and ok: "data_ok (env_view w (env i) (data_dbi i))"
  shows "\<exists>c es. forward_cursor m i = Inr c
    \<and> (\<forall>fuel > length es. cursor_for fuel m (collect iter_height_hash) c [] = Inr es)
    \<and> sorted_wrt (<) (map fst es)
    \<and> (\<forall>h hash. (h, hash) \<in> set es \<longleftrightarrow> h < 18446744073709551616 \<and> (\<exists>v. abs_index w i h = Some (hash, v)))"
proof -
  let ?db = "env_view w (env i) (data_dbi i)"
  obtain t where t: "env_rbegin m (env i) = Inr t" "txn_view w t = env_view w (env i)"
    using env_rbegin_total[OF laws] by blast
  obtain c where c: "cursor_open m (data_dbi i) t = Inr c"
    "sorted_wrt bytes_less (map fst (cursor_all w (cursor_c c)))" "map_of (cursor_all w (cursor_c c)) = ?db"
    using cursor_open_view[OF laws, of "data_dbi i" t] t(2) by auto
  let ?all = "cursor_all w (cursor_c c)"
  let ?g = "\<lambda>(k, v). (be_val k, take HASH_LEN v)"
  have dist: "distinct (map fst ?all)"
    using c(2) by (rule sorted_bytes_distinct)
  have entry: "(k, v) \<in> set ?all \<longleftrightarrow> ?db k = Some v" for k v
    using map_of_eq_Some_iff[OF dist] c(3) by metis
  have kv: "length k = 8" "HASH_LEN \<le> length v" if "(k, v) \<in> set ?all" for k v
    using ok entry that unfolding data_ok_def by blast+
  have run: "cursor_for fuel m (collect iter_height_hash) c [] = Inr (map ?g ?all)" if "fuel > length ?all" for fuel
    using cursor_for_run[OF laws that, of "collect iter_height_hash" "[]"] rfold_collect[of ?all iter_height_hash ?g "[]"] iter_height_hash_eq kv by auto
  have sorted: "sorted_wrt (<) (map fst (map ?g ?all))"
  proof -
    have "sorted_wrt (\<lambda>x y. bytes_less (fst x) (fst y)) ?all" using c(2) by (simp add: sorted_wrt_map)
    then have "sorted_wrt (\<lambda>x y. be_val (fst x) < be_val (fst y)) ?all"
      by (rule sorted_wrt_mono_rel[rotated]) (use kv bytes_less_be_val in fastforce)
    then show ?thesis by (simp add: sorted_wrt_map case_prod_beta)
  qed
  have mem: "(h, hash) \<in> set (map ?g ?all) \<longleftrightarrow> h < 18446744073709551616 \<and> (\<exists>v. abs_index w i h = Some (hash, v))"
    for h hash
  proof
    assume "(h, hash) \<in> set (map ?g ?all)"
    then obtain k v where k: "(k, v) \<in> set ?all" "h = be_val k" "hash = take HASH_LEN v" by auto
    then show "h < 18446744073709551616 \<and> (\<exists>v. abs_index w i h = Some (hash, v))"
      using key_of_height[OF kv(1)[OF k(1)]] entry[of k v] by (simp add: abs_index_def abs_data_def abs_value_def)
  next
    assume a: "h < 18446744073709551616 \<and> (\<exists>v. abs_index w i h = Some (hash, v))"
    then obtain v where v: "?db (be_bytes 8 (word_of_nat h :: 64 word)) = Some v" "hash = take HASH_LEN v"
      by (auto simp: abs_index_def abs_data_def abs_value_def)
    have "be_val (be_bytes 8 (word_of_nat h :: 64 word)) = h" using a by (simp add: be_val_be_bytes unat_of_nat)
    then have "(h, hash) = ?g (be_bytes 8 (word_of_nat h :: 64 word), v)" using v(2) by simp
    moreover have "(be_bytes 8 (word_of_nat h :: 64 word), v) \<in> set ?all" using v(1) entry by blast
    ultimately show "(h, hash) \<in> set (map ?g ?all)" unfolding set_map by (rule image_eqI)
  qed
  have "forward_cursor m i = Inr c" using t(1) c(1) valid by (simp add: forward_cursor_def rbegin_def get_data_dbi_def)
  then show ?thesis using run sorted mem by (intro exI[of _ c] exI[of _ "map ?g ?all"]) simp
qed

section \<open>Claims\<close>

text \<open>The blocks a commit adds, in order.\<close>

definition add_decided_blocks :: "('e, 't, 'c) mdb \<Rightarrow> (HotstuffBlock \<times> bytes) list \<Rightarrow> 't index_txn \<Rightarrow> 't index_txn result" where
  "add_decided_blocks m = rfold (\<lambda>(b, i). add_decided_block m b i)"

lemma fold_updates_at:
  "f h = g h \<Longrightarrow> fold (\<lambda>(b, i) ix. ix(block_height b \<mapsto> (get_hash b, i))) l f h
     = fold (\<lambda>(b, i) ix. ix(block_height b \<mapsto> (get_hash b, i))) l g h"
proof (induction l arbitrary: f g)
  case (Cons x l)
  obtain b i where x: "x = (b, i)" by (cases x)
  show ?case
    using Cons.IH[of "f(block_height b \<mapsto> (get_hash b, i))" "g(block_height b \<mapsto> (get_hash b, i))"] Cons.prems
    by (simp add: x)
qed simp

lemma add_decided_blocks_abs:
  assumes "mdb_laws m w" and "add_decided_blocks m l t = Inr t'"
    and "\<forall>(b, i) \<in> set l. length (get_hash b) = HASH_LEN \<and> block_height b < 18446744073709551616"
    and "h < 18446744073709551616"
  shows "abs_data (txn_view w (tx t') (tx_data_dbi t')) h =
      (fold (\<lambda>(b, i) ix. ix(block_height b \<mapsto> (get_hash b, i))) l (abs_data (txn_view w (tx t) (tx_data_dbi t)))) h
    \<and> tx_data_dbi t' = tx_data_dbi t \<and> tx_meta_dbi t' = tx_meta_dbi t"
  using assms(2,3)
proof (induction l arbitrary: t)
  case Nil
  then show ?case by (simp add: add_decided_blocks_def)
next
  case (Cons x l)
  obtain b i where x: "x = (b, i)" by (cases x)
  obtain t1 where t1: "add_decided_block m b i t = Inr t1" and r: "add_decided_blocks m l t1 = Inr t'"
    using Cons.prems(1) by (auto simp: add_decided_blocks_def x rbind_eq_Inr)
  have b: "length (get_hash b) = HASH_LEN" "block_height b < 18446744073709551616" using Cons.prems(2) x by auto
  let ?u = "\<lambda>(b, i) ix. ix(block_height b \<mapsto> (get_hash b, i))"
  let ?g = "abs_data (txn_view w (tx t1) (tx_data_dbi t1))" and ?f = "abs_data (txn_view w (tx t) (tx_data_dbi t))"
  have "\<forall>(b, i) \<in> set l. length (get_hash b) = HASH_LEN \<and> block_height b < 18446744073709551616"
    using Cons.prems(2) by simp
  note IH = Cons.IH[OF r this]
  have t': "tx_data_dbi t' = tx_data_dbi t1" "tx_meta_dbi t' = tx_meta_dbi t1" using IH by blast+
  have "abs_data (txn_view w (tx t') (tx_data_dbi t')) h = fold ?u l ?g h" using IH by blast
  also have "fold ?u l ?g h = fold ?u l (?u x ?f) h"
    unfolding x by (rule fold_updates_at) (use add_decided_block_abs[OF assms(1) t1 b assms(4)] in simp)
  finally have "abs_data (txn_view w (tx t') (tx_data_dbi t')) h = fold ?u (x # l) ?f h" by (simp only: fold_Cons o_def)
  then show ?case using t' add_decided_block_frame(1,2)[OF assms(1) t1] by (simp only: simp_thms)
qed


definition empty_index :: "map_env HotstuffLMDB" where
  "empty_index = \<lparr>env = \<lparr>db_names = [''metadata'', ''hotstuff''], db_puts = (\<lambda>_. [])\<rparr>, env_open = True, metadata_dbi = 0,
     metadata_dbi_open = True, data_dbi = 1, dbi_valid = True, data_directory = ''d/''\<rparr>"

lemma sample_qc_wf: "wf_qc (qc_serialize sample_qc)"
  by (simp add: wf_qc_def qc_serialize_def sample_qc_def wf_hash_def wf_signature_def HASH_LEN_def SIGNATURE_LEN_def
      MAX_REPLICAS_def)




text \<open>\<open>get_decided_hash_id_pair_\<close> returns the whole stored value as the identifier: what a caller gets is the
identifier with the 32 bytes of the hash in front of it.\<close>

lemma decided_pair_keeps_hash_in_id:
  assumes "mdb_laws m w" and "dbi_valid i" and "data_ok (env_view w (env i) (data_dbi i))"
    and "abs_index w i h = Some (hash, v)"
  shows "get_decided_hash_id_pair_bytes m h i = Inr (Some (hash, hash @ v))"
  using get_decided_view[OF assms(1-3), of h] assms(4) by simp

definition one_entry_index :: "map_env HotstuffLMDB" where
  "one_entry_index = empty_index\<lparr>env := (env empty_index)\<lparr>db_puts := (\<lambda>_. [])(1 :=
     [(be_bytes 8 (word_of_nat 1 :: 64 word), replicate 32 7 @ [9])])\<rparr>\<rparr>"

lemma decided_pair_keeps_hash_in_id_instance:
  "get_decided_hash_id_pair_bytes map_mdb 1 one_entry_index = Inr (Some (replicate 32 7, replicate 32 7 @ [9]))"
  by (rule decided_pair_keeps_hash_in_id[OF map_mdb_laws])
    (simp_all add: one_entry_index_def empty_index_def data_ok_def map_mdb_view_def abs_index_def abs_data_def
      abs_value_def HASH_LEN_def)

end
