(* ===== verification/Replica_Inv.thy ===== *)
theory Replica_Inv
  imports Replica
begin

text \<open>
  The invariant of one replica. Blocks are related to the abstract tree of \<open>Chain_Safety\<close> through
  their hashes: a table gives the header of every hash that occurs in a run (one header per hash,
  which is what collision resistance provides), and parent, justify and height are read off it.

  The first part shows that the block objects of a replica mirror the tree, so that pointers stand
  for hashes and the walks along parent pointers end where the tree says. The second part states what
  the protocol variables mean with respect to the log of votes and shows that the handlers keep it.
\<close>

section \<open>The tree of a header table\<close>

type_synonym table = "hash \<Rightarrow> HotstuffBlockHeader option"

definition par_of :: "table \<Rightarrow> hash \<Rightarrow> hash option" where
  "par_of T k = (if k = zero_hash then None else map_option parent_hash (T k))"

definition just_of :: "table \<Rightarrow> hash \<Rightarrow> hash option" where
  "just_of T k = (if k = zero_hash then None else map_option (\<lambda>hd. justify (header_qc hd)) (T k))"

inductive rooted :: "table \<Rightarrow> hash \<Rightarrow> nat \<Rightarrow> bool" for T where
  rooted_root: "rooted T zero_hash 0"
| rooted_child: "par_of T k = Some p \<Longrightarrow> rooted T p n \<Longrightarrow> rooted T k (Suc n)"

inductive_cases rootedE: "rooted T k n"

definition node_of :: "table \<Rightarrow> hash \<Rightarrow> bool" where
  "node_of T k \<longleftrightarrow> (\<exists>n. rooted T k n)"

definition ht_of :: "table \<Rightarrow> hash \<Rightarrow> nat" where
  "ht_of T k = (LEAST n. rooted T k n)"

lemma par_of_root [simp]: "par_of T zero_hash = None"
  by (simp add: par_of_def)

lemma rooted_fun: "rooted T k n \<Longrightarrow> rooted T k m \<Longrightarrow> m = n"
proof (induction arbitrary: m rule: rooted.induct)
  case rooted_root
  then show ?case by (auto elim: rootedE)
next
  case (rooted_child k p n)
  from rooted_child.prems show ?case
  proof (cases rule: rooted.cases)
    case rooted_root
    then show ?thesis using rooted_child.hyps(1) by simp
  next
    case (rooted_child p' n')
    then show ?thesis using rooted_child.hyps rooted_child.IH \<open>par_of T k = Some p\<close>
      by (metis option.inject rooted_child.IH)
  qed
qed

lemma ht_of_rooted: "rooted T k n \<Longrightarrow> ht_of T k = n"
  unfolding ht_of_def by (rule Least_equality) (auto dest: rooted_fun)

lemma node_of_par:
  assumes "node_of T k" and "par_of T k = Some p"
  shows "node_of T p \<and> ht_of T k = Suc (ht_of T p)"
proof -
  from assms(1) obtain n where "rooted T k n" by (auto simp: node_of_def)
  then show ?thesis
  proof (cases rule: rooted.cases)
    case rooted_root
    then show ?thesis using assms(2) by simp
  next
    case (rooted_child p' m)
    then have "rooted T p m" "n = Suc m" using assms(2) by auto
    then show ?thesis using ht_of_rooted \<open>rooted T k n\<close> by (auto simp: node_of_def)
  qed
qed

text \<open>Quorums of a configuration with few enough faulty members.\<close>

definition faults_ok :: "ReplicaConfig \<Rightarrow> replica_id set \<Rightarrow> bool" where
  "faults_ok cfg byz \<longleftrightarrow> config_ok cfg \<and> finite byz \<and> card byz < quorum_overlap cfg"

definition safe_quorum :: "ReplicaConfig \<Rightarrow> replica_id set \<Rightarrow> replica_id set \<Rightarrow> bool" where
  "safe_quorum cfg byz Q \<longleftrightarrow> faults_ok cfg byz \<and> is_quorum cfg Q"

lemma safe_quorum_meet:
  assumes "safe_quorum cfg byz Q" and "safe_quorum cfg byz Q'"
  shows "\<exists>r. r \<in> Q \<and> r \<in> Q' \<and> r \<notin> byz"
  using assms replica_quorums.honest_in_common[of cfg Q Q' byz]
  by (simp add: safe_quorum_def faults_ok_def)

interpretation votes: chained_votes "par_of T" "ht_of T" "node_of T" zero_hash "just_of T"
  "safe_quorum cfg byz" "\<lambda>r. r \<notin> byz" for T cfg byz
proof
  show "node_of T b \<Longrightarrow> par_of T b = Some p \<Longrightarrow> node_of T p \<and> ht_of T b = Suc (ht_of T p)" for b p
    by (rule node_of_par)
  show "node_of T b \<Longrightarrow> par_of T b = None \<Longrightarrow> b = zero_hash" for b
    by (auto simp: node_of_def elim: rootedE)
  show "ht_of T zero_hash = 0" by (rule ht_of_rooted) (rule rooted_root)
  show "node_of T zero_hash" using rooted_root node_of_def by blast
  show "safe_quorum cfg byz Q \<Longrightarrow> safe_quorum cfg byz Q' \<Longrightarrow> \<exists>r. r \<in> Q \<and> r \<in> Q' \<and> r \<notin> byz" for Q Q'
    by (rule safe_quorum_meet)
qed simp

section \<open>Block objects mirror the tree\<close>

definition object_ok :: "table \<Rightarrow> (hash \<Rightarrow> addr option) \<Rightarrow> heap \<Rightarrow> addr \<Rightarrow> bool" where
  "object_ok T c hp a \<longleftrightarrow>
     get_hash (hp ! a) \<noteq> zero_hash \<and> T (get_hash (hp ! a)) = Some (header (wire_block (hp ! a)))
     \<and> (\<exists>qc. parsed_qc (hp ! a) = Some qc \<and> qc_ok qc \<and> obj_hash qc = justify (header_qc (header (wire_block (hp ! a)))))
     \<and> (parent_block_ptr (hp ! a) \<noteq> None \<longrightarrow> linked c hp a)"

definition tree_inv :: "table \<Rightarrow> ('d, 'x) replica_scheme \<Rightarrow> bool" where
  "tree_inv T s \<longleftrightarrow> store_ok (genesis s) (block_store s) (blk_heap s)
     \<and> heights_below 4294967296 (blk_heap s)
     \<and> (\<forall>a < length (blk_heap s). a \<noteq> genesis s \<longrightarrow> object_ok T (cache s) (blk_heap s) a)"

text \<open>Objects that have been inserted, and those among them that the store knows.\<close>

definition in_tree :: "('d, 'x) replica_scheme \<Rightarrow> addr \<Rightarrow> bool" where
  "in_tree s a \<longleftrightarrow> a = genesis s \<or> linked (cache s) (blk_heap s) a"

definition stored :: "('d, 'x) replica_scheme \<Rightarrow> addr \<Rightarrow> bool" where
  "stored s a \<longleftrightarrow> (\<exists>h. cache s h = Some a)"

abbreviation hash_at :: "('d, 'x) core_scheme \<Rightarrow> addr \<Rightarrow> hash" where
  "hash_at s a \<equiv> get_hash (blk s a)"

lemma tree_invD:
  assumes "tree_inv T s"
  shows "store_ok (genesis s) (block_store s) (blk_heap s)"
    and "heights_below 4294967296 (blk_heap s)"
    and "a < length (blk_heap s) \<Longrightarrow> a \<noteq> genesis s \<Longrightarrow> object_ok T (cache s) (blk_heap s) a"
  using assms by (auto simp: tree_inv_def)

lemma stored_hash: "tree_inv T s \<Longrightarrow> stored s a \<Longrightarrow> cache s (hash_at s a) = Some a"
  using store_okD(2)[OF tree_invD(1)] unfolding stored_def by metis

lemma stored_inject: "tree_inv T s \<Longrightarrow> stored s a \<Longrightarrow> stored s b \<Longrightarrow> hash_at s a = hash_at s b \<Longrightarrow> a = b"
  using stored_hash by (metis option.inject)

lemma stored_in_tree: "tree_inv T s \<Longrightarrow> stored s a \<Longrightarrow> in_tree s a"
  using store_okD(3)[OF tree_invD(1)] unfolding stored_def in_tree_def by metis

lemma genesis_stored: "tree_inv T s \<Longrightarrow> stored s (genesis s)"
  using store_ok_genesis(2)[OF tree_invD(1)] unfolding stored_def by metis

lemma genesis_facts:
  assumes "tree_inv T s"
  shows "hash_at s (genesis s) = zero_hash" and "height_of s (genesis s) = 0"
    and "justify_block_ptr (blk s (genesis s)) = None" and "parent_block_ptr (blk s (genesis s)) = None"
    and "genesis s < length (blk_heap s)" and "\<not> linked (cache s) (blk_heap s) (genesis s)"
  using store_ok_genesis(1)[OF tree_invD(1)[OF assms]] by (auto simp: is_genesis_def linked_def)

lemma in_tree_length: "tree_inv T s \<Longrightarrow> in_tree s a \<Longrightarrow> a < length (blk_heap s)"
  using genesis_facts(5) unfolding in_tree_def linked_def by blast

lemma in_tree_height: "tree_inv T s \<Longrightarrow> in_tree s a \<Longrightarrow> height_of s a < 4294967296"
  using heights_belowD[OF tree_invD(2)] in_tree_length by blast

text \<open>The links of an inserted block, as pointers and as hashes.\<close>

lemma linked_links:
  assumes "tree_inv T s" and "linked (cache s) (blk_heap s) a"
  obtains p j qc where "parent_block_ptr (blk s a) = Some p" and "stored s p"
    and "par_of T (hash_at s a) = Some (hash_at s p)" and "height_of s a = Suc (height_of s p)"
    and "justify_block_ptr (blk s a) = Some j" and "stored s j"
    and "just_of T (hash_at s a) = Some (hash_at s j)"
    and "parsed_qc (blk s a) = Some qc" and "obj_hash qc = hash_at s j"
proof -
  have ag: "a \<noteq> genesis s" using genesis_facts(6)[OF assms(1)] assms(2) by blast
  from assms(2) obtain p j qc where l: "a < length (blk_heap s)" "parent_block_ptr (blk s a) = Some p"
    "cache s (get_parent_hash (blk s a)) = Some p" "parsed_qc (blk s a) = Some qc"
    "justify_block_ptr (blk s a) = Some j" "cache s (obj_hash qc) = Some j"
    "height_of s a = Suc (height_of s p)" by (rule linkedE)
  have o: "hash_at s a \<noteq> zero_hash" "T (hash_at s a) = Some (header (wire_block (blk s a)))"
    "obj_hash qc = justify (header_qc (header (wire_block (blk s a))))"
    using tree_invD(3)[OF assms(1) l(1) ag] l(4) by (auto simp: object_ok_def)
  have h: "hash_at s p = get_parent_hash (blk s a)" "hash_at s j = obj_hash qc"
    using store_okD(2)[OF tree_invD(1)[OF assms(1)]] l(3,6) by auto
  have st: "stored s p" "stored s j" using l(3,6) by (auto simp: stored_def)
  have pj: "par_of T (hash_at s a) = Some (hash_at s p)" "just_of T (hash_at s a) = Some (hash_at s j)"
    using o h by (simp_all add: par_of_def just_of_def get_parent_hash_def)
  show ?thesis by (rule that[OF l(2) st(1) pj(1) l(7) l(5) st(2) pj(2) l(4) h(2)[symmetric]])
qed

lemma linked_not_root:
  assumes "tree_inv T s" and "linked (cache s) (blk_heap s) a"
  shows "a \<noteq> genesis s" and "hash_at s a \<noteq> zero_hash"
proof -
  show "a \<noteq> genesis s" using genesis_facts(6)[OF assms(1)] assms(2) by blast
  with assms show "hash_at s a \<noteq> zero_hash"
    using tree_invD(3)[OF assms(1)] unfolding object_ok_def linked_def by blast
qed

lemma in_tree_rooted: "tree_inv T s \<Longrightarrow> in_tree s a \<Longrightarrow> rooted T (hash_at s a) (height_of s a)"
proof (induction "height_of s a" arbitrary: a rule: less_induct)
  case less
  show ?case
  proof (cases "a = genesis s")
    case True
    then show ?thesis using genesis_facts(1,2)[OF less.prems(1)] rooted_root by metis
  next
    case False
    then have "linked (cache s) (blk_heap s) a" using less.prems(2) by (simp add: in_tree_def)
    with less.prems(1) obtain p where p: "stored s p" "par_of T (hash_at s a) = Some (hash_at s p)"
      "height_of s a = Suc (height_of s p)" by (rule linked_links)
    have "rooted T (hash_at s p) (height_of s p)"
      using less.hyps[of p] p(3) stored_in_tree[OF less.prems(1) p(1)] less.prems(1) by simp
    then show ?thesis using p rooted_child by metis
  qed
qed

lemma in_tree_node:
  "tree_inv T s \<Longrightarrow> in_tree s a \<Longrightarrow> node_of T (hash_at s a) \<and> ht_of T (hash_at s a) = height_of s a"
  using in_tree_rooted ht_of_rooted by (metis node_of_def)

text \<open>Every ancestor of an inserted block is a stored block (or the block itself).\<close>

lemma in_tree_ancestor:
  assumes "extends (par_of T) k h" and "tree_inv T s" and "in_tree s a" and "hash_at s a = k"
  shows "h = k \<or> (\<exists>x. stored s x \<and> hash_at s x = h)"
  using assms
proof (induction arbitrary: a)
  case (extends_refl b)
  then show ?case by simp
next
  case (extends_step b p h)
  have "a \<noteq> genesis s" using extends_step.hyps(1) extends_step.prems genesis_facts(1) by fastforce
  then have "linked (cache s) (blk_heap s) a" using extends_step.prems(2) by (simp add: in_tree_def)
  with extends_step.prems(1) obtain x where x: "stored s x" "par_of T (hash_at s a) = Some (hash_at s x)"
    by (rule linked_links)
  then have "p = hash_at s x" using extends_step.hyps(1) extends_step.prems(3) by simp
  moreover have "in_tree s x" using stored_in_tree extends_step.prems(1) x(1) by blast
  ultimately show ?case using extends_step.IH[of x] extends_step.prems(1) x(1) by metis
qed

section \<open>The walks along parent pointers\<close>

text \<open>
  The loop ends, at the ancestor of the bounding height (or at once), having visited exactly the
  ancestors above it.
\<close>

lemma walk_down_ends:
  assumes "tree_inv T s" and "in_tree s b" and "height_of s b < fuel"
  shows "\<exists>q e. walk_down fuel (blk_heap s) bound b = Inr (q, e)
    \<and> height_of s e = min (height_of s b) bound
    \<and> extends (par_of T) (hash_at s b) (hash_at s e) \<and> (e = b \<or> stored s e)
    \<and> (\<forall>x \<in> set q. (x = b \<or> stored s x) \<and> bound < height_of s x \<and> height_of s x \<le> height_of s b)
    \<and> (\<forall>h. extends (par_of T) (hash_at s b) h \<longrightarrow> bound < ht_of T h \<longrightarrow> h \<in> hash_at s ` set q)"
  using assms(2,3)
proof (induction fuel arbitrary: b)
  case 0
  then show ?case by simp
next
  case (Suc fuel)
  show ?case
  proof (cases "bound < height_of s b")
    case False
    have "\<not> bound < ht_of T h" if "extends (par_of T) (hash_at s b) h" for h
      using votes.extends_node[OF that] in_tree_node[OF assms(1) Suc.prems(1)] False by simp
    with False show ?thesis by (auto simp: min_def)
  next
    case True
    then have "b \<noteq> genesis s" using genesis_facts(2)[OF assms(1)] by auto
    then have "linked (cache s) (blk_heap s) b" using Suc.prems(1) by (simp add: in_tree_def)
    with assms(1) obtain p where p: "parent_block_ptr (blk s b) = Some p" "stored s p"
      "par_of T (hash_at s b) = Some (hash_at s p)" "height_of s b = Suc (height_of s p)"
      by (rule linked_links)
    have "in_tree s p" using stored_in_tree[OF assms(1) p(2)] .
    then obtain q e where IH: "walk_down fuel (blk_heap s) bound p = Inr (q, e)"
      "height_of s e = min (height_of s p) bound" "extends (par_of T) (hash_at s p) (hash_at s e)"
      "e = p \<or> stored s e"
      "\<forall>x \<in> set q. (x = p \<or> stored s x) \<and> bound < height_of s x \<and> height_of s x \<le> height_of s p"
      "\<forall>h. extends (par_of T) (hash_at s p) h \<longrightarrow> bound < ht_of T h \<longrightarrow> h \<in> hash_at s ` set q"
      using Suc.IH[of p] Suc.prems(2) p(4) by auto
    have "walk_down (Suc fuel) (blk_heap s) bound b = Inr (b # q, e)"
      using True p(1) IH(1) by (simp add: deref_def)
    moreover have "height_of s e = min (height_of s b) bound" using IH(2) True p(4) by simp
    moreover have "extends (par_of T) (hash_at s b) (hash_at s e)" using p(3) IH(3) by (rule extends_step)
    moreover have "e = b \<or> stored s e" using IH(4) p(2) by blast
    moreover have "\<forall>x \<in> set (b # q). (x = b \<or> stored s x) \<and> bound < height_of s x \<and> height_of s x \<le> height_of s b"
    proof
      fix x assume "x \<in> set (b # q)"
      then consider "x = b" | "x \<in> set q" by auto
      then show "(x = b \<or> stored s x) \<and> bound < height_of s x \<and> height_of s x \<le> height_of s b"
      proof cases
        case 2
        then show ?thesis using IH(5) p(2,4) by auto
      qed (use True in simp)
    qed
    moreover have "\<forall>h. extends (par_of T) (hash_at s b) h \<longrightarrow> bound < ht_of T h \<longrightarrow> h \<in> hash_at s ` set (b # q)"
    proof (intro allI impI)
      fix h assume h: "extends (par_of T) (hash_at s b) h" "bound < ht_of T h"
      from h(1) show "h \<in> hash_at s ` set (b # q)"
      proof (cases rule: extends.cases)
        case (extends_step p')
        then show ?thesis using IH(6) h(2) p(3) by auto
      qed simp
    qed
    ultimately show ?thesis by blast
  qed
qed

lemma walk_endsE:
  assumes "tree_inv T s" and "in_tree s b"
  obtains q e where "walk_down (Suc (height_of s b)) (blk_heap s) bound b = Inr (q, e)"
    and "height_of s e = min (height_of s b) bound"
    and "extends (par_of T) (hash_at s b) (hash_at s e)" and "e = b \<or> stored s e"
    and "\<And>x. x \<in> set q \<Longrightarrow> (x = b \<or> stored s x) \<and> bound < height_of s x \<and> height_of s x \<le> height_of s b"
    and "\<And>h. extends (par_of T) (hash_at s b) h \<Longrightarrow> bound < ht_of T h \<Longrightarrow> h \<in> hash_at s ` set q"
  using walk_down_ends[OF assms lessI, of bound] by blast

lemma walk_run:
  assumes "tree_inv T s" and "in_tree s b"
    and "walk_down (Suc (height_of s b)) (blk_heap s) bound b = Inr (q, e)"
  shows "height_of s e = min (height_of s b) bound"
    and "extends (par_of T) (hash_at s b) (hash_at s e)" and "e = b \<or> stored s e"
    and "x \<in> set q \<Longrightarrow> (x = b \<or> stored s x) \<and> bound < height_of s x \<and> height_of s x \<le> height_of s b"
    and "extends (par_of T) (hash_at s b) h \<Longrightarrow> bound < ht_of T h \<Longrightarrow> h \<in> hash_at s ` set q"
  using walk_down_ends[OF assms(1,2) lessI, of bound] assms(3) by auto

declare walk_down.simps [simp del]

text \<open>What a positive opinion means on the tree.\<close>

lemma opinion_rule:
  assumes "tree_inv T s" and "linked (cache s) (blk_heap s) a" and "stored s (b_lock s)"
    and "proposal_opinion a s = Inr True"
  obtains j where "justify_block_ptr (blk s a) = Some j" and "stored s j"
    and "just_of T (hash_at s a) = Some (hash_at s j)" and "vheight s < height_of s a"
    and "extends (par_of T) (hash_at s a) (hash_at s (b_lock s)) \<or> height_of s (b_lock s) < height_of s j"
proof -
  have it: "in_tree s a" using assms(2) by (simp add: in_tree_def)
  from assms(1,2) obtain j where j: "justify_block_ptr (blk s a) = Some j" "stored s j"
    "just_of T (hash_at s a) = Some (hash_at s j)" by (rule linked_links)
  have vh: "vheight s < height_of s a" using assms(4) by (simp add: proposal_opinion_def split: if_splits)
  obtain q e where w: "walk_down (Suc (height_of s a)) (blk_heap s) (height_of s (b_lock s)) a = Inr (q, e)"
    "extends (par_of T) (hash_at s a) (hash_at s e)"
    by (rule walk_endsE[OF assms(1) it])
  have "height_of s (b_lock s) < height_of s j \<or> e = b_lock s"
    using assms(4) vh j(1) w(1) by (auto simp: proposal_opinion_def deref_def split: if_splits)
  then show ?thesis using that[OF j vh] w(2) by blast
qed

lemma opinion_total:
  assumes "tree_inv T s" and "linked (cache s) (blk_heap s) a"
  shows "\<exists>v. proposal_opinion a s = Inr v"
proof -
  have it: "in_tree s a" using assms(2) by (simp add: in_tree_def)
  from assms obtain j where "justify_block_ptr (blk s a) = Some j" by (rule linked_links)
  moreover obtain q e where "walk_down (Suc (height_of s a)) (blk_heap s) (height_of s (b_lock s)) a = Inr (q, e)"
    by (rule walk_endsE[OF assms(1) it])
  ultimately show ?thesis by (auto simp: proposal_opinion_def deref_def)
qed

section \<open>The invariant of the protocol variables\<close>

abbreviation certd :: "ReplicaConfig \<Rightarrow> replica_id set \<Rightarrow> (replica_id, hash) vote_log \<Rightarrow> hash \<Rightarrow> bool" where
  "certd cfg byz L h \<equiv> certified_in (safe_quorum cfg byz) (\<lambda>r. r \<notin> byz) zero_hash L h"

definition pointers_ok where
  "pointers_ok T cfg byz L s \<longleftrightarrow> stored s (b_lock s) \<and> stored s (b_exec s) \<and> in_tree s (hqc_block s)
     \<and> in_tree s (b_leaf s) \<and> extends (par_of T) (hash_at s (b_leaf s)) (hash_at s (hqc_block s))
     \<and> certd cfg byz L (hash_at s (b_lock s)) \<and> certd cfg byz L (hash_at s (hqc_block s))
     \<and> justify (hqc_wire s) = hash_at s (hqc_block s)"

definition justify_ok where
  "justify_ok T cfg byz L s \<longleftrightarrow>
     (\<forall>a h. linked (cache s) (blk_heap s) a \<longrightarrow> just_of T (hash_at s a) = Some h \<longrightarrow> certd cfg byz L h)"

definition decided_ok where
  "decided_ok T cfg byz L s \<longleftrightarrow> height_of s (b_exec s) \<le> height_of s (b_lock s)
     \<and> (\<forall>a < length (blk_heap s). decided (blk s a) \<longrightarrow> in_tree s a \<and> height_of s a \<le> height_of s (b_exec s))
     \<and> (\<forall>a. stored s a \<longrightarrow> extends (par_of T) (hash_at s (b_exec s)) (hash_at s a) \<longrightarrow> decided (blk s a))
     \<and> committed_in (par_of T) (just_of T) (safe_quorum cfg byz) (\<lambda>r. r \<notin> byz) zero_hash L (hash_at s (b_exec s))"

definition tally_ok where
  "tally_ok cfg byz L s \<longleftrightarrow> (\<forall>a < length (blk_heap s). qc_ok (self_qc (blk s a))
     \<and> (\<forall>rid sig. (rid, sig) \<in> set (sigs (self_qc (blk s a))) \<longrightarrow>
          rid \<in> members cfg \<and> (rid \<notin> byz \<longrightarrow> (\<exists>l. (rid, hash_at s a, l) \<in> set L))))"

definition replica_inv :: "table \<Rightarrow> ReplicaConfig \<Rightarrow> replica_id set \<Rightarrow> (replica_id, hash) vote_log
    \<Rightarrow> ('d, 'x) replica_scheme \<Rightarrow> bool" where
  "replica_inv T cfg byz L s \<longleftrightarrow> config s = cfg \<and> tree_inv T s \<and> pointers_ok T cfg byz L s
     \<and> justify_ok T cfg byz L s \<and> decided_ok T cfg byz L s \<and> tally_ok cfg byz L s"

text \<open>What one replica has voted for, with respect to its own variables.\<close>

definition history_ok :: "table \<Rightarrow> replica_id \<Rightarrow> (replica_id, hash) vote_log \<Rightarrow> ('d, 'x) core_scheme \<Rightarrow> bool" where
  "history_ok T r L s \<longleftrightarrow> (\<forall>v k. (r, v, k) \<in> set L \<longrightarrow> ht_of T v \<le> vheight s
     \<and> (\<forall>i j. just_of T v = Some j \<longrightarrow> just_of T j = Some i \<longrightarrow> ht_of T i \<le> height_of s (b_lock s)))"

text \<open>The hypothesis the voting rule does not enforce: certificates inside blocks are on ancestors.\<close>

definition justify_on_chain :: "table \<Rightarrow> bool" where
  "justify_on_chain T \<longleftrightarrow> (\<forall>k j. node_of T k \<longrightarrow> just_of T k = Some j \<longrightarrow>
     extends (par_of T) k j \<and> j \<noteq> k)"

lemma replica_invD:
  assumes "replica_inv T cfg byz L s"
  shows "config s = cfg" and "tree_inv T s" and "pointers_ok T cfg byz L s"
    and "justify_ok T cfg byz L s" and "decided_ok T cfg byz L s" and "tally_ok cfg byz L s"
  using assms by (simp_all add: replica_inv_def)

lemma store_ok_cong: "block_cache st' = block_cache st \<Longrightarrow> store_ok g st' hp = store_ok g st hp"
  by (simp add: store_ok_def)

lemma replica_inv_same_core:
  assumes "same_core s s'" and "replica_inv T cfg byz L s"
  shows "replica_inv T cfg byz L s'"
  using assms(2) store_ok_cong[OF same_core_fields(13)[OF assms(1)]]
  unfolding replica_inv_def tree_inv_def pointers_ok_def justify_ok_def decided_ok_def tally_ok_def
    stored_def in_tree_def same_core_fields[OF assms(1)]
  by simp

lemma history_ok_same_core: "same_core s s' \<Longrightarrow> history_ok T r L s' \<longleftrightarrow> history_ok T r L s"
  by (simp add: history_ok_def same_core_fields)

lemma replica_inv_log_mono:
  assumes "replica_inv T cfg byz L s" and "set L \<subseteq> set L'"
  shows "replica_inv T cfg byz L' s"
proof -
  note c = certified_mono[OF _ assms(2)]
  have "committed_in (par_of T) (just_of T) (safe_quorum cfg byz) (\<lambda>r. r \<notin> byz) zero_hash L' h"
    if "committed_in (par_of T) (just_of T) (safe_quorum cfg byz) (\<lambda>r. r \<notin> byz) zero_hash L h" for h
    using that c unfolding committed_in_def by blast
  moreover have "tally_ok cfg byz L' s" using replica_invD(6)[OF assms(1)] assms(2) unfolding tally_ok_def by blast
  moreover have "justify_ok T cfg byz L' s" using replica_invD(4)[OF assms(1)] c unfolding justify_ok_def by blast
  moreover have "pointers_ok T cfg byz L' s" using replica_invD(3)[OF assms(1)] c unfolding pointers_ok_def by blast
  ultimately show ?thesis using replica_invD[OF assms(1)] unfolding replica_inv_def decided_ok_def by blast
qed

text \<open>Changes of the heap that keep the view, the decisions and the tallies.\<close>

lemma linked_view_eq:
  assumes "heap_view hp' = heap_view hp" and "\<forall>h p. c h = Some p \<longrightarrow> p < length hp"
  shows "linked c hp' a = linked c hp a"
  using linked_view[OF assms(1) _ assms(2)] linked_view[OF assms(1)[symmetric]]
    heap_view_length[OF assms(1)] assms(2) by metis

lemma tree_inv_view:
  assumes "tree_inv T s" and "heap_view hp = heap_view (blk_heap s)"
  shows "tree_inv T (s\<lparr>blk_heap := hp\<rparr>)"
proof -
  note f = heap_view_fields[OF assms(2)] and len = heap_view_length[OF assms(2)]
  have r: "\<forall>h p. cache s h = Some p \<longrightarrow> p < length (blk_heap s)"
    using store_okD(1)[OF tree_invD(1)[OF assms(1)]] by blast
  have "store_ok (genesis s) (block_store s) hp"
    by (rule store_ok_view[OF assms(2) tree_invD(1)[OF assms(1)]])
  moreover have "heights_below 4294967296 hp"
    unfolding heights_below_def
  proof
    fix b assume "b \<in> set hp"
    then obtain i where "i < length hp" "b = hp ! i" by (auto simp: in_set_conv_nth)
    then show "block_height b < 4294967296"
      using f(4) len heights_belowD[OF tree_invD(2)[OF assms(1)]] by simp
  qed
  moreover have "object_ok T (cache s) hp a" if "a < length (blk_heap s)" "a \<noteq> genesis s" for a
    using tree_invD(3)[OF assms(1) that] f[OF that(1)] linked_view_eq[OF assms(2) r]
    by (simp add: object_ok_def)
  ultimately show ?thesis using len by (simp add: tree_inv_def)
qed

lemma stored_length: "tree_inv T s \<Longrightarrow> stored s a \<Longrightarrow> a < length (blk_heap s)"
  using in_tree_length stored_in_tree by blast

text \<open>Reading a state whose heap has been replaced by one with the same view.\<close>

lemma heap_change_simps:
  assumes "tree_inv T s" and "heap_view hp = heap_view (blk_heap s)"
  shows "stored (s\<lparr>blk_heap := hp\<rparr>) a = stored s a" and "in_tree (s\<lparr>blk_heap := hp\<rparr>) a = in_tree s a"
    and "linked (cache s) hp a = linked (cache s) (blk_heap s) a"
    and "a < length (blk_heap s) \<Longrightarrow> get_hash (hp ! a) = hash_at s a"
    and "a < length (blk_heap s) \<Longrightarrow> block_height (hp ! a) = height_of s a"
    and "length hp = length (blk_heap s)"
proof -
  have r: "\<forall>h p. cache s h = Some p \<longrightarrow> p < length (blk_heap s)"
    using store_okD(1)[OF tree_invD(1)[OF assms(1)]] by blast
  show l: "linked (cache s) hp a = linked (cache s) (blk_heap s) a" by (rule linked_view_eq[OF assms(2) r])
  show "stored (s\<lparr>blk_heap := hp\<rparr>) a = stored s a" by (simp add: stored_def)
  show "in_tree (s\<lparr>blk_heap := hp\<rparr>) a = in_tree s a" using l by (simp add: in_tree_def)
qed (use heap_view_fields[OF assms(2)] heap_view_length[OF assms(2)] in auto)

lemma replica_inv_heap_parts:
  assumes inv: "replica_inv T cfg byz L s" and v: "heap_view hp = heap_view (blk_heap s)"
  shows "tree_inv T (s\<lparr>blk_heap := hp\<rparr>)" and "pointers_ok T cfg byz L (s\<lparr>blk_heap := hp\<rparr>)"
    and "justify_ok T cfg byz L (s\<lparr>blk_heap := hp\<rparr>)"
proof -
  note tree = replica_invD(2)[OF inv]
  note h = heap_change_simps[OF tree v]
  note p = replica_invD(3)[OF inv, unfolded pointers_ok_def]
  show "tree_inv T (s\<lparr>blk_heap := hp\<rparr>)" by (rule tree_inv_view[OF tree v])
  have len: "b_lock s < length (blk_heap s)" "b_exec s < length (blk_heap s)" "hqc_block s < length (blk_heap s)"
    "b_leaf s < length (blk_heap s)"
    using p stored_length[OF tree] in_tree_length[OF tree] by auto
  then show "pointers_ok T cfg byz L (s\<lparr>blk_heap := hp\<rparr>)"
    using p by (simp add: pointers_ok_def h)
  show "justify_ok T cfg byz L (s\<lparr>blk_heap := hp\<rparr>)"
    unfolding justify_ok_def
  proof (intro allI impI)
    fix a k assume "linked (cache (s\<lparr>blk_heap := hp\<rparr>)) (blk_heap (s\<lparr>blk_heap := hp\<rparr>)) a"
      and k: "just_of T (hash_at (s\<lparr>blk_heap := hp\<rparr>) a) = Some k"
    then have l: "linked (cache s) (blk_heap s) a" by (simp add: h)
    then have "a < length (blk_heap s)" using in_tree_length[OF tree] by (simp add: in_tree_def)
    then show "certd cfg byz L k" using k l replica_invD(4)[OF inv] by (simp add: justify_ok_def h)
  qed
qed

lemma tally_ok_heap:
  assumes "replica_inv T cfg byz L s" and "heap_view hp = heap_view (blk_heap s)"
    and "\<And>a. a < length (blk_heap s) \<Longrightarrow> self_qc (hp ! a) = self_qc (blk s a)"
  shows "tally_ok cfg byz L (s\<lparr>blk_heap := hp\<rparr>)"
  using replica_invD(6)[OF assms(1)] heap_change_simps[OF replica_invD(2)[OF assms(1)] assms(2)] assms(3)
  by (simp add: tally_ok_def)

lemma decided_ok_heap:
  assumes inv: "replica_inv T cfg byz L s" and v: "heap_view hp = heap_view (blk_heap s)"
    and d: "\<And>a. a < length (blk_heap s) \<Longrightarrow> decided (hp ! a) = decided (blk s a)"
  shows "decided_ok T cfg byz L (s\<lparr>blk_heap := hp\<rparr>)"
proof -
  note tree = replica_invD(2)[OF inv]
  have "b_lock s < length (blk_heap s)" "b_exec s < length (blk_heap s)"
    using replica_invD(3)[OF inv] stored_length[OF tree] by (auto simp: pointers_ok_def)
  then show ?thesis
    using replica_invD(5)[OF inv] stored_length[OF tree]
    by (simp add: decided_ok_def heap_change_simps[OF tree v] d)
qed

lemma replica_inv_heap:
  assumes inv: "replica_inv T cfg byz L s" and v: "heap_view hp = heap_view (blk_heap s)"
    and d: "\<And>a. a < length (blk_heap s) \<Longrightarrow> decided (hp ! a) = decided (blk s a)"
    and q: "\<And>a. a < length (blk_heap s) \<Longrightarrow> self_qc (hp ! a) = self_qc (blk s a)"
  shows "replica_inv T cfg byz L (s\<lparr>blk_heap := hp\<rparr>)"
  using replica_invD(1)[OF inv] replica_inv_heap_parts[OF inv v] decided_ok_heap[OF inv v d] tally_ok_heap[OF inv v q]
  by (simp add: replica_inv_def)

section \<open>The handlers keep the invariant\<close>

text \<open>The variables a step may leave alone.\<close>

definition same_vars :: "('d, 'x) replica_scheme \<Rightarrow> ('d, 'x) replica_scheme \<Rightarrow> bool" where
  "same_vars s s' \<longleftrightarrow> genesis s' = genesis s \<and> vheight s' = vheight s \<and> self_id s' = self_id s
     \<and> config s' = config s \<and> cache s' = cache s \<and> heap_view (blk_heap s') = heap_view (blk_heap s)"

lemma same_vars_refl [simp]: "same_vars s s"
  by (simp add: same_vars_def)

lemma same_vars_trans [trans]: "same_vars s t \<Longrightarrow> same_vars t u \<Longrightarrow> same_vars s u"
  by (simp add: same_vars_def)

lemma same_core_vars: "same_core s s' \<Longrightarrow> same_vars s s'"
  by (simp add: same_vars_def same_core_fields)

lemma same_vars_read:
  assumes "tree_inv T s" and "same_vars s s'"
  shows "stored s' a = stored s a"
    and "linked (cache s') (blk_heap s') a = linked (cache s) (blk_heap s) a"
    and "a < length (blk_heap s) \<Longrightarrow> hash_at s' a = hash_at s a"
    and "a < length (blk_heap s) \<Longrightarrow> height_of s' a = height_of s a"
    and "a < length (blk_heap s) \<Longrightarrow> justify_block_ptr (blk s' a) = justify_block_ptr (blk s a)"
    and "a < length (blk_heap s) \<Longrightarrow> parent_block_ptr (blk s' a) = parent_block_ptr (blk s a)"
    and "a < length (blk_heap s) \<Longrightarrow> parsed_qc (blk s' a) = parsed_qc (blk s a)"
    and "length (blk_heap s') = length (blk_heap s)"
proof -
  have v: "heap_view (blk_heap s') = heap_view (blk_heap s)" and c: "cache s' = cache s"
    using assms(2) by (simp_all add: same_vars_def)
  show "stored s' a = stored s a" using c by (simp add: stored_def)
  show "linked (cache s') (blk_heap s') a = linked (cache s) (blk_heap s) a"
    using heap_change_simps(3)[OF assms(1) v] c by simp
  show "length (blk_heap s') = length (blk_heap s)" by (rule heap_view_length[OF v])
  assume "a < length (blk_heap s)"
  note f = heap_view_fields[OF v this]
  show "hash_at s' a = hash_at s a" by (rule f(3))
  show "height_of s' a = height_of s a" by (rule f(4))
  show "justify_block_ptr (blk s' a) = justify_block_ptr (blk s a)" by (rule f(6))
  show "parent_block_ptr (blk s' a) = parent_block_ptr (blk s a)" by (rule f(5))
  show "parsed_qc (blk s' a) = parsed_qc (blk s a)" by (rule f(2))
qed

lemma lock_and_persist_inv:
  assumes inv: "replica_inv T cfg byz L s" and b1: "stored s b1" "certd cfg byz L (hash_at s b1)"
    and run: "lock_and_persist cr b1 s = Inr s'"
  shows "replica_inv T cfg byz L s'" and "same_vars s s'" and "b_exec s' = b_exec s"
    and "height_of s b1 \<le> height_of s' (b_lock s')" and "height_of s (b_lock s) \<le> height_of s' (b_lock s')"
    and "a < length (blk_heap s) \<Longrightarrow> decided (blk s' a) = decided (blk s a)"
proof -
  let ?l = "if height_of s b1 > height_of s (b_lock s) then b1 else b_lock s"
  from run obtain hp d where u: "unwritten hp = unwritten (blk_heap s)"
    and s': "s' = s\<lparr>b_lock := ?l, blk_heap := hp, disk := d\<rparr>" by (rule lock_and_persist_effect)
  let ?t = "s\<lparr>b_lock := ?l, disk := d\<rparr>"
  have len: "length hp = length (blk_heap s)" by (rule unwritten_length[OF u])
  note f = unwritten_fields[OF u]
  have v: "heap_view hp = heap_view (blk_heap s)"
    unfolding heap_view_def by (intro nth_equalityI) (simp_all add: len block_view_def f)
  note tree = replica_invD(2)[OF inv]
  have st: "stored s (b_lock s)" "certd cfg byz L (hash_at s (b_lock s))"
    using replica_invD(3)[OF inv] by (simp_all add: pointers_ok_def)
  have t: "stored ?t = stored s" "in_tree ?t = in_tree s" by (auto simp: stored_def in_tree_def fun_eq_iff)
  have "replica_inv T cfg byz L ?t"
    using inv b1 st unfolding replica_inv_def tree_inv_def pointers_ok_def justify_ok_def decided_ok_def
      tally_ok_def t by auto
  then have "replica_inv T cfg byz L (?t\<lparr>blk_heap := hp\<rparr>)"
    by (rule replica_inv_heap) (use v f in auto)
  moreover have "?t\<lparr>blk_heap := hp\<rparr> = s'" using s' by simp
  ultimately show "replica_inv T cfg byz L s'" by simp
  show "same_vars s s'" using v s' by (simp add: same_vars_def)
  show "b_exec s' = b_exec s" using s' by simp
  have "?l < length (blk_heap s)" using b1(1) st(1) stored_length[OF tree] by simp
  then have "height_of s' (b_lock s') = height_of s ?l" using s' f(5) by simp
  then show "height_of s b1 \<le> height_of s' (b_lock s')" "height_of s (b_lock s) \<le> height_of s' (b_lock s')" by auto
  show "a < length (blk_heap s) \<Longrightarrow> decided (blk s' a) = decided (blk s a)" using s' f(6) by simp
qed

context core_callbacks
begin

lemma update_hqc_inv:
  assumes inv: "replica_inv T cfg byz L s" and b: "in_tree s b" "certd cfg byz L (hash_at s b)"
    and qc: "obj_hash qc = hash_at s b" and run: "update_hqc cb b qc s = Inr s'"
  shows "replica_inv T cfg byz L s'" and "same_vars s s'" and "b_exec s' = b_exec s" and "b_lock s' = b_lock s"
    and "blk_heap s' = blk_heap s"
proof -
  from update_hqc_effect[OF run] obtain t where t: "same_core t s'"
    "t = s \<or> t = s\<lparr>hqc_block := b, hqc_wire := qc_serialize qc, b_leaf := b\<rparr>" by blast
  have tree: "tree_inv T s" using replica_invD(2)[OF inv] .
  have "replica_inv T cfg byz L t"
  proof (cases "t = s")
    case False
    then have t: "t = s\<lparr>hqc_block := b, hqc_wire := qc_serialize qc, b_leaf := b\<rparr>" using t(2) by blast
    have st: "stored t = stored s" "in_tree t = in_tree s" using t by (auto simp: stored_def in_tree_def fun_eq_iff)
    have "pointers_ok T cfg byz L t"
      using replica_invD(3)[OF inv] b qc st t
      by (simp add: pointers_ok_def qc_serialize_def)
    then show ?thesis using inv st t
      unfolding replica_inv_def tree_inv_def justify_ok_def decided_ok_def tally_ok_def by simp
  qed (use inv in simp)
  then show "replica_inv T cfg byz L s'" by (rule replica_inv_same_core[OF t(1)])
  have "same_vars s t" using t(2) by (auto simp: same_vars_def)
  then show "same_vars s s'" using same_core_vars[OF t(1)] by (rule same_vars_trans)
  show "b_exec s' = b_exec s" "b_lock s' = b_lock s" "blk_heap s' = blk_heap s"
    using t same_core_fields[OF t(1)] by auto
qed

end

end
