(* ===== verification/Handler_Inv.thy ===== *)
theory Handler_Inv
  imports Replica_Inv
begin

text \<open>
  The handlers of the core keep the invariant of the replica: the commit, the whole of \<open>update\<close>,
  the handling of votes and of proposals, insertion of blocks, and proposing.
\<close>

section \<open>Following justify pointers\<close>

lemma justify_ptr_Some:
  assumes "tree_inv T s" and "in_tree s x" and "justify_block_ptr (blk s x) = Some y"
  shows "linked (cache s) (blk_heap s) x" and "stored s y"
    and "just_of T (hash_at s x) = Some (hash_at s y)"
    and "parent_block_ptr (blk s x) = Some z \<Longrightarrow> par_of T (hash_at s x) = Some (hash_at s z)"
proof -
  show l: "linked (cache s) (blk_heap s) x"
    using assms(2,3) genesis_facts(3)[OF assms(1)] by (auto simp: in_tree_def)
  show "stored s y" by (rule linked_links[OF assms(1) l]) (use assms(3) in simp)
  show "just_of T (hash_at s x) = Some (hash_at s y)"
    by (rule linked_links[OF assms(1) l]) (use assms(3) in simp)
  show "parent_block_ptr (blk s x) = Some z \<Longrightarrow> par_of T (hash_at s x) = Some (hash_at s z)"
    by (rule linked_links[OF assms(1) l]) simp
qed

lemma justify_ptr_None:
  assumes "tree_inv T s" and "in_tree s x" and "justify_block_ptr (blk s x) = None"
  shows "just_of T (hash_at s x) = None"
proof -
  have "\<not> linked (cache s) (blk_heap s) x" using assms(3) by (auto elim!: linkedE)
  then have "x = genesis s" using assms(2) by (simp add: in_tree_def)
  then show ?thesis using genesis_facts(1)[OF assms(1)] by (simp add: just_of_def)
qed

lemma justify_lower:
  assumes "justify_on_chain T" and "node_of T k" and "just_of T k = Some j"
  shows "node_of T j" and "ht_of T j < ht_of T k" and "extends (par_of T) k j"
proof -
  have e: "extends (par_of T) k j" "j \<noteq> k" using assms by (auto simp: justify_on_chain_def)
  then show "extends (par_of T) k j" "node_of T j" using votes.extends_node assms(2) by auto
  show "ht_of T j < ht_of T k" using votes.extends_same_height[OF e(1) assms(2)] e(2) by linarith
qed

section \<open>Committing\<close>

lemma decided_ok_commit:
  assumes inv: "replica_inv T cfg byz L s" and b0: "stored s b0"
    and three: "three_chain (par_of T) (just_of T) (hash_at s b0) h1 h2" and c2: "certd cfg byz L h2"
    and lk: "height_of s b0 \<le> height_of s (b_lock s)"
    and walk: "walk_down (Suc (height_of s b0)) (blk_heap s) (height_of s (b_exec s)) b0 = Inr (q, b_exec s)"
  shows "decided_ok T cfg byz L (s\<lparr>blk_heap := mark_decided (rev q) (blk_heap s), b_exec := b0,
           decided_hash_index := index\<rparr>)"
proof -
  note tree = replica_invD(2)[OF inv]
  note dec = replica_invD(5)[OF inv, unfolded decided_ok_def]
  have it: "in_tree s b0" by (rule stored_in_tree[OF tree b0])
  note W = walk_run(1,2,4,5)[OF tree it walk]
  let ?hp = "mark_decided (rev q) (blk_heap s)"
  note h = heap_change_simps[OF tree heap_view_mark_decided[of "rev q"]]
  have len: "b0 < length (blk_heap s)" "b_lock s < length (blk_heap s)"
    using stored_length[OF tree] b0 replica_invD(3)[OF inv] by (auto simp: pointers_ok_def)
  have dn: "decided (?hp ! a) \<longleftrightarrow> a \<in> set q \<or> decided (blk s a)" if "a < length (blk_heap s)" for a
    using mark_decided_nth[OF that, of "rev q"] by (simp add: decide_def)
  have low: "in_tree s a \<and> height_of s a \<le> height_of s b0" if "a < length (blk_heap s)" "decided (?hp ! a)" for a
    using dn[OF that(1)] that W(1) W(3)[of a] dec it stored_in_tree[OF tree, of a] by fastforce
  have anc: "decided (?hp ! a)" if a: "stored s a" and e: "extends (par_of T) (hash_at s b0) (hash_at s a)" for a
  proof (cases "height_of s (b_exec s) < height_of s a")
    case True
    then have "hash_at s a \<in> hash_at s ` set q"
      using W(4)[OF e] in_tree_node[OF tree stored_in_tree[OF tree a]] by simp
    then obtain x where "x \<in> set q" "hash_at s x = hash_at s a" by auto
    then have "a \<in> set q" using W(3) b0 stored_inject[OF tree _ a] by metis
    then show ?thesis using dn stored_length[OF tree a] by simp
  next
    case False
    have "ht_of T (hash_at s a) \<le> ht_of T (hash_at s (b_exec s))"
      using False in_tree_node[OF tree] stored_in_tree[OF tree] a replica_invD(3)[OF inv]
      by (simp add: pointers_ok_def)
    then have "extends (par_of T) (hash_at s (b_exec s)) (hash_at s a)"
      using votes.extends_of_lower[OF e W(2)] in_tree_node[OF tree it] by simp
    then show ?thesis using dec a dn stored_length[OF tree a] by simp
  qed
  have "committed_in (par_of T) (just_of T) (safe_quorum cfg byz) (\<lambda>r. r \<notin> byz) zero_hash L (hash_at s b0)"
    using three c2 unfolding committed_in_def by blast
  then show ?thesis
    using lk low anc len stored_length[OF tree] h(2)[symmetric]
    by (simp add: decided_ok_def h(3-6) stored_def in_tree_def)
qed

context core_callbacks
begin

lemma commit_chain_inv:
  assumes inv: "replica_inv T cfg byz L s" and b0: "stored s b0"
    and three: "three_chain (par_of T) (just_of T) (hash_at s b0) h1 h2" and c2: "certd cfg byz L h2"
    and lk: "height_of s b0 \<le> height_of s (b_lock s)" and run: "commit_chain ix cb b0 b1 s = Inr s'"
  shows "replica_inv T cfg byz L s'" and "same_vars s s'" and "b_lock s' = b_lock s"
proof -
  from run obtain q index where
    walk: "walk_down (Suc (height_of s b0)) (blk_heap s) (height_of s (b_exec s)) b0 = Inr (q, b_exec s)"
    and eff: "same_core (s\<lparr>blk_heap := mark_decided (rev q) (blk_heap s), b_exec := b0,
        decided_hash_index := index\<rparr>) s'" by (rule commit_chain_effect)
  let ?t1 = "s\<lparr>blk_heap := mark_decided (rev q) (blk_heap s)\<rparr>"
  let ?t = "s\<lparr>blk_heap := mark_decided (rev q) (blk_heap s), b_exec := b0, decided_hash_index := index\<rparr>"
  have parts: "tree_inv T ?t1" "pointers_ok T cfg byz L ?t1" "justify_ok T cfg byz L ?t1"
    by (rule replica_inv_heap_parts[OF inv]; simp)+
  have parts4: "tally_ok cfg byz L ?t1" by (rule tally_ok_heap[OF inv]) (simp_all add: mark_decided_nth decide_def)
  have st: "stored ?t = stored s" "stored ?t1 = stored s" "in_tree ?t = in_tree ?t1"
    by (auto simp: stored_def in_tree_def fun_eq_iff)
  have "pointers_ok T cfg byz L ?t" using parts(2) b0 unfolding pointers_ok_def st by simp
  moreover have "tree_inv T ?t" "justify_ok T cfg byz L ?t" "tally_ok cfg byz L ?t"
    using parts(1,3) parts4 unfolding tree_inv_def justify_ok_def tally_ok_def by simp_all
  moreover have "decided_ok T cfg byz L ?t" by (rule decided_ok_commit[OF inv b0 three c2 lk walk])
  ultimately have "replica_inv T cfg byz L ?t" using replica_invD(1)[OF inv] by (simp add: replica_inv_def)
  then show "replica_inv T cfg byz L s'" by (rule replica_inv_same_core[OF eff])
  have "same_vars s ?t" by (simp add: same_vars_def)
  then show "same_vars s s'" using same_core_vars[OF eff] by (rule same_vars_trans)
  show "b_lock s' = b_lock s" using same_core_fields(5)[OF eff] by simp
qed

text \<open>The last part of \<open>update\<close>, from the three-chain test on.\<close>

lemma commit_part_inv:
  assumes inv: "replica_inv T cfg byz L s" and b2: "stored s b2" "certd cfg byz L (hash_at s b2)"
    and b1: "justify_block_ptr (blk s b2) = Some b1" and lk: "height_of s b1 \<le> height_of s (b_lock s)"
    and run: "(case justify_block_ptr (blk s b1) of None \<Rightarrow> Inr s | Some blk0 \<Rightarrow>
        if decided (blk s blk0) then Inr s else
        if parent_block_ptr (blk s b2) \<noteq> Some b1 \<or> parent_block_ptr (blk s b1) \<noteq> Some blk0 then Inr s
        else commit_chain ix cb blk0 b1 s) = Inr s'"
  shows "replica_inv T cfg byz L s' \<and> same_vars s s' \<and> height_of s' (b_lock s') = height_of s (b_lock s)"
proof (cases "s' = s")
  case True
  then show ?thesis using inv by simp
next
  case False
  then obtain b0 where b0: "justify_block_ptr (blk s b1) = Some b0"
    and p: "parent_block_ptr (blk s b2) = Some b1" "parent_block_ptr (blk s b1) = Some b0"
    and cc: "commit_chain ix cb b0 b1 s = Inr s'"
    using run by (auto split: option.splits if_splits)
  note tree = replica_invD(2)[OF inv]
  note j1 = justify_ptr_Some[OF tree stored_in_tree[OF tree b2(1)] b1]
  have it1: "in_tree s b1" by (rule stored_in_tree[OF tree j1(2)])
  note j0 = justify_ptr_Some[OF tree it1 b0]
  have three: "three_chain (par_of T) (just_of T) (hash_at s b0) (hash_at s b1) (hash_at s b2)"
    using j1(3) j1(4)[OF p(1)] j0(3) j0(4)[OF p(2)] by (simp add: three_chain_def)
  have "height_of s b0 \<le> height_of s b1"
    using votes.par_node[of T "hash_at s b1" "hash_at s b0"] j0(4)[OF p(2)] in_tree_node[OF tree it1]
      in_tree_node[OF tree stored_in_tree[OF tree j0(2)]] by simp
  then have "height_of s b0 \<le> height_of s (b_lock s)" using lk by simp
  note cm = commit_chain_inv[OF inv j0(2) three b2(2) this cc]
  have "b_lock s < length (blk_heap s)"
    using replica_invD(3)[OF inv] stored_length[OF tree] by (auto simp: pointers_ok_def)
  then have "height_of s' (b_lock s') = height_of s (b_lock s)"
    using cm(3) same_vars_read(4)[OF tree cm(2)] by simp
  then show ?thesis using cm by simp
qed

text \<open>The part from the lock on.\<close>

lemma lock_part_inv:
  assumes inv: "replica_inv T cfg byz L s" and b2: "stored s b2" "certd cfg byz L (hash_at s b2)"
    and b1: "justify_block_ptr (blk s b2) = Some b1"
    and run: "rbind (lock_and_persist cr b1 s) (\<lambda>s.
        case justify_block_ptr (blk s b1) of None \<Rightarrow> Inr s | Some blk0 \<Rightarrow>
        if decided (blk s blk0) then Inr s else
        if parent_block_ptr (blk s b2) \<noteq> Some b1 \<or> parent_block_ptr (blk s b1) \<noteq> Some blk0 then Inr s
        else commit_chain ix cb blk0 b1 s) = Inr s'"
  shows "replica_inv T cfg byz L s' \<and> same_vars s s' \<and> height_of s (b_lock s) \<le> height_of s' (b_lock s')
    \<and> height_of s b1 \<le> height_of s' (b_lock s')"
proof -
  note tree = replica_invD(2)[OF inv]
  note j1 = justify_ptr_Some[OF tree stored_in_tree[OF tree b2(1)] b1]
  have c1: "certd cfg byz L (hash_at s b1)" using replica_invD(4)[OF inv] j1(1,3) by (simp add: justify_ok_def)
  from run obtain t where t: "lock_and_persist cr b1 s = Inr t" and rest:
    "(case justify_block_ptr (blk t b1) of None \<Rightarrow> Inr t | Some blk0 \<Rightarrow>
        if decided (blk t blk0) then Inr t else
        if parent_block_ptr (blk t b2) \<noteq> Some b1 \<or> parent_block_ptr (blk t b1) \<noteq> Some blk0 then Inr t
        else commit_chain ix cb blk0 b1 t) = Inr s'"
    by (auto simp: rbind_eq_Inr)
  note lp = lock_and_persist_inv[OF inv j1(2) c1 t]
  note rd = same_vars_read[OF tree lp(2)]
  have len: "b2 < length (blk_heap s)" "b1 < length (blk_heap s)" using stored_length[OF tree] b2(1) j1(2) by auto
  have "stored t b2" "certd cfg byz L (hash_at t b2)" "justify_block_ptr (blk t b2) = Some b1"
    "height_of t b1 \<le> height_of t (b_lock t)"
    using b2 b1 lp(4) rd len by simp_all
  from commit_part_inv[OF lp(1) this rest] show ?thesis
    using lp(2,4,5) same_vars_trans by auto
qed

text \<open>After \<open>update\<close> the lock is at least the block two certificates below the proposal.\<close>

lemma update_inv:
  assumes inv: "replica_inv T cfg byz L s" and joc: "justify_on_chain T"
    and a: "linked (cache s) (blk_heap s) a" and run: "update cr ix cb a s = Inr s'"
  shows "replica_inv T cfg byz L s' \<and> same_vars s s' \<and> height_of s (b_lock s) \<le> height_of s' (b_lock s')
    \<and> (\<forall>j i. just_of T (hash_at s a) = Some j \<longrightarrow> just_of T j = Some i \<longrightarrow> ht_of T i \<le> height_of s' (b_lock s'))"
proof -
  note tree = replica_invD(2)[OF inv]
  note dec = replica_invD(5)[OF inv, unfolded decided_ok_def]
  from a obtain b2 qc where j2: "justify_block_ptr (blk s a) = Some b2" "stored s b2"
    "just_of T (hash_at s a) = Some (hash_at s b2)" "parsed_qc (blk s a) = Some qc" "obj_hash qc = hash_at s b2"
    by (rule linked_links[OF tree])
  have it2: "in_tree s b2" by (rule stored_in_tree[OF tree j2(2)])
  note n2 = in_tree_node[OF tree it2] and len2 = in_tree_length[OF tree it2]
  have c2: "certd cfg byz L (hash_at s b2)" using replica_invD(4)[OF inv] a j2(3) by (simp add: justify_ok_def)
  have low: "height_of s x \<le> height_of s (b_lock s)" if "decided (blk s x)" "x < length (blk_heap s)" for x
    using that dec by force
  show ?thesis
  proof (cases "decided (blk s b2)")
    case True
    then have s': "s' = s" using run j2(1) by (simp add: update_def)
    have "ht_of T i \<le> height_of s (b_lock s)" if "just_of T (hash_at s b2) = Some i" for i
      using justify_lower(2)[OF joc _ that] n2 low[OF True len2] by simp
    then show ?thesis using inv s' j2(3) by simp
  next
    case False
    then obtain s1 where s1: "update_hqc cb b2 qc s = Inr s1" and rest:
      "(case justify_block_ptr (blk s1 b2) of None \<Rightarrow> Inr s1 | Some blk1 \<Rightarrow>
        if decided (blk s1 blk1) then Inr s1 else
        rbind (lock_and_persist cr blk1 s1) (\<lambda>s.
        case justify_block_ptr (blk s blk1) of None \<Rightarrow> Inr s | Some blk0 \<Rightarrow>
        if decided (blk s blk0) then Inr s else
        if parent_block_ptr (blk s b2) \<noteq> Some blk1 \<or> parent_block_ptr (blk s blk1) \<noteq> Some blk0 then Inr s
        else commit_chain ix cb blk0 blk1 s)) = Inr s'"
      using run j2(1,4) by (auto simp: update_def get_justify_qc_def rbind_eq_Inr)
    note u = update_hqc_inv[OF inv stored_in_tree[OF tree j2(2)] c2 j2(5) s1]
    show ?thesis
    proof (cases "justify_block_ptr (blk s b2)")
      case None
      then have "s' = s1" using rest u(5) by simp
      then show ?thesis using u j2(3) justify_ptr_None[OF tree it2 None] by simp
    next
      case (Some b1)
      note j1 = justify_ptr_Some[OF tree it2 Some]
      have it1: "in_tree s b1" by (rule stored_in_tree[OF tree j1(2)])
      note n1 = in_tree_node[OF tree it1] and len1 = in_tree_length[OF tree it1]
      show ?thesis
      proof (cases "decided (blk s b1)")
        case True
        then have s': "s' = s1" using rest u(5) Some by simp
        then show ?thesis using u j2(3) j1(3) n1 low[OF True len1] by simp
      next
        case False
        have "stored s1 b2" "certd cfg byz L (hash_at s1 b2)" "justify_block_ptr (blk s1 b2) = Some b1"
          using j2(2) c2 Some same_vars_read(1)[OF tree u(2)] u(5) by simp_all
        from lock_part_inv[OF u(1) this] rest u(5) Some False
        have "replica_inv T cfg byz L s' \<and> same_vars s1 s' \<and> height_of s (b_lock s) \<le> height_of s' (b_lock s')
          \<and> height_of s b1 \<le> height_of s' (b_lock s')" by (simp add: u(4))
        then show ?thesis using same_vars_trans[OF u(2)] j2(3) j1(3) n1 by simp
      qed
    qed
  qed
qed

section \<open>Proposals and votes\<close>

text \<open>The log after \<open>on_receive_proposal\<close>: a vote is recorded exactly when the handler votes.\<close>

lemma proposal_inv:
  assumes inv: "replica_inv T cfg byz L s" and hist: "history_ok T r L s" and joc: "justify_on_chain T"
    and a: "linked (cache s) (blk_heap s) a"
    and L': "L' = (if proposal_opinion a s = Inr True then (r, hash_at s a, hash_at s (b_lock s)) # L else L)"
    and run: "on_receive_proposal cr ix cb a proposer s = Inr s'"
  shows "replica_inv T cfg byz L' s' \<and> history_ok T r L' s' \<and> self_id s' = self_id s \<and> genesis s' = genesis s"
proof -
  note tree = replica_invD(2)[OF inv]
  have it: "in_tree s a" using a by (simp add: in_tree_def)
  obtain v where v: "proposal_opinion a s = Inr v" using opinion_total[OF tree a] by blast
  let ?t = "if v then s\<lparr>vheight := height_of s a\<rparr> else s"
  have ht: "u32 (height_of s a) = height_of s a" using in_tree_height[OF tree it] by simp
  obtain s1 where s1: "same_core ?t s1" and u: "update cr ix cb a s1 = Inr s'"
  proof (cases v)
    case True
    then show ?thesis using that run v do_vote_core[of a proposer]
      by (auto simp: on_receive_proposal_def rbind_eq_Inr ht)
  next
    case False
    then show ?thesis using that[of s] run v by (simp add: on_receive_proposal_def)
  qed
  have "stored ?t = stored s" "in_tree ?t = in_tree s" by (auto simp: stored_def in_tree_def fun_eq_iff)
  then have "replica_inv T cfg byz L ?t" using inv
    unfolding replica_inv_def tree_inv_def pointers_ok_def justify_ok_def decided_ok_def tally_ok_def by simp
  then have "replica_inv T cfg byz L' ?t" by (rule replica_inv_log_mono) (auto simp: L')
  then have i1: "replica_inv T cfg byz L' s1" by (rule replica_inv_same_core[OF s1])
  have f: "blk_heap s1 = blk_heap s" "b_lock s1 = b_lock s" "cache s1 = cache s" "genesis s1 = genesis s"
    "self_id s1 = self_id s" "vheight s1 = (if v then height_of s a else vheight s)"
    using same_core_fields[OF s1] by (auto split: if_splits)
  have "linked (cache s1) (blk_heap s1) a" using a f by simp
  note up = update_inv[OF i1 joc this u]
  have vh: "vheight s' = (if v then height_of s a else vheight s)" "self_id s' = self_id s" "genesis s' = genesis s"
    using up f unfolding same_vars_def by auto
  have lk: "height_of s (b_lock s) \<le> height_of s' (b_lock s')" using up f by simp
  have vlt: "v \<Longrightarrow> vheight s < height_of s a" using v by (auto simp: proposal_opinion_def split: if_splits)
  have "history_ok T r L' s'" unfolding history_ok_def
  proof (intro allI impI)
    fix w k assume "(r, w, k) \<in> set L'"
    then consider "(r, w, k) \<in> set L" | "v" "w = hash_at s a" using L' v by (auto split: if_splits)
    then show "ht_of T w \<le> vheight s' \<and> (\<forall>i j. just_of T w = Some j \<longrightarrow> just_of T j = Some i \<longrightarrow>
        ht_of T i \<le> height_of s' (b_lock s'))"
    proof cases
      case 1
      then have "ht_of T w \<le> vheight s" "\<And>i j. just_of T w = Some j \<Longrightarrow> just_of T j = Some i \<Longrightarrow>
        ht_of T i \<le> height_of s (b_lock s)" using hist unfolding history_ok_def by blast+
      then show ?thesis using vh vlt lk by (auto intro: order_trans less_imp_le)
    next
      case 2
      then show ?thesis using up f vh in_tree_node[OF tree it] by simp
    qed
  qed
  then show ?thesis using up vh by simp
qed

end

lemma proposal_vote_ok:
  assumes inv: "replica_inv T cfg byz L s" and hist: "history_ok T r L s" and joc: "justify_on_chain T"
    and a: "linked (cache s) (blk_heap s) a" and op: "proposal_opinion a s = Inr True"
  shows "vote_ok (par_of T) (just_of T) (ht_of T) (node_of T) (safe_quorum cfg byz) (\<lambda>r. r \<notin> byz)
    zero_hash L (r, hash_at s a, hash_at s (b_lock s))"
proof -
  note tree = replica_invD(2)[OF inv]
  note p = replica_invD(3)[OF inv, unfolded pointers_ok_def]
  have it: "in_tree s a" using a by (simp add: in_tree_def)
  have lk: "node_of T (hash_at s (b_lock s))" "ht_of T (hash_at s (b_lock s)) = height_of s (b_lock s)"
    using in_tree_node[OF tree stored_in_tree[OF tree]] p by blast+
  note na = in_tree_node[OF tree it]
  from p have "stored s (b_lock s)" by blast
  from opinion_rule[OF tree a this op] obtain j where j: "stored s j"
    "just_of T (hash_at s a) = Some (hash_at s j)" "vheight s < height_of s a"
    "extends (par_of T) (hash_at s a) (hash_at s (b_lock s)) \<or> height_of s (b_lock s) < height_of s j" by blast
  have "certd cfg byz L (hash_at s j)" using replica_invD(4)[OF inv] a j(2) unfolding justify_ok_def by blast
  moreover have "ht_of T (hash_at s j) = height_of s j"
    using in_tree_node[OF tree stored_in_tree[OF tree j(1)]] by blast
  moreover have "ht_of T v < ht_of T (hash_at s a) \<and> (\<forall>i j. just_of T v = Some j \<longrightarrow> just_of T j = Some i \<longrightarrow>
      ht_of T i \<le> ht_of T (hash_at s (b_lock s)))" if "(r, v, k) \<in> set L" for v k
    using hist that j(3) na lk(2) unfolding history_ok_def by fastforce
  ultimately show ?thesis
    using p lk na j(2,4) justify_lower[OF joc _ j(2)] by (auto simp: vote_ok_def)
qed

end
