(* ===== verification/Arrival_Inv.thy ===== *)
theory Arrival_Inv
  imports Handler_Inv
begin

text \<open>
  The remaining steps keep the invariant of the replica: arrival and insertion of blocks, proposals of
  the replica itself, garbage collection, and the counting of votes.
\<close>

section \<open>Allocation\<close>

lemma linked_alloc_iff:
  assumes "\<forall>h p. c h = Some p \<longrightarrow> p < length hp" and "parent_block_ptr b = None"
  shows "linked c (hp @ [b]) x \<longleftrightarrow> linked c hp x"
proof
  assume "linked c (hp @ [b]) x"
  then obtain p j qc where l: "x < length (hp @ [b])" "parent_block_ptr ((hp @ [b]) ! x) = Some p"
    "c (get_parent_hash ((hp @ [b]) ! x)) = Some p" "parsed_qc ((hp @ [b]) ! x) = Some qc"
    "justify_block_ptr ((hp @ [b]) ! x) = Some j" "c (obj_hash qc) = Some j"
    "block_height ((hp @ [b]) ! x) = Suc (block_height ((hp @ [b]) ! p))" by (rule linkedE)
  have x: "x < length hp"
  proof (rule ccontr)
    assume "\<not> x < length hp"
    then have "(hp @ [b]) ! x = b" using l(1) by (simp add: nth_append)
    then show False using l(2) assms(2) by simp
  qed
  have "p < length hp" using assms(1) l(3) by blast
  then show "linked c hp x" using l x by (auto simp: linked_def nth_append)
qed (rule linked_append[OF _ assms(1)])

text \<open>A freshly constructed block that fits the table.\<close>

definition fresh_block :: "table \<Rightarrow> HotstuffBlock \<Rightarrow> bool" where
  "fresh_block T b \<longleftrightarrow> get_hash b \<noteq> zero_hash \<and> T (get_hash b) = Some (header (wire_block b))
     \<and> (\<exists>qc. parsed_qc b = Some qc \<and> qc_ok qc \<and> obj_hash qc = justify (header_qc (header (wire_block b))))
     \<and> parent_block_ptr b = None \<and> block_height b = 0 \<and> \<not> decided b \<and> sigs (self_qc b) = [] \<and> qc_ok (self_qc b)"

lemma construct_received_fresh:
  assumes "construct_received cr w src = Inr b" and "hash_header cr (header w) = Inr h"
    and "h \<noteq> zero_hash" and "T h = Some (header w)"
  shows "fresh_block T b"
proof -
  note f = construct_received_fields[OF assms(1)]
  have h: "get_hash b = h" using f(2) assms(2) by simp
  have q: "self_qc b = new_qc h" using f(12) h by simp
  obtain qc where qc: "parsed_qc b = Some qc" "qc_of_wire (header_qc (header w)) = Inr qc" using f(5) by blast
  have "sigs (new_qc h) = []" by (simp add: new_qc_def)
  then show ?thesis
    unfolding fresh_block_def h f(1) q using assms(3,4) qc qc_of_wire_ok[OF qc(2)] f(4,6,10) by simp
qed

lemma replica_inv_alloc:
  assumes inv: "replica_inv T cfg byz L s" and b: "fresh_block T b"
  shows "replica_inv T cfg byz L (s\<lparr>blk_heap := blk_heap s @ [b]\<rparr>)"
proof -
  note tree = replica_invD(2)[OF inv]
  let ?hp = "blk_heap s @ [b]" and ?t = "s\<lparr>blk_heap := blk_heap s @ [b]\<rparr>"
  have r: "\<forall>h p. cache s h = Some p \<longrightarrow> p < length (blk_heap s)"
    using store_okD(1)[OF tree_invD(1)[OF tree]] by blast
  note l = linked_alloc_iff[OF r, of b]
  have pn: "parent_block_ptr b = None" using b by (simp add: fresh_block_def)
  have st: "stored ?t = stored s" by (simp add: stored_def fun_eq_iff)
  have it: "in_tree ?t = in_tree s" using l[OF pn] by (simp add: in_tree_def fun_eq_iff)
  have old: "?hp ! x = blk s x" if "x < length (blk_heap s)" for x using that by (simp add: nth_append)
  note p = replica_invD(3)[OF inv, unfolded pointers_ok_def]
  have len: "b_lock s < length (blk_heap s)" "b_exec s < length (blk_heap s)" "hqc_block s < length (blk_heap s)"
    "b_leaf s < length (blk_heap s)"
    using p stored_length[OF tree] in_tree_length[OF tree] by auto
  have "tree_inv T ?t" unfolding tree_inv_def
  proof (intro conjI allI impI)
    show "store_ok (genesis ?t) (block_store ?t) (blk_heap ?t)"
      using store_ok_alloc[OF tree_invD(1)[OF tree]] by simp
    show "heights_below 4294967296 (blk_heap ?t)"
      using tree_invD(2)[OF tree] b by (simp add: heights_below_def fresh_block_def)
    fix x assume x: "x < length (blk_heap ?t)" "x \<noteq> genesis ?t"
    show "object_ok T (cache ?t) (blk_heap ?t) x"
    proof (cases "x < length (blk_heap s)")
      case True
      then show ?thesis using tree_invD(3)[OF tree True] x(2) l[OF pn] old by (simp add: object_ok_def)
    next
      case False
      then have "?hp ! x = b" using x(1) by (simp add: nth_append)
      then show ?thesis using b by (simp add: object_ok_def fresh_block_def)
    qed
  qed
  moreover have "pointers_ok T cfg byz L ?t" using p len unfolding pointers_ok_def st it by (simp add: old)
  moreover have "justify_ok T cfg byz L ?t" unfolding justify_ok_def
  proof (intro allI impI)
    fix x h assume "linked (cache ?t) (blk_heap ?t) x" and h: "just_of T (hash_at ?t x) = Some h"
    then have x: "linked (cache s) (blk_heap s) x" using l[OF pn] by simp
    then have "x < length (blk_heap s)" by (simp add: linked_def)
    then show "certd cfg byz L h" using x h replica_invD(4)[OF inv] by (simp add: justify_ok_def old)
  qed
  moreover have "decided_ok T cfg byz L ?t"
    using replica_invD(5)[OF inv] len stored_length[OF tree] b unfolding decided_ok_def st it
    by (auto simp: old fresh_block_def less_Suc_eq)
  moreover have "tally_ok cfg byz L ?t"
    using replica_invD(6)[OF inv] b by (auto simp: tally_ok_def old fresh_block_def less_Suc_eq)
  ultimately show ?thesis using replica_invD(1)[OF inv] by (simp add: replica_inv_def)
qed

section \<open>Arrival\<close>

text \<open>
  What the environment cannot do: make a header whose hash is already another header's, or a valid
  signature of an honest replica that this replica has not made.
\<close>

definition unforged :: "crypto \<Rightarrow> ReplicaConfig \<Rightarrow> replica_id set \<Rightarrow> (replica_id, hash) vote_log
    \<Rightarrow> QuorumCertificate \<Rightarrow> bool" where
  "unforged cr cfg byz L qc \<longleftrightarrow>
     (\<forall>r \<in> valid_signers cr cfg qc. r \<notin> byz \<longrightarrow> (\<exists>l. (r, obj_hash qc, l) \<in> set L))"

lemma verified_certified:
  assumes "faults_ok cfg byz" and "unforged cr cfg byz L qc" and "qc_ok qc"
    and "qc_verify cr cfg qc = Inr True"
  shows "certd cfg byz L (obj_hash qc)"
proof (cases "obj_hash qc = zero_hash")
  case False
  have "is_quorum cfg (valid_signers cr cfg qc)" using qc_verify_quorum[OF assms(3,4) False] .
  then have "safe_quorum cfg byz (valid_signers cr cfg qc)" using assms(1) by (simp add: safe_quorum_def)
  then show ?thesis using assms(2) unfolding certified_in_def unforged_def by blast
qed (simp add: certified_in_def)

lemma receive_and_validate_inv:
  assumes inv: "replica_inv T cfg byz L s" and h: "hash_header cr (header w) = Inr h" "h \<noteq> zero_hash" "T h = Some (header w)"
    and run: "receive_and_validate cr w src s = Inr (ok, a, s')"
  shows "replica_inv T cfg byz L s'" and "a < length (blk_heap s')" and "header (wire_block (blk s' a)) = header w"
    and "vheight s' = vheight s" and "b_lock s' = b_lock s" and "self_id s' = self_id s" and "genesis s' = genesis s"
    and "height_of s' (b_lock s') = height_of s (b_lock s)"
proof -
  from run obtain b b' where b: "construct_received cr w src = Inr b"
    and a: "a = length (blk_heap s)"
    and v: "validate_hotstuff cr (config s) b = Inr (ok, b')"
    and s': "s' = s\<lparr>blk_heap := (blk_heap s @ [b])[a := b']\<rparr>"
    by (auto simp: receive_and_validate_def receive_block_def alloc_def rbind_eq_Inr)
  let ?t = "s\<lparr>blk_heap := blk_heap s @ [b]\<rparr>"
  have t: "replica_inv T cfg byz L ?t"
    using replica_inv_alloc[OF inv] construct_received_fresh[where T = T, OF b h] by blast
  obtain f where f: "b' = b\<lparr>hash_checked := True, hash_valid := f\<rparr>" using validate_hotstuff_frame[OF v] by blast
  have "block_view b' = block_view b" unfolding f by (simp add: block_view_def get_hash_def)
  then have "replica_inv T cfg byz L (?t\<lparr>blk_heap := (blk_heap s @ [b])[a := b']\<rparr>)"
    by (intro replica_inv_heap[OF t])
      (auto simp: a f nth_list_update nth_append heap_view_def)
  then show "replica_inv T cfg byz L s'" using s' by simp
  have "wire_block b = w" using construct_received_fields(1)[OF b] .
  then show "header (wire_block (blk s' a)) = header w" using s' a f by simp
  have "b_lock s < length (blk_heap s)"
    using replica_invD(2,3)[OF inv] stored_length by (auto simp: pointers_ok_def)
  then show "height_of s' (b_lock s') = height_of s (b_lock s)" using s' a by (simp add: nth_append)
qed (use run in \<open>auto simp: receive_and_validate_def receive_block_def alloc_def rbind_eq_Inr\<close>)

section \<open>Insertion\<close>

text \<open>What insertion does to the state, read through the relations of the invariant.\<close>

lemma store_insert_effect:
  assumes inv: "tree_inv T s" and a: "a < length (blk_heap s)"
    and run: "store_insert a s = Inr (m, s')" and fin: "\<not> has_missing m"
  shows "store_ok (genesis s) (block_store s') (blk_heap s')" and "linked (cache s') (blk_heap s') a"
    and "length (blk_heap s') = length (blk_heap s)"
    and "in_tree s x \<Longrightarrow> in_tree s' x \<and> blk s' x = blk s x"
    and "x \<noteq> a \<Longrightarrow> blk s' x = blk s x"
    and "cache s h = Some x \<Longrightarrow> cache s' h = Some x"
    and "stored s' x \<Longrightarrow> stored s x \<or> x = a"
    and "x < length (blk_heap s) \<Longrightarrow> hash_at s' x = hash_at s x \<and> wire_block (blk s' x) = wire_block (blk s x)
      \<and> parsed_qc (blk s' x) = parsed_qc (blk s x) \<and> decided (blk s' x) = decided (blk s x)
      \<and> self_qc (blk s' x) = self_qc (blk s x)"
    and "\<exists>st. s' = s\<lparr>blk_heap := blk_heap s', block_store := st\<rparr>"
proof -
  from run obtain st hp where i: "insert_block a (block_store s) (blk_heap s) = Inr (m, st, hp)"
    and s': "s' = s\<lparr>blk_heap := hp, block_store := st\<rparr>" by (auto simp: store_insert_def rbind_eq_Inr)
  have ht0: "heights_below 18446744073709551615 (blk_heap s)"
    using tree_invD(2)[OF inv] by (force simp: heights_below_def)
  note ok = insert_block_ok[OF i fin tree_invD(1)[OF inv] a ht0]
  from i fin obtain p j where hp: "hp = link_block a p j (blk_heap s)"
    and st: "st = (block_store s)\<lparr>block_cache := (if cache s (hash_at s a) = None
           then (cache s)(hash_at s a \<mapsto> a) else cache s),
         gc_collector := gc_add_block a (gc_collector (block_store s))\<rparr>"
    unfolding link_block_def by (rule insert_block_done)
  show "store_ok (genesis s) (block_store s') (blk_heap s')" "linked (cache s') (blk_heap s') a"
    "length (blk_heap s') = length (blk_heap s)" "x \<noteq> a \<Longrightarrow> blk s' x = blk s x"
    using ok(1,3,6,7) s' by simp_all
  show "\<exists>st. s' = s\<lparr>blk_heap := blk_heap s', block_store := st\<rparr>" using s' by auto
  show "cache s h = Some x \<Longrightarrow> cache s' h = Some x" using st s' by auto
  show "stored s' x \<Longrightarrow> stored s x \<or> x = a" using st s' by (auto simp: stored_def split: if_splits)
  show "x < length (blk_heap s) \<Longrightarrow> hash_at s' x = hash_at s x \<and> wire_block (blk s' x) = wire_block (blk s x)
      \<and> parsed_qc (blk s' x) = parsed_qc (blk s x) \<and> decided (blk s' x) = decided (blk s x)
      \<and> self_qc (blk s' x) = self_qc (blk s x)"
    using link_block_fields[of x "blk_heap s" a p j] s' hp by simp
  have "x \<noteq> a" if "x = genesis s"
    using that ok(3) store_ok_genesis(1)[OF ok(1)] by (auto simp: is_genesis_def linked_def)
  then show "in_tree s x \<Longrightarrow> in_tree s' x \<and> blk s' x = blk s x"
    using ok(4,7,8) s' by (cases "x = a") (auto simp: in_tree_def)
qed

lemma store_insert_wire:
  assumes "store_insert a s = Inr (m, s')" and "a < length (blk_heap s)"
  shows "wire_block (blk s' a) = wire_block (blk s a)"
proof -
  from assms(1) obtain st hp where i: "insert_block a (block_store s) (blk_heap s) = Inr (m, st, hp)"
    and s': "s' = s\<lparr>blk_heap := hp, block_store := st\<rparr>" by (auto simp: store_insert_def rbind_eq_Inr)
  show ?thesis
  proof (cases "has_missing m")
    case True
    then show ?thesis using insert_block_missing[OF i] s' by simp
  next
    case False
    with i obtain p j where "hp = link_block a p j (blk_heap s)"
      unfolding link_block_def by (rule insert_block_done)
    then show ?thesis using link_block_fields(4)[OF assms(2), of a p j] s' by simp
  qed
qed

lemma store_insert_inv:
  assumes inv: "replica_inv T cfg byz L s" and a: "a < length (blk_heap s)"
    and cert: "\<And>qc. parsed_qc (blk s a) = Some qc \<Longrightarrow> certd cfg byz L (obj_hash qc)"
    and run: "store_insert a s = Inr (m, s')" and ht: "heights_below 4294967296 (blk_heap s')"
    and fin: "\<not> has_missing m"
  shows "replica_inv T cfg byz L s'"
proof -
  note tree = replica_invD(2)[OF inv]
  note e = store_insert_effect[OF tree a run fin]
  obtain st where s': "s' = s\<lparr>blk_heap := blk_heap s', block_store := st\<rparr>" using e(9) by blast
  have f: "genesis s' = genesis s" "b_lock s' = b_lock s" "b_exec s' = b_exec s" "hqc_block s' = hqc_block s"
    "b_leaf s' = b_leaf s" "hqc_wire s' = hqc_wire s" "config s' = config s" by (subst s', simp)+
  have sto: "stored s x \<Longrightarrow> stored s' x" for x using e(6) by (auto simp: stored_def)
  have old_linked: "linked (cache s) (blk_heap s) x" if "x \<noteq> a" "linked (cache s') (blk_heap s') x" for x
  proof -
    from that(2) have x: "x < length (blk_heap s)" "parent_block_ptr (blk s x) \<noteq> None"
      using e(3) e(5)[OF that(1)] by (auto simp: linked_def)
    have "x \<noteq> genesis s" using x(2) genesis_facts(4)[OF tree] by auto
    then show ?thesis using tree_invD(3)[OF tree x(1)] x(2) by (simp add: object_ok_def)
  qed
  have tree': "tree_inv T s'" unfolding tree_inv_def f
  proof (intro conjI allI impI)
    fix x assume x: "x < length (blk_heap s')" "x \<noteq> genesis s"
    note o = tree_invD(3)[OF tree x(1)[unfolded e(3)] x(2), unfolded object_ok_def]
    have "linked (cache s') (blk_heap s') x" if "parent_block_ptr (blk s' x) \<noteq> None"
      using e(2) e(4)[of x] e(5)[of x] o that x(2) by (cases "x = a") (auto simp: in_tree_def f)
    then show "object_ok T (cache s') (blk_heap s') x" using o e(8)[OF x(1)[unfolded e(3)]] by (simp add: object_ok_def)
  qed (use e(1) ht in auto)
  note p = replica_invD(3)[OF inv, unfolded pointers_ok_def]
  have same: "blk s' (b_lock s) = blk s (b_lock s)" "blk s' (b_exec s) = blk s (b_exec s)"
    "blk s' (hqc_block s) = blk s (hqc_block s)" "blk s' (b_leaf s) = blk s (b_leaf s)" "in_tree s' (b_leaf s)"
    "in_tree s' (hqc_block s)"
    using p e(4) stored_in_tree[OF tree] by blast+
  have "pointers_ok T cfg byz L s'" using p sto same by (simp add: pointers_ok_def f)
  moreover have "justify_ok T cfg byz L s'" unfolding justify_ok_def
  proof (intro allI impI)
    fix x h assume x: "linked (cache s') (blk_heap s') x" "just_of T (hash_at s' x) = Some h"
    show "certd cfg byz L h"
    proof (cases "x = a")
      case True
      then have "\<exists>qc. parsed_qc (blk s a) = Some qc \<and> obj_hash qc = h"
        using linked_links[OF tree' x(1)] x(2) e(8)[OF a] by (metis option.inject)
      then show ?thesis using cert by blast
    next
      case False
      then show ?thesis using replica_invD(4)[OF inv] old_linked[OF False x(1)] x(2) e(5)[OF False]
        by (simp add: justify_ok_def)
    qed
  qed
  moreover have "decided (blk s' x)"
    if x: "stored s' x" and ext: "extends (par_of T) (hash_at s (b_exec s)) (hash_at s' x)" for x
  proof -
    have xl: "x < length (blk_heap s)" using stored_length[OF tree' x] e(3) by simp
    then have h: "hash_at s' x = hash_at s x" using e(8) by blast
    have "\<exists>y. stored s y \<and> hash_at s y = hash_at s x"
      using in_tree_ancestor[OF ext tree stored_in_tree[OF tree]] p h by metis
    then obtain y where y: "stored s y" "hash_at s y = hash_at s x" by blast
    have "cache s' (hash_at s x) = Some y" using e(6)[OF stored_hash[OF tree y(1)]] y(2) by simp
    then have "x = y" using stored_hash[OF tree' x] h by simp
    then show ?thesis using y(1) ext h e(8)[OF xl] replica_invD(5)[OF inv] by (simp add: decided_ok_def)
  qed
  then have "decided_ok T cfg byz L s'"
    using replica_invD(5)[OF inv] same e(3,4,8) by (auto simp: decided_ok_def f)
  moreover have "tally_ok cfg byz L s'"
    using replica_invD(6)[OF inv] e(3,8) by (simp add: tally_ok_def)
  ultimately show ?thesis using tree' replica_invD(1)[OF inv] f(7) by (simp add: replica_inv_def)
qed

section \<open>Proposing\<close>

text \<open>Changing only the leaf, to a block above the highest certificate.\<close>

lemma replica_inv_leaf:
  assumes "replica_inv T cfg byz L s" and "in_tree s a"
    and "extends (par_of T) (hash_at s a) (hash_at s (hqc_block s))"
  shows "replica_inv T cfg byz L (s\<lparr>b_leaf := a\<rparr>)"
proof -
  have "stored (s\<lparr>b_leaf := a\<rparr>) = stored s" "in_tree (s\<lparr>b_leaf := a\<rparr>) = in_tree s"
    by (auto simp: stored_def in_tree_def fun_eq_iff)
  then show ?thesis using assms
    unfolding replica_inv_def tree_inv_def pointers_ok_def justify_ok_def decided_ok_def tally_ok_def by simp
qed

lemma propose_body_inv:
  assumes inv: "replica_inv T cfg byz L s" and run: "propose_body cr bd s = Inr (a, s')"
    and tab: "\<And>hd h. hash_header cr hd = Inr h \<Longrightarrow> hd = header (wire_block (blk s' a)) \<Longrightarrow>
      h \<noteq> zero_hash \<and> T h = Some hd"
    and ht: "heights_below 4294967296 (blk_heap s')"
  shows "replica_inv T cfg byz L s'" and "linked (cache s') (blk_heap s') a"
    and "just_of T (hash_at s' a) = Some (hash_at s' (hqc_block s'))"
    and "extends (par_of T) (hash_at s' a) (hash_at s' (hqc_block s'))"
    and "vheight s' = vheight s" and "b_lock s' = b_lock s" and "self_id s' = self_id s" and "genesis s' = genesis s"
    and "height_of s' (b_lock s') = height_of s (b_lock s)"
proof -
  from run obtain bh b m s1 where a: "a = length (blk_heap s)"
    and b: "construct_received cr \<lparr>header = \<lparr>parent_hash = hash_at s (b_leaf s), header_qc = hqc_wire s,
        body_hash = bh\<rparr>, body = bd\<rparr> (self_id s) = Inr b"
    and i: "store_insert a (s\<lparr>blk_heap := blk_heap s @ [b]\<rparr>) = Inr (m, s1)"
    and m: "\<not> has_missing m" and s': "s' = s1\<lparr>b_leaf := a\<rparr>"
    by (auto simp: propose_body_def mint_block_def alloc_def rbind_eq_Inr Let_def split: if_splits)
  let ?w = "\<lparr>header = \<lparr>parent_hash = hash_at s (b_leaf s), header_qc = hqc_wire s, body_hash = bh\<rparr>, body = bd\<rparr>"
  let ?t = "s\<lparr>blk_heap := blk_heap s @ [b]\<rparr>"
  note tree = replica_invD(2)[OF inv] and p = replica_invD(3)[OF inv, unfolded pointers_ok_def]
  note cf = construct_received_fields[OF b]
  have al: "a < length (blk_heap ?t)" "blk ?t a = b" using a by simp_all
  have w: "header (wire_block (blk s' a)) = header ?w"
    using store_insert_wire[OF i al(1)] al(2) cf(1) s' by simp
  have hh: "get_hash b \<noteq> zero_hash" "T (get_hash b) = Some (header ?w)" using tab[OF cf(2)] w by simp_all
  have t: "replica_inv T cfg byz L ?t"
    using replica_inv_alloc[OF inv] construct_received_fresh[where T = T, OF b cf(2) hh] by blast
  have cert: "certd cfg byz L (obj_hash qc)" if "parsed_qc (blk ?t a) = Some qc" for qc
    using that al(2) cf(5) qc_of_wire_hash p by auto
  have i1: "replica_inv T cfg byz L s1"
    using store_insert_inv[OF t al(1) cert i _ m] ht s' by simp
  note e = store_insert_effect[OF replica_invD(2)[OF t] al(1) i m]
  obtain st where s1: "s1 = ?t\<lparr>blk_heap := blk_heap s1, block_store := st\<rparr>" using e(9) by blast
  have f: "hqc_block s1 = hqc_block s" "vheight s1 = vheight s" "b_lock s1 = b_lock s" "self_id s1 = self_id s"
    "genesis s1 = genesis s" "b_leaf s1 = b_leaf s" by (subst s1, simp)+
  have keep: "blk s1 x = blk s x" if "in_tree s x" for x
    using e(5)[of x] in_tree_length[OF tree that] a by (simp add: nth_append)
  have ha: "hash_at s1 a = get_hash b" using e(8)[OF al(1)] al(2) by simp
  have pj: "par_of T (hash_at s1 a) = Some (hash_at s (b_leaf s))"
    "just_of T (hash_at s1 a) = Some (hash_at s (hqc_block s))"
    using hh ha p by (simp_all add: par_of_def just_of_def)
  have hq: "hash_at s1 (hqc_block s1) = hash_at s (hqc_block s)"
    using keep[of "hqc_block s"] stored_in_tree[OF tree] p f(1) by simp
  have ext: "extends (par_of T) (hash_at s1 a) (hash_at s1 (hqc_block s1))"
    unfolding hq using pj(1) p by (auto intro: extends_step)
  have "in_tree s1 a" using e(2) by (simp add: in_tree_def)
  then show "replica_inv T cfg byz L s'" using replica_inv_leaf[OF i1 _ ext] s' by simp
  show "linked (cache s') (blk_heap s') a" using e(2) s' by simp
  show "just_of T (hash_at s' a) = Some (hash_at s' (hqc_block s'))"
    "extends (par_of T) (hash_at s' a) (hash_at s' (hqc_block s'))" using pj(2) hq ext s' by simp_all
  show "vheight s' = vheight s" "b_lock s' = b_lock s" "self_id s' = self_id s" "genesis s' = genesis s"
    using f s' by simp_all
  show "height_of s' (b_lock s') = height_of s (b_lock s)"
    using keep[of "b_lock s"] stored_in_tree[OF tree] p f(3) s' by simp
qed

section \<open>Garbage collection\<close>

lemma collect_garbage_inv:
  assumes inv: "replica_inv T cfg byz L s"
  shows "replica_inv T cfg byz L (collect_garbage s)" and "same_vars s (collect_garbage s)"
    and "b_lock (collect_garbage s) = b_lock s"
proof -
  obtain g hp where g: "gc_run_step (gc_collector (block_store s)) (blk_heap s) = (g, hp)" by fastforce
  let ?t = "s\<lparr>blk_heap := hp\<rparr>"
  have s': "collect_garbage s = s\<lparr>blk_heap := hp, block_store := (block_store s)\<lparr>gc_collector := g\<rparr>\<rparr>"
    using g by (simp add: collect_garbage_def)
  have v: "heap_view hp = heap_view (blk_heap s)" by (rule heap_view_gc_run[OF g])
  have fl: "decided (hp ! a) = decided (blk s a)" "self_qc (hp ! a) = self_qc (blk s a)" if "a < length (blk_heap s)" for a
    using gc_run_step_heap[OF g that] by auto
  have "replica_inv T cfg byz L ?t" by (rule replica_inv_heap[OF inv v]) (use fl in auto)
  moreover have "same_core ?t (collect_garbage s)" using s' by (simp add: same_core_def core.truncate_def)
  ultimately show "replica_inv T cfg byz L (collect_garbage s)" using replica_inv_same_core by blast
  show "same_vars s (collect_garbage s)" using v s' by (simp add: same_vars_def)
  show "b_lock (collect_garbage s) = b_lock s" using s' by simp
qed

section \<open>Counting votes\<close>

lemma tally_certified:
  assumes "faults_ok cfg byz" and "tally_ok cfg byz L s" and "a < length (blk_heap s)"
    and "has_quorum cfg (self_qc (blk s a))"
  shows "certd cfg byz L (hash_at s a)"
proof -
  let ?qc = "self_qc (blk s a)" and ?Q = "fst ` set (sigs (self_qc (blk s a)))"
  note t = assms(2)[unfolded tally_ok_def, rule_format, OF assms(3)]
  have "distinct (map fst (sigs ?qc))" using t by (simp add: qc_ok_def map_keys_ok_def strict_sorted_iff)
  then have "card ?Q = length (sigs ?qc)" by (metis distinct_card length_map list.set_map)
  moreover have "?Q \<subseteq> members cfg" using t by auto
  ultimately have "safe_quorum cfg byz ?Q"
    using assms(1,4) by (simp add: safe_quorum_def is_quorum_def has_quorum_def)
  moreover have "\<forall>r \<in> ?Q. r \<notin> byz \<longrightarrow> (\<exists>l. (r, hash_at s a, l) \<in> set L)"
  proof
    fix r assume "r \<in> ?Q"
    then obtain sig where "(r, sig) \<in> set (sigs ?qc)" by auto
    then show "r \<notin> byz \<longrightarrow> (\<exists>l. (r, hash_at s a, l) \<in> set L)" using t by blast
  qed
  ultimately show ?thesis unfolding certified_in_def by blast
qed

context core_callbacks
begin

lemma vote_inv:
  assumes inv: "replica_inv T cfg byz L s" and fo: "faults_ok cfg byz" and a: "in_tree s a"
    and vm: "rv \<in> members cfg" and uf: "rv \<notin> byz \<Longrightarrow> \<exists>l. (rv, pc_hash pc, l) \<in> set L"
    and run: "on_receive_vote cb pc a rv s = Inr s'"
  shows "replica_inv T cfg byz L s' \<and> same_vars s s' \<and> b_lock s' = b_lock s"
proof -
  note tree = replica_invD(2)[OF inv]
  have al: "a < length (blk_heap s)" by (rule in_tree_length[OF tree a])
  from run obtain qc where qc: "add_partial_certificate rv pc (self_qc (blk s a)) = Inr qc"
    by (auto simp: on_receive_vote_def rbind_eq_Inr Let_def)
  have pc: "pc_hash pc = hash_at s a" "qc = (self_qc (blk s a))\<lparr>sigs := emplace rv (pc_sig pc) (sigs (self_qc (blk s a)))\<rparr>"
    using qc by (auto simp: add_partial_certificate_def get_hash_def split: if_splits)
  have oh: "obj_hash qc = hash_at s a" using pc by (simp add: get_hash_def)
  let ?hp = "(blk_heap s)[a := (blk s a)\<lparr>self_qc := qc\<rparr>]" and ?t = "s\<lparr>blk_heap := (blk_heap s)[a := (blk s a)\<lparr>self_qc := qc\<rparr>]\<rparr>"
  have v: "heap_view ?hp = heap_view (blk_heap s)"
    by (rule heap_view_update) (simp add: block_view_def get_hash_def oh[unfolded get_hash_def])
  note h = heap_change_simps[OF tree v]
  have nth: "?hp ! x = (if x = a then (blk s a)\<lparr>self_qc := qc\<rparr> else blk s x)" for x using al by simp
  have tally: "tally_ok cfg byz L ?t" unfolding tally_ok_def
  proof (intro allI impI)
    fix x assume "x < length (blk_heap ?t)"
    then have x: "x < length (blk_heap s)" by simp
    note old = replica_invD(6)[OF inv, unfolded tally_ok_def, rule_format, OF x]
    have "rid \<in> members cfg \<and> (rid \<notin> byz \<longrightarrow> (\<exists>l. (rid, hash_at s a, l) \<in> set L))"
      if "x = a" "(rid, sig) \<in> set (sigs qc)" for rid sig
      using that set_emplace_subset[of rv "pc_sig pc" "sigs (self_qc (blk s a))"] old vm uf pc by auto
    then show "qc_ok (self_qc (blk ?t x)) \<and> (\<forall>rid sig. (rid, sig) \<in> set (sigs (self_qc (blk ?t x))) \<longrightarrow>
        rid \<in> members cfg \<and> (rid \<notin> byz \<longrightarrow> (\<exists>l. (rid, hash_at ?t x, l) \<in> set L)))"
      using old qc_ok_add_partial_certificate[OF _ qc] h(4)[OF x] by (auto simp: nth)
  qed
  have "decided_ok T cfg byz L ?t" by (rule decided_ok_heap[OF inv v]) (simp add: nth)
  with tally have t: "replica_inv T cfg byz L ?t"
    using replica_invD(1)[OF inv] replica_inv_heap_parts[OF inv v] by (simp add: replica_inv_def)
  have sv: "same_vars s ?t" "b_lock ?t = b_lock s" using v by (simp_all add: same_vars_def)
  show ?thesis
  proof (cases "has_quorum cfg qc \<and> \<not> has_quorum cfg (self_qc (blk s a))")
    case False
    then have "s' = ?t" using run qc replica_invD(1)[OF inv] al
      by (auto simp: on_receive_vote_def Let_def split: if_splits)
    then show ?thesis using t sv by simp
  next
    case True
    then obtain s1 where u: "update_hqc cb a qc ?t = Inr s1" and n: "on_new_qc cb (hash_at s1 a) s1 = Inr s'"
      using run qc replica_invD(1)[OF inv] al by (auto simp: on_receive_vote_def Let_def rbind_eq_Inr)
    have ta: "in_tree ?t a" "hash_at ?t a = hash_at s a" "a < length (blk_heap ?t)" "self_qc (blk ?t a) = qc"
      using a h(2) h(4)[OF al] al by simp_all
    have "certd cfg byz L (hash_at ?t a)" by (rule tally_certified[OF fo tally ta(3)]) (use True ta(4) in simp)
    from update_hqc_inv[OF t ta(1) this _ u] oh ta(2)
    have "replica_inv T cfg byz L s1" "same_vars ?t s1" "b_lock s1 = b_lock s" by simp_all
    then show ?thesis
      using replica_inv_same_core[OF on_new_qc_core[OF n]] same_core_vars[OF on_new_qc_core[OF n]]
        same_core_fields(5)[OF on_new_qc_core[OF n]] same_vars_trans sv(1) by metis
  qed
qed

end

end
