(* ===== verification/System.thy ===== *)
theory System
  imports Arrival_Inv
begin

text \<open>
  The replicas of a configuration running together. Each honest replica runs the handlers of the
  program; the members of \<open>byz\<close> are not modelled at all: anything may arrive, subject to what
  cryptography prevents (\<open>unforged\<close>, and one header per hash). A step is one handler run of one
  replica, so all interleavings of handlers of all replicas are covered; an exception stops the
  replica, after a vote it may already have sent. Heights are kept below \<open>2^32\<close>, where
  \<open>vheight\<close> is exact. A restart from disk is not a step of this system.
\<close>

record 's sys =
  running :: "replica_id \<Rightarrow> 's option"
  vlog :: "(replica_id, hash) vote_log"

definition initial_replica :: "ReplicaConfig \<Rightarrow> replica_id \<Rightarrow> ('d, 'x) replica_scheme \<Rightarrow> bool" where
  "initial_replica cfg r s \<longleftrightarrow> blk_heap s = [genesis_block] \<and> genesis s = 0 \<and> hqc_block s = 0
     \<and> hqc_wire s = qc_serialize (self_qc genesis_block) \<and> b_lock s = 0 \<and> b_exec s = 0 \<and> b_leaf s = 0
     \<and> vheight s = 0 \<and> self_id s = r \<and> config s = cfg \<and> cache s = [zero_hash \<mapsto> 0]"

definition initial_sys :: "ReplicaConfig \<Rightarrow> replica_id set \<Rightarrow> ('d, 'x) replica_scheme sys \<Rightarrow> bool" where
  "initial_sys cfg byz S \<longleftrightarrow> vlog S = []
     \<and> (\<forall>r s. running S r = Some s \<longrightarrow> r \<notin> byz \<and> initial_replica cfg r s)"

inductive sys_step :: "crypto \<Rightarrow> ('d, 't) index_ops \<Rightarrow> ('t, ('d, 'x) replica_scheme) callbacks \<Rightarrow> table
    \<Rightarrow> ReplicaConfig \<Rightarrow> replica_id set \<Rightarrow> ('d, 'x) replica_scheme sys \<Rightarrow> ('d, 'x) replica_scheme sys \<Rightarrow> bool"
  for cr ix cb T cfg byz where
  arrive: "running S r = Some s \<Longrightarrow> hash_header cr (header w) = Inr h \<Longrightarrow> h \<noteq> zero_hash \<Longrightarrow>
    T h = Some (header w) \<Longrightarrow> receive_and_validate cr w src s = Inr (ok, a, s') \<Longrightarrow>
    sys_step cr ix cb T cfg byz S (S\<lparr>running := (running S)(r \<mapsto> s')\<rparr>)"
| insert: "running S r = Some s \<Longrightarrow> a < length (blk_heap s) \<Longrightarrow> a \<noteq> genesis s \<Longrightarrow>
    parsed_qc (blk s a) = Some qc \<Longrightarrow> qc_verify cr cfg qc = Inr True \<Longrightarrow> unforged cr cfg byz (vlog S) qc \<Longrightarrow>
    store_insert a s = Inr (m, s') \<Longrightarrow> heights_below 4294967296 (blk_heap s') \<Longrightarrow>
    sys_step cr ix cb T cfg byz S (S\<lparr>running := (running S)(r \<mapsto> s')\<rparr>)"
| proposal: "running S r = Some s \<Longrightarrow> a < length (blk_heap s) \<Longrightarrow> parent_block_ptr (blk s a) \<noteq> None \<Longrightarrow>
    sys_step cr ix cb T cfg byz S
      (S\<lparr>running := (running S)(r := (case on_receive_proposal cr ix cb a proposer s of
                                          Inr s' \<Rightarrow> Some s' | Inl e \<Rightarrow> None)),
         vlog := (if proposal_opinion a s = Inr True
                  then (r, hash_at s a, hash_at s (b_lock s)) # vlog S else vlog S)\<rparr>)"
| vote: "running S r = Some s \<Longrightarrow> a < length (blk_heap s) \<Longrightarrow>
    a = genesis s \<or> parent_block_ptr (blk s a) \<noteq> None \<Longrightarrow> is_valid_replica cfg rv \<Longrightarrow> (rv \<notin> byz \<longrightarrow> (\<exists>l. (rv, pc_hash pc, l) \<in> set (vlog S))) \<Longrightarrow>
    on_receive_vote cb pc a rv s = Inr s' \<Longrightarrow>
    sys_step cr ix cb T cfg byz S (S\<lparr>running := (running S)(r \<mapsto> s')\<rparr>)"
| propose: "running S r = Some s \<Longrightarrow> propose_body cr bd s = Inr (a, s') \<Longrightarrow>
    hash_header cr (header (wire_block (blk s' a))) = Inr h \<Longrightarrow> h \<noteq> zero_hash \<Longrightarrow>
    T h = Some (header (wire_block (blk s' a))) \<Longrightarrow> heights_below 4294967296 (blk_heap s') \<Longrightarrow>
    sys_step cr ix cb T cfg byz S (S\<lparr>running := (running S)(r \<mapsto> s')\<rparr>)"
| collect: "running S r = Some s \<Longrightarrow>
    sys_step cr ix cb T cfg byz S (S\<lparr>running := (running S)(r \<mapsto> collect_garbage s)\<rparr>)"
| other: "running S r = Some s \<Longrightarrow> same_core s s' \<Longrightarrow>
    sys_step cr ix cb T cfg byz S (S\<lparr>running := (running S)(r \<mapsto> s')\<rparr>)"
| crash: "sys_step cr ix cb T cfg byz S (S\<lparr>running := (running S)(r := None)\<rparr>)"

abbreviation sys_run where
  "sys_run cr ix cb T cfg byz \<equiv> (sys_step cr ix cb T cfg byz)\<^sup>*\<^sup>*"

section \<open>The invariant of the system\<close>

abbreviation valid_votes where
  "valid_votes T cfg byz L \<equiv> valid_log (par_of T) (just_of T) (ht_of T) (node_of T) (safe_quorum cfg byz)
     (\<lambda>r. r \<notin> byz) zero_hash L"

definition sys_inv :: "table \<Rightarrow> ReplicaConfig \<Rightarrow> replica_id set \<Rightarrow> ('d, 'x) replica_scheme sys \<Rightarrow> bool" where
  "sys_inv T cfg byz S \<longleftrightarrow> valid_votes T cfg byz (vlog S)
     \<and> (\<forall>r s. running S r = Some s \<longrightarrow> replica_inv T cfg byz (vlog S) s \<and> history_ok T r (vlog S) s)"

lemma initial_replica_inv:
  assumes "initial_replica cfg r s"
  shows "replica_inv T cfg byz [] s \<and> history_ok T r [] s"
proof -
  note i = assms[unfolded initial_replica_def]
  have g: "block_height genesis_block = 0" "get_hash genesis_block = zero_hash"
    "parsed_qc genesis_block = None" "parent_block_ptr genesis_block = None" "justify_block_ptr genesis_block = None"
    "sigs (self_qc genesis_block) = []" "qc_ok (self_qc genesis_block)" "decided genesis_block"
    unfolding genesis_block_def by (simp_all add: get_hash_def qc_ok_new) (simp_all add: new_qc_def)
  have st: "stored s a \<longleftrightarrow> a = 0" for a using i by (auto simp: stored_def)
  have ln: "\<not> linked (cache s) (blk_heap s) a" for a using i g by (auto simp: linked_def)
  have "tree_inv T s" using i g ln by (auto simp: tree_inv_def store_ok_def is_genesis_def heights_below_def)
  moreover have "pointers_ok T cfg byz [] s"
    using i g by (simp add: pointers_ok_def st in_tree_def certified_in_def qc_serialize_def genesis_block_def new_qc_def)
  moreover have "justify_ok T cfg byz [] s" using ln by (simp add: justify_ok_def)
  moreover have "decided_ok T cfg byz [] s"
    using i g by (simp add: decided_ok_def st in_tree_def committed_in_def)
  moreover have "tally_ok cfg byz [] s" using i g by (simp add: tally_ok_def)
  ultimately show ?thesis using i by (simp add: replica_inv_def history_ok_def)
qed

lemma initial_sys_inv: "initial_sys cfg byz S \<Longrightarrow> sys_inv T cfg byz S"
  using initial_replica_inv[of cfg _ _ T byz] by (auto simp: initial_sys_def sys_inv_def)

text \<open>A step of one replica that adds nothing to the log.\<close>

lemma sys_inv_quiet:
  assumes "sys_inv T cfg byz S" and "replica_inv T cfg byz (vlog S) s'" and "history_ok T r (vlog S) s'"
  shows "sys_inv T cfg byz (S\<lparr>running := (running S)(r \<mapsto> s')\<rparr>)"
  using assms by (simp add: sys_inv_def)

lemma history_ok_vars:
  assumes "history_ok T r L s" and "vheight s' = vheight s"
    and "height_of s (b_lock s) \<le> height_of s' (b_lock s')"
  shows "history_ok T r L s'"
  unfolding history_ok_def
proof (intro allI impI)
  fix v k assume "(r, v, k) \<in> set L"
  then have "ht_of T v \<le> vheight s" "\<forall>i j. just_of T v = Some j \<longrightarrow> just_of T j = Some i \<longrightarrow>
      ht_of T i \<le> height_of s (b_lock s)" using assms(1) unfolding history_ok_def by blast+
  then show "ht_of T v \<le> vheight s' \<and> (\<forall>i j. just_of T v = Some j \<longrightarrow> just_of T j = Some i \<longrightarrow>
      ht_of T i \<le> height_of s' (b_lock s'))" using assms(2,3) by (auto intro: order_trans)
qed

lemma history_ok_same_vars:
  assumes "history_ok T r L s" and "replica_inv T cfg byz L0 s" and "same_vars s s'" and "b_lock s' = b_lock s"
  shows "history_ok T r L s'"
proof -
  note tree = replica_invD(2)[OF assms(2)]
  have "b_lock s < length (blk_heap s)"
    using replica_invD(3)[OF assms(2)] stored_length[OF tree] by (auto simp: pointers_ok_def)
  then have "height_of s (b_lock s) \<le> height_of s' (b_lock s')"
    using same_vars_read(4)[OF tree assms(3)] assms(4) by simp
  then show ?thesis using history_ok_vars[OF assms(1), of s'] assms(3) by (simp add: same_vars_def)
qed

text \<open>Insertion, with the hypotheses of the step.\<close>

lemma insert_step_inv:
  assumes inv: "replica_inv T cfg byz L s" and h: "history_ok T r L s" and fo: "faults_ok cfg byz"
    and a: "a < length (blk_heap s)" "a \<noteq> genesis s"
    and qc: "parsed_qc (blk s a) = Some qc" "qc_verify cr cfg qc = Inr True" "unforged cr cfg byz L qc"
    and run: "store_insert a s = Inr (m, s')" and ht: "heights_below 4294967296 (blk_heap s')"
  shows "replica_inv T cfg byz L s' \<and> history_ok T r L s'"
proof (cases "has_missing m")
  case True
  obtain st hp where "insert_block a (block_store s) (blk_heap s) = Inr (m, st, hp)"
    and "s' = s\<lparr>blk_heap := hp, block_store := st\<rparr>" using run by (auto simp: store_insert_def rbind_eq_Inr)
  then have "s' = s" using insert_block_missing True by fastforce
  then show ?thesis using inv h by simp
next
  case False
  note tree = replica_invD(2)[OF inv]
  note e = store_insert_effect(4,9)[OF tree a(1) run False]
  have "qc_ok qc" using tree_invD(3)[OF tree a] qc(1) by (simp add: object_ok_def)
  then have "certd cfg byz L (obj_hash qc)" using verified_certified[OF fo qc(3) _ qc(2)] by blast
  then have "replica_inv T cfg byz L s'" using store_insert_inv[OF inv a(1) _ run ht False] qc(1) by simp
  moreover have "in_tree s (b_lock s)"
    using stored_in_tree[OF tree] replica_invD(3)[OF inv] by (simp add: pointers_ok_def)
  then have "blk s' (b_lock s) = blk s (b_lock s)" using e(1) by blast
  moreover obtain st where st: "s' = s\<lparr>blk_heap := blk_heap s', block_store := st\<rparr>" using e(2) by blast
  have "b_lock s' = b_lock s" "vheight s' = vheight s" by (subst st, simp)+
  ultimately show ?thesis using history_ok_vars[OF h, of s'] by simp
qed

context core_callbacks
begin

lemma proposal_step_inv:
  assumes inv: "sys_inv T cfg byz S" and joc: "justify_on_chain T" and s: "running S r = Some s"
    and a: "a < length (blk_heap s)" "parent_block_ptr (blk s a) \<noteq> None"
    and L': "L' = (if proposal_opinion a s = Inr True
                  then (r, hash_at s a, hash_at s (b_lock s)) # vlog S else vlog S)"
  shows "sys_inv T cfg byz (S\<lparr>running := (running S)(r := (case on_receive_proposal cr ix cb a proposer s of
                                          Inr s' \<Rightarrow> Some s' | Inl e \<Rightarrow> None)), vlog := L'\<rparr>)"
proof -
  have ri: "replica_inv T cfg byz (vlog S) s" and hi: "history_ok T r (vlog S) s"
    and vv: "valid_votes T cfg byz (vlog S)" using inv s by (auto simp: sys_inv_def)
  note tree = replica_invD(2)[OF ri]
  have "a \<noteq> genesis s" using a(2) genesis_facts(4)[OF tree] by auto
  then have la: "linked (cache s) (blk_heap s) a" using tree_invD(3)[OF tree a(1)] a(2) by (simp add: object_ok_def)
  have "valid_votes T cfg byz L'" using vv proposal_vote_ok[OF ri hi joc la] L' by simp
  moreover have "replica_inv T cfg byz L' s' \<and> history_ok T r L' s'"
    if "on_receive_proposal cr ix cb a proposer s = Inr s'" for s'
    using proposal_inv[OF ri hi joc la L' that] by blast
  moreover have "replica_inv T cfg byz L' t \<and> history_ok T x L' t" if "running S x = Some t" "x \<noteq> r" for x t
  proof -
    have "replica_inv T cfg byz (vlog S) t" "history_ok T x (vlog S) t" using inv that by (auto simp: sys_inv_def)
    moreover have "set (vlog S) \<subseteq> set L'" using L' by auto
    moreover have "(x, v, k) \<in> set L' \<Longrightarrow> (x, v, k) \<in> set (vlog S)" for v k
      using L' that(2) by (auto split: if_splits)
    ultimately show ?thesis using replica_inv_log_mono unfolding history_ok_def by blast
  qed
  ultimately show ?thesis by (auto simp: sys_inv_def split: sum.splits if_splits)
qed

lemma sys_step_inv:
  assumes "sys_step cr ix cb T cfg byz S S'" and "sys_inv T cfg byz S"
    and fo: "faults_ok cfg byz" and joc: "justify_on_chain T"
  shows "sys_inv T cfg byz S'"
  using assms(1,2)
proof (induction rule: sys_step.induct)
  case (arrive S r s w h src ok a s')
  have inv: "replica_inv T cfg byz (vlog S) s" "history_ok T r (vlog S) s"
    using arrive by (auto simp: sys_inv_def)
  note v = receive_and_validate_inv[OF inv(1) arrive(2-5)]
  show ?case using sys_inv_quiet[OF arrive.prems v(1)] history_ok_vars[OF inv(2) v(4)] v(8) by simp
next
  case (insert S r s a qc m s')
  have inv: "replica_inv T cfg byz (vlog S) s" "history_ok T r (vlog S) s"
    using insert by (auto simp: sys_inv_def)
  from insert_step_inv[OF inv fo insert(2-8)] show ?case using sys_inv_quiet[OF insert.prems] by blast
next
  case (proposal S r s a proposer)
  show ?case by (rule proposal_step_inv[OF proposal.prems joc proposal.hyps refl])
next
  case (vote S r s a rv pc s')
  have inv: "replica_inv T cfg byz (vlog S) s" "history_ok T r (vlog S) s"
    using vote by (auto simp: sys_inv_def)
  have "in_tree s a"
    using vote(2,3) tree_invD(3)[OF replica_invD(2)[OF inv(1)] vote(2)] by (auto simp: in_tree_def object_ok_def)
  moreover have "rv \<in> members cfg" using vote(4) by (simp add: is_valid_replica_iff)
  ultimately have v: "replica_inv T cfg byz (vlog S) s'" "same_vars s s'" "b_lock s' = b_lock s"
    using vote_inv[OF inv(1) fo] vote(5,6) by blast+
  show ?case using sys_inv_quiet[OF vote.prems v(1) history_ok_same_vars[OF inv(2,1) v(2,3)]] .
next
  case (propose S r s bd a s' h)
  have inv: "replica_inv T cfg byz (vlog S) s" "history_ok T r (vlog S) s"
    using propose by (auto simp: sys_inv_def)
  note p = propose_body_inv[OF inv(1) propose(2) _ propose(6)]
  have "replica_inv T cfg byz (vlog S) s'" "vheight s' = vheight s" "height_of s' (b_lock s') = height_of s (b_lock s)"
    using p(1,5,9) propose(3-5) by (simp, simp, simp)
  then show ?case using sys_inv_quiet[OF propose.prems] history_ok_vars[OF inv(2), of s'] by simp
next
  case (collect S r s)
  have inv: "replica_inv T cfg byz (vlog S) s" "history_ok T r (vlog S) s"
    using collect by (auto simp: sys_inv_def)
  show ?case using sys_inv_quiet[OF collect.prems] collect_garbage_inv[OF inv(1)] history_ok_same_vars[OF inv(2,1)] by blast
next
  case (other S r s s')
  have inv: "replica_inv T cfg byz (vlog S) s" "history_ok T r (vlog S) s"
    using other by (auto simp: sys_inv_def)
  show ?case using sys_inv_quiet[OF other.prems] replica_inv_same_core[OF other(2) inv(1)]
      history_ok_same_core[OF other(2)] inv(2) by blast
next
  case (crash S r)
  then show ?case by (simp add: sys_inv_def)
qed

lemma sys_run_inv:
  assumes "sys_run cr ix cb T cfg byz S S'" and "sys_inv T cfg byz S"
    and "faults_ok cfg byz" and "justify_on_chain T"
  shows "sys_inv T cfg byz S'"
  using assms(1,2)
  by (induction rule: rtranclp_induct) (use sys_step_inv assms(3,4) in blast)+

lemma sys_step_log: "sys_step cr ix cb T cfg byz S S' \<Longrightarrow> set (vlog S) \<subseteq> set (vlog S')"
  by (induction rule: sys_step.induct) auto

lemma sys_run_log: "sys_run cr ix cb T cfg byz S S' \<Longrightarrow> set (vlog S) \<subseteq> set (vlog S')"
  by (induction rule: rtranclp_induct) (use sys_step_log in blast)+

text \<open>What honest replicas have executed, at any two moments of a run, lies on one branch.\<close>

lemma agreement:
  assumes init: "initial_sys cfg byz S0" and fo: "faults_ok cfg byz" and joc: "justify_on_chain T"
    and run: "sys_run cr ix cb T cfg byz S0 S" "sys_run cr ix cb T cfg byz S S'"
    and s: "running S r = Some s" and s': "running S' r' = Some s'"
  shows "extends (par_of T) (hash_at s (b_exec s)) (hash_at s' (b_exec s'))
    \<or> extends (par_of T) (hash_at s' (b_exec s')) (hash_at s (b_exec s))"
proof -
  have i: "sys_inv T cfg byz S" using sys_run_inv[OF run(1) initial_sys_inv[OF init] fo joc] .
  have i': "sys_inv T cfg byz S'" using sys_run_inv[OF run(2) i fo joc] .
  have "replica_inv T cfg byz (vlog S') s"
    using i s sys_run_log[OF run(2)] replica_inv_log_mono unfolding sys_inv_def by blast
  moreover have "replica_inv T cfg byz (vlog S') s'" "valid_votes T cfg byz (vlog S')"
    using i' s' by (auto simp: sys_inv_def)
  ultimately show ?thesis using votes.committed_agree[of T cfg byz "vlog S'"]
    by (simp add: replica_inv_def decided_ok_def)
qed

text \<open>The check that guards every commit succeeds: the walk from the block to commit ends at \<open>b_exec\<close>.\<close>

lemma commit_check:
  assumes ri: "replica_inv T cfg byz L s" and vv: "valid_votes T cfg byz L" and b2: "stored s b2"
    and c2: "certd cfg byz L (hash_at s b2)"
    and b1: "justify_block_ptr (blk s b2) = Some b1" "parent_block_ptr (blk s b2) = Some b1"
    and b0: "justify_block_ptr (blk s b1) = Some b0" "parent_block_ptr (blk s b1) = Some b0"
    and nd: "\<not> decided (blk s b0)"
  shows "\<exists>q. walk_down (Suc (height_of s b0)) (blk_heap s) (height_of s (b_exec s)) b0 = Inr (q, b_exec s)"
proof -
  let ?com = "committed_in (par_of T) (just_of T) (safe_quorum cfg byz) (\<lambda>r. r \<notin> byz) zero_hash L"
  note tree = replica_invD(2)[OF ri]
  note j1 = justify_ptr_Some[OF tree stored_in_tree[OF tree b2] b1(1)]
  note j0 = justify_ptr_Some[OF tree stored_in_tree[OF tree j1(2)] b0(1)]
  have it0: "in_tree s b0" by (rule stored_in_tree[OF tree j0(2)])
  have ex: "stored s (b_exec s)" using replica_invD(3)[OF ri] by (simp add: pointers_ok_def)
  have "three_chain (par_of T) (just_of T) (hash_at s b0) (hash_at s b1) (hash_at s b2)"
    using j1(3) j1(4)[OF b1(2)] j0(3) j0(4)[OF b0(2)] by (simp add: three_chain_def)
  then have "?com (hash_at s b0)" using c2 unfolding committed_in_def by blast
  moreover have "?com (hash_at s (b_exec s))" using replica_invD(5)[OF ri] by (simp add: decided_ok_def)
  ultimately have "extends (par_of T) (hash_at s b0) (hash_at s (b_exec s))
      \<or> extends (par_of T) (hash_at s (b_exec s)) (hash_at s b0)"
    by (rule votes.committed_agree[OF vv])
  moreover have "\<not> extends (par_of T) (hash_at s (b_exec s)) (hash_at s b0)"
    using replica_invD(5)[OF ri] nd j0(2) by (auto simp: decided_ok_def)
  ultimately have ext: "extends (par_of T) (hash_at s b0) (hash_at s (b_exec s))" by blast
  obtain q e where w: "walk_down (Suc (height_of s b0)) (blk_heap s) (height_of s (b_exec s)) b0 = Inr (q, e)"
    by (rule walk_endsE[OF tree it0])
  note wr = walk_run[OF tree it0 w]
  note n0 = in_tree_node[OF tree it0] and nx = in_tree_node[OF tree stored_in_tree[OF tree ex]]
  have "height_of s (b_exec s) \<le> height_of s b0" using votes.extends_node[OF ext] n0 nx by simp
  moreover have se: "stored s e" using wr(3) j0(2) by blast
  ultimately have "ht_of T (hash_at s e) = ht_of T (hash_at s (b_exec s))"
    using wr(1) nx in_tree_node[OF tree stored_in_tree[OF tree se]] by simp
  then have "hash_at s e = hash_at s (b_exec s)" using votes.ancestor_unique[OF wr(2) ext] n0 by blast
  then have "e = b_exec s" using stored_inject[OF tree se ex] by blast
  then show ?thesis using w by blast
qed

text \<open>The same at the place where \<open>on_receive_proposal\<close> makes the check.\<close>

lemma commit_check_handler:
  assumes inv: "sys_inv T cfg byz S" and s: "running S r = Some s"
    and a: "a < length (blk_heap s)" "parent_block_ptr (blk s a) \<noteq> None"
    and vote: "(if v then do_vote cb a p (s\<lparr>vheight := n\<rparr>) else Inr s) = Inr t"
    and b2: "justify_block_ptr (blk t a) = Some b2" and qc: "get_justify_qc (blk t a) = Inr qc"
    and s1: "update_hqc cb b2 qc t = Inr s1" and b1: "justify_block_ptr (blk s1 b2) = Some b1"
    and s2: "lock_and_persist cr b1 s1 = Inr s2" and b0: "justify_block_ptr (blk s2 b1) = Some b0"
    and nd: "\<not> decided (blk s2 b0)"
    and p: "parent_block_ptr (blk s2 b2) = Some b1" "parent_block_ptr (blk s2 b1) = Some b0"
  shows "\<exists>q. walk_down (Suc (height_of s2 b0)) (blk_heap s2) (height_of s2 (b_exec s2)) b0 = Inr (q, b_exec s2)"
proof -
  have vv: "valid_votes T cfg byz (vlog S)" and ri0: "replica_inv T cfg byz (vlog S) s"
    using inv s by (auto simp: sys_inv_def)
  let ?u = "s\<lparr>vheight := (if v then n else vheight s)\<rparr>"
  have "stored ?u = stored s" "in_tree ?u = in_tree s" by (auto simp: stored_def in_tree_def fun_eq_iff)
  then have "replica_inv T cfg byz (vlog S) ?u" using ri0
    unfolding replica_inv_def tree_inv_def pointers_ok_def justify_ok_def decided_ok_def tally_ok_def by simp
  moreover have core: "same_core ?u t" using vote do_vote_core by (cases v) auto
  ultimately have ri: "replica_inv T cfg byz (vlog S) t" by (rule replica_inv_same_core[rotated])
  note tree = replica_invD(2)[OF ri]
  have f: "blk_heap t = blk_heap s" "genesis t = genesis s" using same_core_fields[OF core] by simp_all
  have "a \<noteq> genesis t" using a(2) genesis_facts(4)[OF tree] f by auto
  then have la: "linked (cache t) (blk_heap t) a" using tree_invD(3)[OF tree] a f by (simp add: object_ok_def)
  obtain qc' where j2: "stored t b2" "just_of T (hash_at t a) = Some (hash_at t b2)"
    "parsed_qc (blk t a) = Some qc'" "obj_hash qc' = hash_at t b2"
    by (rule linked_links[OF tree la]) (use b2 in auto)
  have q: "qc' = qc" using j2(3) qc by (simp add: get_justify_qc_def)
  have c2: "certd cfg byz (vlog S) (hash_at t b2)" using replica_invD(4)[OF ri] la j2(2) by (simp add: justify_ok_def)
  note u = update_hqc_inv[OF ri stored_in_tree[OF tree j2(1)] c2 j2(4)[unfolded q] s1]
  note tree1 = replica_invD(2)[OF u(1)]
  have e1: "stored s1 b2" "certd cfg byz (vlog S) (hash_at s1 b2)"
    using j2(1) c2 same_vars_read(1)[OF tree u(2)] u(5) by simp_all
  note j1 = justify_ptr_Some[OF tree1 stored_in_tree[OF tree1 e1(1)] b1]
  have c1: "certd cfg byz (vlog S) (hash_at s1 b1)" using replica_invD(4)[OF u(1)] j1(1,3) by (simp add: justify_ok_def)
  note lp = lock_and_persist_inv[OF u(1) j1(2) c1 s2]
  note rd = same_vars_read[OF tree1 lp(2)]
  have len: "b2 < length (blk_heap s1)" "b1 < length (blk_heap s1)"
    using stored_length[OF tree1] e1(1) j1(2) by auto
  have "stored s2 b2" "certd cfg byz (vlog S) (hash_at s2 b2)" "justify_block_ptr (blk s2 b2) = Some b1"
    using e1 b1 rd len lp(4) by simp_all
  then show ?thesis using commit_check[OF lp(1) vv] b0 nd p by blast
qed

end

end
