(* ===== verification/App.thy ===== *)
theory App
  imports Network Vm_Bridge Decided_Index System
begin

text \<open>
  \<open>hotstuff.{h,cc}\<close>, \<open>liveness.h\<close> and \<open>protocol/hotstuff_protocol_manager\<close>: \<open>HotstuffAppBase\<close> with its
  queues and clients, the two applications over the bridges, and the pacemaker.

  The bridge of an application is used through \<open>bridge_ops\<close>. The virtual methods of the core are
  \<open>app_callbacks\<close>; the contract \<open>core_callbacks\<close> is interpreted on them, so what was shown for the
  core holds for the application.
\<close>

section \<open>The protocol manager\<close>

record HotstuffProtocolManager =
  manager_self_id :: replica_id
  other_clients :: "(replica_id \<times> HotstuffProtocolClient) list"

definition new_protocol_manager :: "ReplicaConfig \<Rightarrow> replica_id \<Rightarrow> HotstuffProtocolManager" where
  "new_protocol_manager cfg self =
     \<lparr>manager_self_id = self,
      other_clients = map (\<lambda>info. (info_id info, new_protocol_client info))
        (filter (\<lambda>info. info_id info \<noteq> self) (list_info cfg))\<rparr>"

fun client_at :: "replica_id \<Rightarrow> (HotstuffProtocolClient \<Rightarrow> HotstuffProtocolClient)
    \<Rightarrow> (replica_id \<times> HotstuffProtocolClient) list \<Rightarrow> (replica_id \<times> HotstuffProtocolClient) list result" where
  "client_at target f [] = Inl Out_of_range"
| "client_at target f ((rid, c) # cs) =
     (if rid = target then Inr ((rid, f c) # cs)
      else rbind (client_at target f cs) (\<lambda>cs. Inr ((rid, c) # cs)))"

section \<open>The application\<close>

record ('d, 'br) app = "'d node" +
  protocol_manager :: HotstuffProtocolManager
  app_secret_key :: secret_key
  latest_new_qc :: "hash option"
  cancel_wait :: bool
  vm_bridge :: 'br

text \<open>\<open>MockClientForSelf\<close>.\<close>

definition self_vote :: "addr \<Rightarrow> PartialCertificateWire \<Rightarrow> ('d, 'br) app \<Rightarrow> ('d, 'br) app result" where
  "self_vote block pc s = validate_and_add_event (VoteEvent (manager_self_id (protocol_manager s)) pc block) s"

definition self_propose :: "addr \<Rightarrow> ('d, 'br) app \<Rightarrow> ('d, 'br) app result" where
  "self_propose block s = validate_and_add_event (ProposalEvent (manager_self_id (protocol_manager s)) block) s"

definition send_vote_to :: "addr \<Rightarrow> PartialCertificateWire \<Rightarrow> replica_id \<Rightarrow> ('d, 'br) app \<Rightarrow> ('d, 'br) app result" where
  "send_vote_to block pc target s =
     (let pm = protocol_manager s in
      if target = manager_self_id pm then self_vote block pc s
      else
        rbind (client_at target (client_vote \<lparr>vote = pc, voter = manager_self_id pm\<rparr>) (other_clients pm)) (\<lambda>cs.
        Inr (s\<lparr>protocol_manager := pm\<lparr>other_clients := cs\<rparr>\<rparr>)))"

definition broadcast_proposal :: "addr \<Rightarrow> ('d, 'br) app \<Rightarrow> ('d, 'br) app result" where
  "broadcast_proposal block s =
     rbind (self_propose block s) (\<lambda>s.
     let pm = protocol_manager s;
         p = \<lparr>proposal = to_wire (blk s block), msg_proposer = manager_self_id pm\<rparr> in
     Inr (s\<lparr>protocol_manager := pm\<lparr>other_clients :=
       map (\<lambda>(rid, c). (rid, client_propose p c)) (other_clients pm)\<rparr>\<rparr>))"

section \<open>Virtual methods of the core\<close>

record ('t, 'br) bridge_ops =
  br_next_vm_block :: "bool \<Rightarrow> nat \<Rightarrow> 'br \<Rightarrow> (bytes \<times> 'br) result"
  br_apply_block :: "HotstuffBlock \<Rightarrow> 't \<Rightarrow> 'br \<Rightarrow> ('t \<times> 'br) result"
  br_notify_commitment :: "HotstuffBlock \<Rightarrow> 'br \<Rightarrow> 'br result"

definition app_do_vote :: "crypto \<Rightarrow> addr \<Rightarrow> replica_id \<Rightarrow> ('d, 'br) app \<Rightarrow> ('d, 'br) app result" where
  "app_do_vote cr block proposer s =
     rbind (make_partial_cert cr (get_hash (blk s block)) (app_secret_key s)) (\<lambda>cert.
     send_vote_to block cert proposer s)"

definition app_notify_ok_to_prune_blocks :: "nat \<Rightarrow> ('d, 'br) app \<Rightarrow> ('d, 'br) app result" where
  "app_notify_ok_to_prune_blocks committed_hotstuff_height s =
     (let keep_depth = 100 in
      Inr (s\<lparr>block_store := prune_below_height
        (if committed_hotstuff_height > keep_depth then committed_hotstuff_height - keep_depth else 0)
        (block_store s)\<rparr>))"

definition app_find_block_by_hash :: "hash \<Rightarrow> ('d, 'br) app \<Rightarrow> addr result" where
  "app_find_block_by_hash hash s =
     (case get_block hash (block_store s) of
        None \<Rightarrow> Inl (Runtime_error ''Failed to find block during initialization'')
      | Some a \<Rightarrow> Inr a)"

definition app_on_new_qc :: "hash \<Rightarrow> ('d, 'br) app \<Rightarrow> ('d, 'br) app result" where
  "app_on_new_qc hash s = Inr (s\<lparr>latest_new_qc := Some hash\<rparr>)"

definition app_apply_block :: "('t, 'br) bridge_ops \<Rightarrow> addr \<Rightarrow> 't \<Rightarrow> ('d, 'br) app \<Rightarrow> ('t \<times> ('d, 'br) app) result" where
  "app_apply_block bo block txn s =
     rbind (br_apply_block bo (blk s block) txn (vm_bridge s)) (\<lambda>(txn, br). Inr (txn, s\<lparr>vm_bridge := br\<rparr>))"

definition app_notify_vm_of_commitment :: "('t, 'br) bridge_ops \<Rightarrow> addr \<Rightarrow> ('d, 'br) app \<Rightarrow> ('d, 'br) app result" where
  "app_notify_vm_of_commitment bo block s =
     rbind (br_notify_commitment bo (blk s block) (vm_bridge s)) (\<lambda>br. Inr (s\<lparr>vm_bridge := br\<rparr>))"

definition app_notify_vm_of_qc :: "addr \<Rightarrow> ('d, 'br) app \<Rightarrow> ('d, 'br) app result" where
  "app_notify_vm_of_qc b_other s = Inr s"

definition app_callbacks :: "crypto \<Rightarrow> ('t, 'br) bridge_ops \<Rightarrow> ('t, ('d, 'br) app) callbacks" where
  "app_callbacks cr bo = \<lparr>do_vote = app_do_vote cr, on_new_qc = app_on_new_qc,
     apply_block = app_apply_block bo, notify_vm_of_commitment = app_notify_vm_of_commitment bo,
     notify_vm_of_qc_on_nonself_block = app_notify_vm_of_qc,
     notify_ok_to_prune_blocks = app_notify_ok_to_prune_blocks,
     find_block_by_hash = app_find_block_by_hash\<rparr>"

text \<open>\<open>HotstuffApp\<close> and \<open>NonspeculativeHotstuffApp\<close>.\<close>

definition speculative_ops :: "('v, 'b, 'i) vm_ops \<Rightarrow> ('d, 't) index_ops
    \<Rightarrow> ('t, ('v, 'b, 'i) HotstuffVMBridge) bridge_ops" where
  "speculative_ops vm ix = \<lparr>
     br_next_vm_block = (\<lambda>nonempty_proposal hotstuff_height br.
       if \<not> nonempty_proposal then make_empty_proposal vm hotstuff_height br
       else get_and_apply_next_proposal vm hotstuff_height br),
     br_apply_block = bridge_apply_block vm ix,
     br_notify_commitment = bridge_notify_commitment vm\<rparr>"

definition nonspeculative_ops :: "('v, 'b, 'i) vm_ops \<Rightarrow> ('d, 't) index_ops
    \<Rightarrow> ('t, 'v NonspeculativeVMBridge) bridge_ops" where
  "nonspeculative_ops vm ix = \<lparr>
     br_next_vm_block = (\<lambda>nonempty_proposal hotstuff_height br.
       if \<not> nonempty_proposal then rbind (nonspec_make_empty_proposal hotstuff_height br) (\<lambda>bs. Inr (bs, br))
       else get_next_proposal hotstuff_height br),
     br_apply_block = nonspec_apply_block vm ix,
     br_notify_commitment = (\<lambda>b br. Inr (nonspec_notify_commitment b br))\<rparr>"

section \<open>Proposing and waiting\<close>

definition default_depth :: nat where "default_depth = 3"

definition propose_with :: "crypto \<Rightarrow> ('t, 'br) bridge_ops \<Rightarrow> bool \<Rightarrow> ('d, 'br) app \<Rightarrow> (hash \<times> ('d, 'br) app) result" where
  "propose_with cr bo nonempty s =
     (let new_block_height = u64 (height_of s (b_leaf s) + 1) in
      rbind (br_next_vm_block bo nonempty new_block_height (vm_bridge s)) (\<lambda>(bd, br).
      rbind (propose_body cr bd (s\<lparr>vm_bridge := br\<rparr>)) (\<lambda>(newly_minted_block, s).
      rbind (broadcast_proposal newly_minted_block s) (\<lambda>s.
      Inr (get_hash (blk s (b_leaf s)), s)))))"

definition app_do_propose :: "crypto \<Rightarrow> ('t, 'br) bridge_ops \<Rightarrow> ('d, 'br) app \<Rightarrow> (hash \<times> ('d, 'br) app) result" where
  "app_do_propose cr bo s =
     rbind (supports_nonempty_child_proposal (blk_heap s) (b_leaf s) (self_id s) default_depth) (\<lambda>nonempty.
     propose_with cr bo nonempty s)"

definition app_do_empty_propose :: "crypto \<Rightarrow> ('t, 'br) bridge_ops \<Rightarrow> ('d, 'br) app \<Rightarrow> (hash \<times> ('d, 'br) app) result" where
  "app_do_empty_propose cr bo s = propose_with cr bo False s"

text \<open>\<open>None\<close>: the caller still waits.\<close>

definition app_wait_for_new_qc :: "hash \<Rightarrow> ('d, 'br) app \<Rightarrow> (bool \<times> ('d, 'br) app) option" where
  "app_wait_for_new_qc expected_next_qc s =
     (if cancel_wait s then Some (False, s\<lparr>cancel_wait := False\<rparr>)
      else case latest_new_qc s of
        None \<Rightarrow> None
      | Some h \<Rightarrow> Some (h = expected_next_qc, s\<lparr>latest_new_qc := None\<rparr>))"

definition app_cancel_wait_for_new_qc :: "('d, 'br) app \<Rightarrow> ('d, 'br) app" where
  "app_cancel_wait_for_new_qc s = s\<lparr>cancel_wait := True\<rparr>"

section \<open>Set-up\<close>

definition new_app :: "ReplicaConfig \<Rightarrow> replica_id \<Rightarrow> secret_key \<Rightarrow> (string \<Rightarrow> 'd result) \<Rightarrow> 'br \<Rightarrow> filesystem
    \<Rightarrow> ('d, 'br) app result" where
  "new_app cfg self sk open_index br fs =
     rbind (new_core cfg self open_index fs) (\<lambda>c.
     rbind (get_info cfg self) (\<lambda>info.
     rbind (new_block_store (genesis c) (blk_heap c) (get_data_dir info) (disk c)) (\<lambda>(st, fs).
     Inr \<lparr>blk_heap = blk_heap c, genesis = genesis c, hqc_block = hqc_block c, hqc_wire = hqc_wire c,
          b_lock = b_lock c, b_exec = b_exec c, vheight = vheight c, self_id = self_id c, config = config c,
          b_leaf = b_leaf c, decided_hash_index = decided_hash_index c, disk = fs,
          block_store = st,
          block_fetch_manager = init_configs cfg new_fetch_manager,
          event_queue = new_queue, network_event_queue = new_queue,
          protocol_manager = new_protocol_manager cfg self, app_secret_key = sk,
          latest_new_qc = None, cancel_wait = False, vm_bridge = br\<rparr>)))"

definition reload_entry :: "crypto \<Rightarrow> kv \<Rightarrow> nat \<times> ('d, 'br) app \<Rightarrow> (nat \<times> ('d, 'br) app) result" where
  "reload_entry cr e = (\<lambda>(_, s).
     rbind (iter_height_hash e) (\<lambda>(_, hash).
     rbind (get_info (config s) (self_id s)) (\<lambda>info.
     rbind (load_decided_block cr hash (get_data_dir info) (disk s) (blk_heap s)) (\<lambda>(a, hp).
     rbind (store_insert a (s\<lparr>blk_heap := hp\<rparr>)) (\<lambda>(res, s).
     if has_missing res then Inl (Runtime_error ''unable to properly load data into block store'')
     else Inr (height_of s a, s))))))"

definition reload_decided_blocks :: "crypto \<Rightarrow> ('e, 't, 'c) mdb \<Rightarrow> ('t index_txn, 'br) bridge_ops \<Rightarrow> nat
    \<Rightarrow> ('e HotstuffLMDB, 'br) app \<Rightarrow> (nat \<times> ('e HotstuffLMDB, 'br) app) result" where
  "reload_decided_blocks cr m bo fuel s =
     rbind (forward_cursor m (decided_hash_index s)) (\<lambda>cursor.
     rbind (cursor_for fuel m (reload_entry cr) cursor (0, s)) (\<lambda>(highest_decision, s).
     rbind (reload_state_from_index (lmdb_index m) (app_callbacks cr bo) s) (\<lambda>s.
     Inr (highest_decision, s))))"

definition app_init_clean :: "('e, 't, 'c) mdb \<Rightarrow> ('v, 'b, 'i) vm_ops
    \<Rightarrow> ('e HotstuffLMDB, ('v, 'b, 'i) HotstuffVMBridge) app
    \<Rightarrow> ('e HotstuffLMDB, ('v, 'b, 'i) HotstuffVMBridge) app result" where
  "app_init_clean m vm s =
     rbind (index_create_db m (decided_hash_index s)) (\<lambda>i.
     Inr (s\<lparr>decided_hash_index := i, vm_bridge := bridge_init_clean vm (vm_bridge s)\<rparr>))"

definition app_init_from_disk :: "crypto \<Rightarrow> ('e, 't, 'c) mdb \<Rightarrow> ('v, 'b, 'i) vm_ops
    \<Rightarrow> ('e HotstuffLMDB \<Rightarrow> 'v \<Rightarrow> 'v result) \<Rightarrow> nat
    \<Rightarrow> ('e HotstuffLMDB, ('v, 'b, 'i) HotstuffVMBridge) app
    \<Rightarrow> ('e HotstuffLMDB, ('v, 'b, 'i) HotstuffVMBridge) app result" where
  "app_init_from_disk cr m vm vm_init fuel s =
     rbind (index_open_db m (decided_hash_index s)) (\<lambda>i.
     rbind (reload_decided_blocks cr m (speculative_ops vm (lmdb_index m)) fuel
              (s\<lparr>decided_hash_index := i\<rparr>)) (\<lambda>(highest_decision_height, s).
     rbind (bridge_init_from_disk (vm_init (decided_hash_index s)) highest_decision_height (vm_bridge s)) (\<lambda>br.
     Inr (s\<lparr>vm_bridge := br\<rparr>))))"

definition nonspec_app_init_clean :: "('e, 't, 'c) mdb \<Rightarrow> ('e HotstuffLMDB, 'v NonspeculativeVMBridge) app
    \<Rightarrow> ('e HotstuffLMDB, 'v NonspeculativeVMBridge) app result" where
  "nonspec_app_init_clean m s =
     rbind (index_create_db m (decided_hash_index s)) (\<lambda>i.
     Inr (s\<lparr>decided_hash_index := i, vm_bridge := nonspec_init_clean (vm_bridge s)\<rparr>))"

definition nonspec_app_init_from_disk :: "crypto \<Rightarrow> ('e, 't, 'c) mdb \<Rightarrow> ('v, 'b, 'i) vm_ops \<Rightarrow> nat
    \<Rightarrow> ('e HotstuffLMDB, 'v NonspeculativeVMBridge) app
    \<Rightarrow> ('e HotstuffLMDB, 'v NonspeculativeVMBridge) app result" where
  "nonspec_app_init_from_disk cr m vm fuel s =
     rbind (index_open_db m (decided_hash_index s)) (\<lambda>i.
     rbind (reload_decided_blocks cr m (nonspeculative_ops vm (lmdb_index m)) fuel
              (s\<lparr>decided_hash_index := i\<rparr>)) (\<lambda>(highest_decision_height, s).
     Inr (s\<lparr>vm_bridge := nonspec_init_from_disk (decided_hash_index s) highest_decision_height (vm_bridge s)\<rparr>)))"

definition app_add_proposal :: "bytes \<Rightarrow> ('d, 'v NonspeculativeVMBridge) app \<Rightarrow> ('d, 'v NonspeculativeVMBridge) app" where
  "app_add_proposal p s = s\<lparr>vm_bridge := add_proposal p (vm_bridge s)\<rparr>"

definition app_put_vm_in_proposer_mode :: "('d, ('v, 'b, 'i) HotstuffVMBridge) app
    \<Rightarrow> ('d, ('v, 'b, 'i) HotstuffVMBridge) app result" where
  "app_put_vm_in_proposer_mode s = rbind (put_vm_in_proposer_mode (vm_bridge s)) (\<lambda>br. Inr (s\<lparr>vm_bridge := br\<rparr>))"

definition app_buffer_is_empty :: "('d, ('v, 'b, 'i) HotstuffVMBridge) app \<Rightarrow> bool" where
  "app_buffer_is_empty s = bridge_buffer_is_empty (vm_bridge s)"

definition app_stop_proposals :: "('d, ('v, 'b, 'i) HotstuffVMBridge) app \<Rightarrow> ('d, ('v, 'b, 'i) HotstuffVMBridge) app" where
  "app_stop_proposals s = s\<lparr>vm_bridge := bridge_stop_proposals (vm_bridge s)\<rparr>"

section \<open>The pacemaker\<close>

record PaceMakerWaitQC =
  expected_hash :: hash
  pm_proposer :: replica_id

definition new_pacemaker :: "('d, 'br) app \<Rightarrow> PaceMakerWaitQC" where
  "new_pacemaker s = \<lparr>expected_hash = zero_hash, pm_proposer = get_last_proposer s\<rparr>"

definition rotate_proposers :: "('d, 'br) app \<Rightarrow> PaceMakerWaitQC \<Rightarrow> PaceMakerWaitQC" where
  "rotate_proposers s p = p\<lparr>pm_proposer := (pm_proposer p + 1) mod nreplicas (config s)\<rparr>"

definition pm_wait_for_qc :: "PaceMakerWaitQC \<Rightarrow> ('d, 'br) app \<Rightarrow> (bool \<times> PaceMakerWaitQC \<times> ('d, 'br) app) option" where
  "pm_wait_for_qc p s =
     (case app_wait_for_new_qc (expected_hash p) s of
        None \<Rightarrow> None
      | Some (res, s) \<Rightarrow> Some (res, if \<not> res then p\<lparr>pm_proposer := get_last_proposer s\<rparr> else p, s))"

definition should_propose :: "PaceMakerWaitQC \<Rightarrow> ('d, 'br) app \<Rightarrow> bool" where
  "should_propose p s \<longleftrightarrow> pm_proposer p = self_id s"

definition set_self_as_proposer :: "PaceMakerWaitQC \<Rightarrow> ('d, 'br) app \<Rightarrow> PaceMakerWaitQC" where
  "set_self_as_proposer p s = p\<lparr>pm_proposer := self_id s\<rparr>"

definition pm_do_propose :: "crypto \<Rightarrow> ('t, 'br) bridge_ops \<Rightarrow> PaceMakerWaitQC \<Rightarrow> ('d, 'br) app
    \<Rightarrow> (PaceMakerWaitQC \<times> ('d, 'br) app) result" where
  "pm_do_propose cr bo p s =
     rbind (app_do_propose cr bo s) (\<lambda>(h, s). Inr (p\<lparr>pm_proposer := self_id s, expected_hash := h\<rparr>, s))"

definition pm_do_empty_propose :: "crypto \<Rightarrow> ('t, 'br) bridge_ops \<Rightarrow> PaceMakerWaitQC \<Rightarrow> ('d, 'br) app
    \<Rightarrow> (PaceMakerWaitQC \<times> ('d, 'br) app) result" where
  "pm_do_empty_propose cr bo p s =
     rbind (app_do_empty_propose cr bo s) (\<lambda>(h, s). Inr (p\<lparr>pm_proposer := self_id s, expected_hash := h\<rparr>, s))"

section \<open>The callbacks keep the core\<close>

lemma same_coreI:
  assumes "core.truncate s' = core.truncate s" and "cache s' = cache s"
  shows "same_core s s'"
  using assms by (simp add: same_core_def)

lemma validate_and_add_event_core:
  "validate_and_add_event e s = Inr s' \<Longrightarrow> same_core s s'"
  by (auto simp: validate_and_add_event_def rbind_eq_Inr same_core_def core.truncate_def split: if_splits)

lemma send_vote_to_core: "send_vote_to a pc r s = Inr s' \<Longrightarrow> same_core s s'"
  by (auto simp: send_vote_to_def self_vote_def rbind_eq_Inr Let_def same_core_def core.truncate_def
      dest!: validate_and_add_event_core split: if_splits)

lemma broadcast_proposal_core: "broadcast_proposal a s = Inr s' \<Longrightarrow> same_core s s'"
  by (auto simp: broadcast_proposal_def self_propose_def rbind_eq_Inr Let_def same_core_def core.truncate_def
      dest!: validate_and_add_event_core)

interpretation app: core_callbacks "app_callbacks cr bo" for cr bo
proof
  fix a r h n s s' t t'
  show "do_vote (app_callbacks cr bo) a r s = Inr s' \<Longrightarrow> same_core s s'"
    by (auto simp: app_callbacks_def app_do_vote_def rbind_eq_Inr dest: send_vote_to_core)
  show "on_new_qc (app_callbacks cr bo) h s = Inr s' \<Longrightarrow> same_core s s'"
    by (auto simp: app_callbacks_def app_on_new_qc_def same_core_def core.truncate_def)
  show "apply_block (app_callbacks cr bo) a t s = Inr (t', s') \<Longrightarrow> same_core s s'"
    by (auto simp: app_callbacks_def app_apply_block_def rbind_eq_Inr same_core_def core.truncate_def)
  show "notify_vm_of_commitment (app_callbacks cr bo) a s = Inr s' \<Longrightarrow> same_core s s'"
    by (auto simp: app_callbacks_def app_notify_vm_of_commitment_def rbind_eq_Inr same_core_def core.truncate_def)
  show "notify_vm_of_qc_on_nonself_block (app_callbacks cr bo) a s = Inr s' \<Longrightarrow> same_core s s'"
    by (auto simp: app_callbacks_def app_notify_vm_of_qc_def)
  show "notify_ok_to_prune_blocks (app_callbacks cr bo) n s = Inr s' \<Longrightarrow> same_core s s'"
    by (auto simp: app_callbacks_def app_notify_ok_to_prune_blocks_def prune_below_height_def same_core_def
        core.truncate_def)
qed

end
