(* ===== verification/App_System.thy ===== *)
theory App_System
  imports App
begin

text \<open>
  The applications of a configuration running together: every thread of every honest replica (the
  handlers of the two servers, the thread of the network queue, the thread of the event queue, the
  proposer, the collector) takes steps of its own code on the state of \<open>HotstuffAppBase\<close>.

  The refinement shown here: each such step is a sequence of steps of the system of handlers in
  \<open>System\<close>, where agreement was shown. Its invariant says what the queues hold: events on blocks
  that were validated before they were queued, votes that were cast.
\<close>

section \<open>What the handlers do to the heap\<close>

lemma heap_view_unwritten: "unwritten hp = unwritten hp' \<Longrightarrow> heap_view hp = heap_view hp'"
proof -
  have "heap_view (unwritten x) = heap_view x" for x
    by (simp add: heap_view_def unwritten_def block_view_def get_hash_def comp_def)
  then show "unwritten hp = unwritten hp' \<Longrightarrow> heap_view hp = heap_view hp'" by metis
qed

definition same_blocks :: "('d, 'x) core_scheme \<Rightarrow> ('d, 'x) core_scheme \<Rightarrow> bool" where
  "same_blocks s s' \<longleftrightarrow> heap_view (blk_heap s') = heap_view (blk_heap s) \<and> genesis s' = genesis s
     \<and> config s' = config s \<and> self_id s' = self_id s"

lemma same_blocks_refl [simp]: "same_blocks s s"
  by (simp add: same_blocks_def)

lemma same_blocks_trans [trans]: "same_blocks s t \<Longrightarrow> same_blocks t u \<Longrightarrow> same_blocks s u"
  by (simp add: same_blocks_def)

lemma same_core_blocks: "same_core s s' \<Longrightarrow> same_blocks s s'"
  using same_core_fields[of s s'] by (simp add: same_blocks_def)

context core_callbacks
begin

lemma update_hqc_blocks: "update_hqc cb b qc s = Inr s' \<Longrightarrow> same_blocks s s'"
  using update_hqc_effect[of b qc s s'] same_core_blocks by (fastforce simp: same_blocks_def)

lemma commit_chain_blocks:
  assumes "commit_chain ix cb b0 b1 s = Inr s'"
  shows "same_blocks s s'"
proof -
  obtain q index where "same_core (s\<lparr>blk_heap := mark_decided (rev q) (blk_heap s), b_exec := b0,
           decided_hash_index := index\<rparr>) s'" by (rule commit_chain_effect[OF assms])
  then show ?thesis by (auto dest!: same_core_blocks simp: same_blocks_def)
qed

lemma lock_and_persist_blocks:
  assumes "lock_and_persist cr b s = Inr s'"
  shows "same_blocks s s'"
proof -
  obtain hp d where hp: "unwritten hp = unwritten (blk_heap s)"
    and s': "s' = s\<lparr>b_lock := (if height_of s b > height_of s (b_lock s) then b else b_lock s), blk_heap := hp, disk := d\<rparr>"
    by (rule lock_and_persist_effect[OF assms])
  show ?thesis using heap_view_unwritten[OF hp] by (simp add: same_blocks_def s')
qed

lemma update_blocks:
  assumes "update cr ix cb a s = Inr s'"
  shows "same_blocks s s'"
  using update_run[OF assms]
proof (elim disjE exE conjE)
  fix b2 qc s1 b1 s2 b0
  assume 1: "update_hqc cb b2 qc s = Inr s1"
  show "s' = s1 \<Longrightarrow> same_blocks s s'" using update_hqc_blocks[OF 1] by simp
  assume 2: "lock_and_persist cr b1 s1 = Inr s2"
  show "s' = s2 \<Longrightarrow> same_blocks s s'"
    using same_blocks_trans[OF update_hqc_blocks[OF 1] lock_and_persist_blocks[OF 2]] by simp
  assume 3: "commit_chain ix cb b0 b1 s2 = Inr s'"
  show "same_blocks s s'"
    using same_blocks_trans[OF same_blocks_trans[OF update_hqc_blocks[OF 1] lock_and_persist_blocks[OF 2]]
      commit_chain_blocks[OF 3]] .
qed simp

lemma on_receive_vote_blocks:
  assumes "on_receive_vote cb pc a rv s = Inr s'"
  shows "same_blocks s s'"
proof -
  obtain qc where qc: "add_partial_certificate rv pc (self_qc (blk s a)) = Inr qc"
    using assms by (auto simp: on_receive_vote_def rbind_eq_Inr Let_def)
  let ?t = "s\<lparr>blk_heap := (blk_heap s)[a := (blk s a)\<lparr>self_qc := qc\<rparr>]\<rparr>"
  have "obj_hash qc = get_hash (blk s a)"
    using qc by (auto simp: add_partial_certificate_def get_hash_def split: if_splits)
  then have "heap_view (blk_heap ?t) = heap_view (blk_heap s)"
    by (auto intro!: heap_view_update simp: block_view_def get_hash_def)
  then have t: "same_blocks s ?t" by (simp add: same_blocks_def)
  have "s' = ?t \<or> (\<exists>h b c s1. update_hqc cb b c ?t = Inr s1 \<and> on_new_qc cb h s1 = Inr s')"
    using assms qc by (fastforce simp: on_receive_vote_def rbind_eq_Inr Let_def split: if_splits)
  then show ?thesis using t same_blocks_trans
    by (metis update_hqc_blocks same_core_blocks on_new_qc_core)
qed

lemma on_receive_proposal_blocks:
  assumes "on_receive_proposal cr ix cb a r s = Inr s'"
  shows "same_blocks s s'"
proof -
  obtain v t where t: "(if v then do_vote cb a r (s\<lparr>vheight := u32 (height_of s a)\<rparr>) else Inr s) = Inr t"
    and u: "update cr ix cb a t = Inr s'"
    using assms by (auto simp: on_receive_proposal_def rbind_eq_Inr)
  have "same_blocks s t"
  proof (cases v)
    case True
    then have "same_blocks (s\<lparr>vheight := u32 (height_of s a)\<rparr>) t" 
      using t by (simp add: same_core_blocks do_vote_core)
    then show ?thesis by (simp add: same_blocks_def)
  qed (use t in simp)
  then show ?thesis using update_blocks[OF u] by (rule same_blocks_trans)
qed

end

section \<open>What the queues hold\<close>

definition cast_vote :: "replica_id set \<Rightarrow> (replica_id, hash) vote_log \<Rightarrow> replica_id \<Rightarrow> hash \<Rightarrow> bool" where
  "cast_vote byz L rid h \<longleftrightarrow> (rid \<notin> byz \<longrightarrow> (\<exists>l. (rid, h, l) \<in> set L))"

definition checked_block :: "crypto \<Rightarrow> ReplicaConfig \<Rightarrow> replica_id set \<Rightarrow> (replica_id, hash) vote_log
    \<Rightarrow> addr \<Rightarrow> heap \<Rightarrow> addr \<Rightarrow> bool" where
  "checked_block cr cfg byz L g hp a \<longleftrightarrow> a < length hp \<and> a \<noteq> g \<and>
     (\<exists>qc. parsed_qc (hp ! a) = Some qc \<and> qc_verify cr cfg qc = Inr True \<and> unforged cr cfg byz L qc)"

fun net_event_ok :: "crypto \<Rightarrow> ReplicaConfig \<Rightarrow> replica_id set \<Rightarrow> (replica_id, hash) vote_log
    \<Rightarrow> addr \<Rightarrow> heap \<Rightarrow> NetEvent \<Rightarrow> bool" where
  "net_event_ok cr cfg byz L g hp (VoteNetEvent cert rid) \<longleftrightarrow>
     is_valid_replica cfg rid \<and> cast_vote byz L rid (pc_hash cert)"
| "net_event_ok cr cfg byz L g hp (ProposalNetEvent a rid) \<longleftrightarrow>
     is_valid_replica cfg rid \<and> checked_block cr cfg byz L g hp a"
| "net_event_ok cr cfg byz L g hp (BlockReceiveNetEvent a rid) \<longleftrightarrow>
     is_valid_replica cfg rid \<and> checked_block cr cfg byz L g hp a"

definition placed :: "addr \<Rightarrow> heap \<Rightarrow> addr \<Rightarrow> bool" where
  "placed g hp a \<longleftrightarrow> a < length hp \<and> (a = g \<or> parent_block_ptr (hp ! a) \<noteq> None)"

fun event_ok :: "ReplicaConfig \<Rightarrow> replica_id set \<Rightarrow> (replica_id, hash) vote_log \<Rightarrow> addr \<Rightarrow> heap \<Rightarrow> Event \<Rightarrow> bool" where
  "event_ok cfg byz L g hp (VoteEvent rid cert a) \<longleftrightarrow>
     placed g hp a \<and> is_valid_replica cfg rid \<and> cast_vote byz L rid (pc_hash cert)"
| "event_ok cfg byz L g hp (ProposalEvent rid a) \<longleftrightarrow> a < length hp \<and> parent_block_ptr (hp ! a) \<noteq> None"

definition queues_ok :: "crypto \<Rightarrow> ReplicaConfig \<Rightarrow> replica_id set \<Rightarrow> (replica_id, hash) vote_log \<Rightarrow> replica_id
    \<Rightarrow> ('d, 'br) app \<Rightarrow> bool" where
  "queues_ok cr cfg byz L r s \<longleftrightarrow>
     config s = cfg \<and> manager_self_id (protocol_manager s) = r \<and> is_valid_replica cfg r
     \<and> fetch_ok cfg (block_fetch_manager s)
     \<and> (\<forall>e \<in> pending s. net_event_ok cr cfg byz L (genesis s) (blk_heap s) e)
     \<and> (\<forall>e \<in> set (queued (event_queue s)). event_ok cfg byz L (genesis s) (blk_heap s) e)"

text \<open>The blocks the queues refer to stay as they are: the heap grows and parents are only set.\<close>

definition heap_grows :: "heap \<Rightarrow> heap \<Rightarrow> bool" where
  "heap_grows hp hp' \<longleftrightarrow> length hp \<le> length hp' \<and> (\<forall>a < length hp. parsed_qc (hp' ! a) = parsed_qc (hp ! a)
     \<and> (parent_block_ptr (hp ! a) \<noteq> None \<longrightarrow> parent_block_ptr (hp' ! a) \<noteq> None))"

lemma heap_grows_refl [simp]: "heap_grows hp hp"
  by (simp add: heap_grows_def)

lemma heap_grows_trans [trans]: "heap_grows hp hp' \<Longrightarrow> heap_grows hp' hp'' \<Longrightarrow> heap_grows hp hp''"
  unfolding heap_grows_def by (metis order_less_le_trans order_trans)

lemma heap_grows_view:
  assumes "heap_view hp' = heap_view hp"
  shows "heap_grows hp hp'"
proof -
  note l = heap_view_length[OF assms]
  have "block_view (hp' ! a) = block_view (hp ! a)" if "a < length hp" for a
    using that l assms unfolding heap_view_def by (metis nth_map)
  then show ?thesis using l by (auto simp: heap_grows_def block_view_def)
qed

lemma heap_grows_append [simp]: "heap_grows hp (hp @ bs)"
  by (simp add: heap_grows_def nth_append)

lemma heap_grows_insert:
  assumes "store_insert a s = Inr (m, s')"
  shows "heap_grows (blk_heap s) (blk_heap s')"
proof (cases "has_missing m")
  case True
  then have "s' = s" using assms insert_block_missing by (fastforce simp: store_insert_def rbind_eq_Inr)
  then show ?thesis by simp
next
  case False
  obtain st hp where r: "insert_block a (block_store s) (blk_heap s) = Inr (m, st, hp)"
    and s': "s' = s\<lparr>blk_heap := hp, block_store := st\<rparr>"
    using assms by (auto simp: store_insert_def rbind_eq_Inr)
  obtain p j where hp: "hp = set_justify a j (set_parent a p (blk_heap s))" by (rule insert_block_done[OF r False])
  have "parsed_qc (hp ! x) = parsed_qc (blk s x) \<and> (parent_block_ptr (blk s x) \<noteq> None \<longrightarrow> parent_block_ptr (hp ! x) \<noteq> None)"
    if "x < length (blk_heap s)" for x
    using that unfolding hp by (cases "x = a") (simp_all add: set_justify_def set_parent_def)
  moreover have "length hp = length (blk_heap s)" by (simp add: hp set_justify_def set_parent_def)
  ultimately show ?thesis using s' by (simp add: heap_grows_def)
qed

lemma net_event_ok_mono:
  assumes "heap_grows hp hp'" and "set L \<subseteq> set L'" and "net_event_ok cr cfg byz L g hp e"
  shows "net_event_ok cr cfg byz L' g hp' e"
proof -
  have "checked_block cr cfg byz L' g hp' a" if c: "checked_block cr cfg byz L g hp a" for a
  proof -
    obtain qc where qc: "a < length hp" "a \<noteq> g" "parsed_qc (hp ! a) = Some qc" "qc_verify cr cfg qc = Inr True"
      "unforged cr cfg byz L qc" using c by (auto simp: checked_block_def)
    have "unforged cr cfg byz L' qc" using qc(5) assms(2) unfolding unforged_def by blast
    then show ?thesis using qc assms(1) by (simp add: checked_block_def heap_grows_def)
  qed
  then show ?thesis using assms(2,3) by (cases e) (auto simp: cast_vote_def)
qed

lemma event_ok_mono:
  assumes "heap_grows hp hp'" and "set L \<subseteq> set L'" and "event_ok cfg byz L g hp e"
  shows "event_ok cfg byz L' g hp' e"
proof -
  have "placed g hp' a" if "placed g hp a" for a
    using that assms(1) by (auto simp: placed_def heap_grows_def)
  then show ?thesis using assms by (cases e) (auto simp: cast_vote_def heap_grows_def)
qed

text \<open>The parts of the state that \<open>queues_ok\<close> reads beside the heap.\<close>

definition queues_of :: "('d, 'br) app \<Rightarrow> Event GenericEventQueue \<times> NetEvent GenericEventQueue \<times> BlockFetchManager \<times> replica_id" where
  "queues_of s = (event_queue s, network_event_queue s, block_fetch_manager s, manager_self_id (protocol_manager s))"

lemma queues_ok_mono:
  assumes "queues_ok cr cfg byz L r s" and "queues_of s' = queues_of s" and "config s' = config s"
    and "genesis s' = genesis s" and "heap_grows (blk_heap s) (blk_heap s')" and "set L \<subseteq> set L'"
  shows "queues_ok cr cfg byz L' r s'"
proof -
  have "pending s' = pending s" using assms(2) by (simp add: pending_def queues_of_def)
  then show ?thesis using assms net_event_ok_mono[OF assms(5,6)] event_ok_mono[OF assms(5,6)]
    by (simp add: queues_ok_def queues_of_def)
qed

interpretation queue_frame: handler_frame "app_callbacks cr bo" queues_of for cr bo
  by unfold_locales
    (auto simp: queues_of_def app_callbacks_def app_on_new_qc_def app_apply_block_def app_notify_vm_of_commitment_def
      app_notify_vm_of_qc_def app_notify_ok_to_prune_blocks_def rbind_eq_Inr Let_def)

end
