(* ===== verification/App_Refine.thy ===== *)
theory App_Refine
  imports App_System
begin

text \<open>
  The steps of the applications and their refinement of the system of handlers.

  A step is one handler of a server, one event of one of the two queue threads, one proposal, one
  round of the collector, or a step of a thread that touches neither the core nor the queues (the
  virtual machine's worker, the clients, the pacemaker). What is assumed of messages is stated in the
  steps: a valid signature of an honest replica is on a vote it has cast, and the table \<open>T\<close> has the
  one header of each hash.
\<close>

section \<open>Steps\<close>

definition honest_signatures :: "crypto \<Rightarrow> ReplicaConfig \<Rightarrow> replica_id set \<Rightarrow> (replica_id, hash) vote_log
    \<Rightarrow> HotstuffBlockWire \<Rightarrow> bool" where
  "honest_signatures cr cfg byz L w \<longleftrightarrow>
     (\<forall>qc. qc_of_wire (header_qc (header w)) = Inr qc \<longrightarrow> unforged cr cfg byz L qc)"

definition in_table :: "crypto \<Rightarrow> table \<Rightarrow> HotstuffBlockHeader \<Rightarrow> bool" where
  "in_table cr T hdr \<longleftrightarrow> (\<exists>h. hash_header cr hdr = Inr h \<and> h \<noteq> zero_hash \<and> T h = Some hdr)"

definition signed_vote_cast :: "crypto \<Rightarrow> ReplicaConfig \<Rightarrow> replica_id set \<Rightarrow> (replica_id, hash) vote_log
    \<Rightarrow> VoteMessage \<Rightarrow> bool" where
  "signed_vote_cast cr cfg byz L v \<longleftrightarrow>
     (\<forall>info. get_info cfg (voter v) = Inr info \<longrightarrow> partial_cert_validate cr (vote v) info \<longrightarrow>
       cast_vote byz L (voter v) (pc_hash (vote v)))"

text \<open>The log after an event of the protocol's queue.\<close>

fun log_event :: "replica_id \<Rightarrow> ('d, 'br) app \<Rightarrow> Event \<Rightarrow> (replica_id, hash) vote_log \<Rightarrow> (replica_id, hash) vote_log" where
  "log_event r s (VoteEvent rid cert a) L = L"
| "log_event r s (ProposalEvent rid a) L =
     (if proposal_opinion a s = Inr True then (r, hash_at s a, hash_at s (b_lock s)) # L else L)"

inductive app_step :: "crypto \<Rightarrow> ('d, 't) index_ops \<Rightarrow> ('t, 'br) bridge_ops \<Rightarrow> table \<Rightarrow> ReplicaConfig
    \<Rightarrow> replica_id set \<Rightarrow> ('d, 'br) app sys \<Rightarrow> ('d, 'br) app sys \<Rightarrow> bool"
  for cr ix bo T cfg byz where
  recv_vote: "running S r = Some s \<Longrightarrow> handler_vote cr v s = Inr s' \<Longrightarrow>
    signed_vote_cast cr cfg byz (vlog S) v \<Longrightarrow>
    app_step cr ix bo T cfg byz S (S\<lparr>running := (running S)(r \<mapsto> s')\<rparr>)"
| recv_propose: "running S r = Some s \<Longrightarrow> handler_propose cr p s = Inr s' \<Longrightarrow>
    in_table cr T (header (proposal p)) \<Longrightarrow> honest_signatures cr cfg byz (vlog S) (proposal p) \<Longrightarrow>
    app_step cr ix bo T cfg byz S (S\<lparr>running := (running S)(r \<mapsto> s')\<rparr>)"
| recv_fetched: "running S r = Some s \<Longrightarrow> is_valid_replica cfg source \<Longrightarrow> receive_fetched cr source w s = Inr s' \<Longrightarrow>
    in_table cr T (header w) \<Longrightarrow> honest_signatures cr cfg byz (vlog S) w \<Longrightarrow>
    app_step cr ix bo T cfg byz S (S\<lparr>running := (running S)(r \<mapsto> s')\<rparr>)"
| net_thread: "running S r = Some s \<Longrightarrow> net_thread_step s = Inr s' \<Longrightarrow> heights_below 4294967296 (blk_heap s') \<Longrightarrow>
    app_step cr ix bo T cfg byz S (S\<lparr>running := (running S)(r \<mapsto> s')\<rparr>)"
| event_thread: "running S r = Some s \<Longrightarrow> next_event (event_queue s) = Some (e, q) \<Longrightarrow>
    app_step cr ix bo T cfg byz S
      (S\<lparr>running := (running S)(r := (case event_thread_step cr ix (app_callbacks cr bo) s of
                                          Inr s' \<Rightarrow> Some s' | Inl _ \<Rightarrow> None)),
         vlog := log_event r s e (vlog S)\<rparr>)"
| propose: "running S r = Some s \<Longrightarrow> propose_with cr bo nonempty s = Inr (h, s') \<Longrightarrow>
    in_table cr T (header (wire_block (blk s' (b_leaf s')))) \<Longrightarrow> heights_below 4294967296 (blk_heap s') \<Longrightarrow>
    app_step cr ix bo T cfg byz S (S\<lparr>running := (running S)(r \<mapsto> s')\<rparr>)"
| collect: "running S r = Some s \<Longrightarrow>
    app_step cr ix bo T cfg byz S (S\<lparr>running := (running S)(r \<mapsto> collect_garbage s)\<rparr>)"
| other_thread: "running S r = Some s \<Longrightarrow> same_core s s' \<Longrightarrow> queues_of s' = queues_of s \<Longrightarrow>
    app_step cr ix bo T cfg byz S (S\<lparr>running := (running S)(r \<mapsto> s')\<rparr>)"
| crash: "app_step cr ix bo T cfg byz S (S\<lparr>running := (running S)(r := None)\<rparr>)"

abbreviation app_run where
  "app_run cr ix bo T cfg byz \<equiv> (app_step cr ix bo T cfg byz)\<^sup>*\<^sup>*"

section \<open>Effects of the receiving handlers\<close>

lemma handler_vote_effect:
  assumes "handler_vote cr v s = Inr s'"
  shows "s' = s \<or> (\<exists>info. is_valid_replica (config s) (voter v) \<and> get_info (config s) (voter v) = Inr info
    \<and> partial_cert_validate cr (vote v) info
    \<and> s' = s\<lparr>network_event_queue := add_event (VoteNetEvent (vote v) (voter v)) (network_event_queue s)\<rparr>)"
  using assms
  by (auto simp: handler_vote_def validate_and_add_net_event_def rbind_eq_Inr Let_def split: if_splits)

text \<open>A received block is constructed and validated; the event is queued when it passes.\<close>

definition queue_block :: "NetEvent \<Rightarrow> bool \<Rightarrow> ('d, 'br) app \<Rightarrow> ('d, 'br) app" where
  "queue_block e ok t = (if ok then t\<lparr>network_event_queue := add_event e (network_event_queue t)\<rparr> else t)"

lemma validate_block_event:
  assumes "net_event_validate cr (config s) e (blk_heap s) =
      rbind (validate_hotstuff cr (config s) (blk s a)) (\<lambda>(ok, b). Inr (ok, (blk_heap s)[a := b]))"
  shows "validate_and_add_net_event cr e s = rbind (validate_hotstuff cr (config s) (blk s a))
      (\<lambda>(ok, b). Inr (queue_block e ok (s\<lparr>blk_heap := (blk_heap s)[a := b]\<rparr>)))"
proof (cases "validate_hotstuff cr (config s) (blk s a)")
  case (Inl e)
  then show ?thesis using assms by (simp add: validate_and_add_net_event_def)
next
  case (Inr x)
  obtain ok b where "x = (ok, b)" by (cases x)
  then show ?thesis using assms Inr by (simp add: validate_and_add_net_event_def queue_block_def)
qed

lemma handler_propose_run:
  assumes "is_valid_replica (config s) (msg_proposer p)"
  shows "handler_propose cr p s = rbind (receive_and_validate cr (proposal p) (msg_proposer p) s)
    (\<lambda>(ok, a, t). Inr (queue_block (ProposalNetEvent a (msg_proposer p)) ok t))"
proof (cases "receive_block cr (proposal p) (msg_proposer p) (blk_heap s)")
  case (Inl e)
  then show ?thesis using assms by (simp add: handler_propose_def receive_and_validate_def)
next
  case (Inr x)
  obtain a hp where x: "x = (a, hp)" by (cases x)
  let ?v = "validate_hotstuff cr (config s) (hp ! a)"
  have "handler_propose cr p s = rbind ?v (\<lambda>(ok, b). Inr (queue_block (ProposalNetEvent a (msg_proposer p)) ok
      (s\<lparr>blk_heap := hp[a := b]\<rparr>)))"
    using assms Inr x validate_block_event[of cr "s\<lparr>blk_heap := hp\<rparr>" "ProposalNetEvent a (msg_proposer p)" a]
    by (simp add: handler_propose_def)
  also have "\<dots> = rbind (rbind ?v (\<lambda>(ok, b). Inr (ok, a, s\<lparr>blk_heap := hp[a := b]\<rparr>)))
      (\<lambda>(ok, a, t). Inr (queue_block (ProposalNetEvent a (msg_proposer p)) ok t))"
    by (cases ?v) auto
  finally show ?thesis using Inr x by (simp add: receive_and_validate_def)
qed

lemma handler_propose_effect:
  assumes "handler_propose cr p s = Inr s'"
  shows "s' = s \<or> (\<exists>ok a t. is_valid_replica (config s) (msg_proposer p)
    \<and> receive_and_validate cr (proposal p) (msg_proposer p) s = Inr (ok, a, t)
    \<and> s' = queue_block (ProposalNetEvent a (msg_proposer p)) ok t)"
proof (cases "is_valid_replica (config s) (msg_proposer p)")
  case True
  then show ?thesis using assms handler_propose_run[OF True, of cr] by (auto simp: rbind_eq_Inr)
next
  case False
  then show ?thesis using assms by (simp add: handler_propose_def)
qed

lemma validate_hash_twice:
  assumes "validate_hash cr b = Inr (x, b')"
  shows "validate_hotstuff cr cfg b' = validate_hotstuff cr cfg b"
proof -
  have "hash_checked b' \<and> hash_valid b' = x"
    using assms by (auto simp: validate_hash_def rbind_eq_Inr Let_def split: if_splits)
  then have "validate_hash cr b' = Inr (x, b')" by (simp add: validate_hash_def)
  then show ?thesis using assms by (simp add: validate_hotstuff_def)
qed

lemma receive_fetched_effect:
  assumes "receive_fetched cr source w s = Inr s'"
  shows "\<exists>ok a t. receive_and_validate cr w source s = Inr (ok, a, t)
    \<and> s' = queue_block (BlockReceiveNetEvent a source) ok t"
proof -
  obtain a hp x b where r: "receive_block cr w source (blk_heap s) = Inr (a, hp)"
    and h: "validate_hash cr (hp ! a) = Inr (x, b)"
    and v: "validate_and_add_net_event cr (BlockReceiveNetEvent a source) (s\<lparr>blk_heap := hp[a := b]\<rparr>) = Inr s'"
    using assms by (auto simp: receive_fetched_def rbind_eq_Inr)
  have a: "a < length hp" using r by (auto simp: receive_block_def alloc_def rbind_eq_Inr)
  obtain ok c where c: "validate_hotstuff cr (config s) (hp ! a) = Inr (ok, c)"
    and s': "s' = queue_block (BlockReceiveNetEvent a source) ok (s\<lparr>blk_heap := hp[a := c]\<rparr>)"
    using v a validate_hash_twice[OF h, of "config s"]
      validate_block_event[of cr "s\<lparr>blk_heap := hp[a := b]\<rparr>" "BlockReceiveNetEvent a source" a]
    by (auto simp: rbind_eq_Inr)
  show ?thesis using r c s' by (auto simp: receive_and_validate_def)
qed

lemma receive_and_validate_effect:
  assumes "receive_and_validate cr w src s = Inr (ok, a, t)"
  obtains b qc where "a = length (blk_heap s)" and "t = s\<lparr>blk_heap := blk_heap s @ [b]\<rparr>"
    and "parsed_qc b = Some qc" and "qc_of_wire (header_qc (header w)) = Inr qc"
    and "ok \<longrightarrow> qc_verify cr (config s) qc = Inr True"
proof -
  obtain b0 b where b0: "construct_received cr w src = Inr b0" and a: "a = length (blk_heap s)"
    and v: "validate_hotstuff cr (config s) b0 = Inr (ok, b)"
    and t: "t = s\<lparr>blk_heap := blk_heap s @ [b]\<rparr>"
    using assms by (auto simp: receive_and_validate_def receive_block_def alloc_def rbind_eq_Inr)
  obtain qc where qc: "qc_of_wire (header_qc (header w)) = Inr qc" "parsed_qc b0 = Some qc"
    using b0 by (auto simp: construct_received_def rbind_eq_Inr)
  obtain f where f: "b = b0\<lparr>hash_checked := True, hash_valid := f\<rparr>" using validate_hotstuff_frame[OF v] by blast
  have "ok \<longrightarrow> qc_verify cr (config s) qc = Inr True" using v validate_hotstuff_qc[of cr "config s" b0 b] qc(2) by auto
  then show ?thesis using that[OF a t _ qc(1)] f qc(2) by simp
qed

section \<open>Queues after each step\<close>

lemma queues_okD:
  assumes "queues_ok cr cfg byz L r s"
  shows "config s = cfg" and "manager_self_id (protocol_manager s) = r" and "is_valid_replica cfg r"
    and "fetch_ok cfg (block_fetch_manager s)"
    and "e \<in> pending s \<Longrightarrow> net_event_ok cr cfg byz L (genesis s) (blk_heap s) e"
    and "v \<in> set (queued (event_queue s)) \<Longrightarrow> event_ok cfg byz L (genesis s) (blk_heap s) v"
  using assms unfolding queues_ok_def by blast+

lemma queues_okI:
  assumes "config s = cfg" and "manager_self_id (protocol_manager s) = r" and "is_valid_replica cfg r"
    and "fetch_ok cfg (block_fetch_manager s)"
    and "\<And>e. e \<in> pending s \<Longrightarrow> net_event_ok cr cfg byz L (genesis s) (blk_heap s) e"
    and "\<And>v. v \<in> set (queued (event_queue s)) \<Longrightarrow> event_ok cfg byz L (genesis s) (blk_heap s) v"
  shows "queues_ok cr cfg byz L r s"
  using assms unfolding queues_ok_def by blast

lemma pending_add_event:
  "pending (s\<lparr>network_event_queue := add_event e (network_event_queue s)\<rparr>) = insert e (pending s)"
  by (auto simp: pending_def add_event_def)

lemma queues_ok_add_net_event:
  assumes ok: "queues_ok cr cfg byz L r s" and e: "net_event_ok cr cfg byz L (genesis s) (blk_heap s) e"
  shows "queues_ok cr cfg byz L r (s\<lparr>network_event_queue := add_event e (network_event_queue s)\<rparr>)"
  using queues_okD[OF ok] e by (intro queues_okI) (auto simp: pending_add_event)

lemma queues_ok_received:
  assumes ok: "queues_ok cr cfg byz L r s" and rv: "receive_and_validate cr w src s = Inr (v, a, t)"
    and hs: "honest_signatures cr cfg byz L w" and src: "is_valid_replica cfg src"
    and g: "genesis s < length (blk_heap s)"
    and e: "e = ProposalNetEvent a src \<or> e = BlockReceiveNetEvent a src"
  shows "queues_ok cr cfg byz L r (queue_block e v t)"
proof -
  obtain b qc where a: "a = length (blk_heap s)" and t: "t = s\<lparr>blk_heap := blk_heap s @ [b]\<rparr>"
    and qc: "parsed_qc b = Some qc" "qc_of_wire (header_qc (header w)) = Inr qc" "v \<longrightarrow> qc_verify cr (config s) qc = Inr True"
    by (rule receive_and_validate_effect[OF rv])
  have okt: "queues_ok cr cfg byz L r t"
    by (rule queues_ok_mono[OF ok]) (simp_all add: t queues_of_def)
  have "net_event_ok cr cfg byz L (genesis t) (blk_heap t) e" if v
    using e qc that src hs a g queues_okD(1)[OF ok] unfolding t honest_signatures_def
    by (auto simp: checked_block_def)
  then show ?thesis using okt queues_ok_add_net_event[OF okt] by (simp add: queue_block_def)
qed

lemma queue_block_core: "same_core t (queue_block e v t)"
  by (simp add: queue_block_def same_core_def core.truncate_def)

section \<open>Each step of an application is a run of the system\<close>

definition queues_hold :: "crypto \<Rightarrow> ReplicaConfig \<Rightarrow> replica_id set \<Rightarrow> ('d, 'br) app sys \<Rightarrow> bool" where
  "queues_hold cr cfg byz S \<longleftrightarrow> (\<forall>r s. running S r = Some s \<longrightarrow> queues_ok cr cfg byz (vlog S) r s)"

lemma queues_holdD: "queues_hold cr cfg byz S \<Longrightarrow> running S r = Some s \<Longrightarrow> queues_ok cr cfg byz (vlog S) r s"
  by (simp add: queues_hold_def)

lemma queues_hold_update:
  assumes "queues_hold cr cfg byz S" and "queues_ok cr cfg byz (vlog S) r s'"
  shows "queues_hold cr cfg byz (S\<lparr>running := (running S)(r \<mapsto> s')\<rparr>)"
  using assms by (simp add: queues_hold_def)

lemma sys_inv_tree: "sys_inv T cfg byz S \<Longrightarrow> running S r = Some s \<Longrightarrow> tree_inv T s"
  unfolding sys_inv_def using replica_invD(2) by blast

lemma sys_other:
  assumes "running S r = Some s" and "same_core s s'"
  shows "sys_run cr ix cb T cfg byz S (S\<lparr>running := (running S)(r \<mapsto> s')\<rparr>)"
  using sys_step.other[OF assms] by blast

text \<open>A step followed by one that leaves the core alone.\<close>

lemma sys_then_other:
  assumes "sys_step cr ix cb T cfg byz S (S\<lparr>running := (running S)(r \<mapsto> t)\<rparr>)" and "same_core t s'"
  shows "sys_run cr ix cb T cfg byz S (S\<lparr>running := (running S)(r \<mapsto> s')\<rparr>)"
  using assms(1) sys_other[of "S\<lparr>running := (running S)(r \<mapsto> t)\<rparr>" r t s' cr ix cb T cfg byz] assms(2)
  by (simp add: converse_rtranclp_into_rtranclp)

text \<open>A step that follows one that leaves the core alone.\<close>

lemma sys_other_then:
  assumes "running S r = Some s" and "same_core s t"
    and "sys_run cr ix cb T cfg byz (S\<lparr>running := (running S)(r \<mapsto> t)\<rparr>) S'"
  shows "sys_run cr ix cb T cfg byz S S'"
  using sys_other[OF assms(1,2)] assms(3) by (rule rtranclp_trans)

lemma recv_vote_sim:
  assumes Q: "queues_hold cr cfg byz S" and s: "running S r = Some s" and run: "handler_vote cr v s = Inr s'"
    and sig: "signed_vote_cast cr cfg byz (vlog S) v"
  shows "sys_run cr ix cb T cfg byz S (S\<lparr>running := (running S)(r \<mapsto> s')\<rparr>) \<and> queues_ok cr cfg byz (vlog S) r s'"
proof -
  note q = queues_holdD[OF Q s]
  from handler_vote_effect[OF run] show ?thesis
  proof (elim disjE exE conjE)
    show ?thesis if "s' = s" using q sys_other[OF s same_core_refl] that by simp
    fix info
    let ?e = "VoteNetEvent (vote v) (voter v)"
    assume i: "is_valid_replica (config s) (voter v)" "get_info (config s) (voter v) = Inr info"
      "partial_cert_validate cr (vote v) info"
      and s': "s' = s\<lparr>network_event_queue := add_event ?e (network_event_queue s)\<rparr>"
    have "net_event_ok cr cfg byz (vlog S) (genesis s) (blk_heap s) ?e"
      using i sig queues_okD(1)[OF q] by (auto simp: signed_vote_cast_def)
    then have "queues_ok cr cfg byz (vlog S) r s'" unfolding s' by (rule queues_ok_add_net_event[OF q])
    moreover have "same_core s s'" by (simp add: s' same_core_def core.truncate_def)
    ultimately show ?thesis using sys_other[OF s] by blast
  qed
qed

lemma recv_block_sim:
  assumes Q: "queues_hold cr cfg byz S" and s: "running S r = Some s" and T: "tree_inv T s"
    and tab: "in_table cr T (header w)" and hs: "honest_signatures cr cfg byz (vlog S) w"
    and src: "is_valid_replica cfg src" and rv: "receive_and_validate cr w src s = Inr (v, a, t)"
    and e: "e = ProposalNetEvent a src \<or> e = BlockReceiveNetEvent a src"
  shows "sys_run cr ix cb T cfg byz S (S\<lparr>running := (running S)(r \<mapsto> queue_block e v t)\<rparr>)
    \<and> queues_ok cr cfg byz (vlog S) r (queue_block e v t)"
proof -
  obtain h where h: "hash_header cr (header w) = Inr h" "h \<noteq> zero_hash" "T h = Some (header w)"
    using tab by (auto simp: in_table_def)
  have "sys_run cr ix cb T cfg byz S (S\<lparr>running := (running S)(r \<mapsto> queue_block e v t)\<rparr>)"
    by (rule sys_then_other[OF sys_step.arrive[where w = w and h = h and src = src and ok = v and a = a] queue_block_core])
      (fact s h rv)+
  then show ?thesis
    using queues_ok_received[OF queues_holdD[OF Q s] rv hs src genesis_facts(5)[OF T] e] by blast
qed

lemma recv_propose_sim:
  assumes Q: "queues_hold cr cfg byz S" and s: "running S r = Some s" and T: "tree_inv T s"
    and run: "handler_propose cr p s = Inr s'"
    and tab: "in_table cr T (header (proposal p))" and hs: "honest_signatures cr cfg byz (vlog S) (proposal p)"
  shows "sys_run cr ix cb T cfg byz S (S\<lparr>running := (running S)(r \<mapsto> s')\<rparr>) \<and> queues_ok cr cfg byz (vlog S) r s'"
  using handler_propose_effect[OF run]
proof (elim disjE exE conjE)
  show ?thesis if "s' = s" using queues_holdD[OF Q s] sys_other[OF s same_core_refl] that by simp
  fix ok a t
  assume v: "is_valid_replica (config s) (msg_proposer p)"
    and rv: "receive_and_validate cr (proposal p) (msg_proposer p) s = Inr (ok, a, t)"
    and s': "s' = queue_block (ProposalNetEvent a (msg_proposer p)) ok t"
  have "is_valid_replica cfg (msg_proposer p)" using v queues_okD(1)[OF queues_holdD[OF Q s]] by simp
  then show ?thesis unfolding s' using recv_block_sim[OF Q s T tab hs _ rv] by blast
qed

lemma recv_fetched_sim:
  assumes Q: "queues_hold cr cfg byz S" and s: "running S r = Some s" and T: "tree_inv T s"
    and src: "is_valid_replica cfg source" and run: "receive_fetched cr source w s = Inr s'"
    and tab: "in_table cr T (header w)" and hs: "honest_signatures cr cfg byz (vlog S) w"
  shows "sys_run cr ix cb T cfg byz S (S\<lparr>running := (running S)(r \<mapsto> s')\<rparr>) \<and> queues_ok cr cfg byz (vlog S) r s'"
  using receive_fetched_effect[OF run] recv_block_sim[OF Q s T tab hs src] by blast

text \<open>The thread of the network queue.\<close>

lemma store_insert_form:
  assumes "store_insert a s = Inr (m, s')"
  shows "\<exists>hp st. s' = s\<lparr>blk_heap := hp, block_store := st\<rparr>"
  using store_insert_stored(2)[OF assms] .

lemma store_insert_parent:
  assumes "store_insert a s = Inr (m, s')" and "\<not> has_missing m" and "a < length (blk_heap s)"
  shows "a < length (blk_heap s') \<and> parent_block_ptr (blk s' a) \<noteq> None"
proof -
  obtain st hp where r: "insert_block a (block_store s) (blk_heap s) = Inr (m, st, hp)"
    and s': "s' = s\<lparr>blk_heap := hp, block_store := st\<rparr>"
    using assms(1) by (auto simp: store_insert_def rbind_eq_Inr)
  obtain p j where "hp = set_justify a j (set_parent a p (blk_heap s))" by (rule insert_block_done[OF r assms(2)])
  then show ?thesis using s' assms(3) by (simp add: set_justify_def set_parent_def)
qed

lemma block_part_facts:
  assumes b: "block_part e s = Inr (d, s1)"
  shows "queues_of s1 = queues_of s" and "config s1 = config s" and "genesis s1 = genesis s"
    and "heap_grows (blk_heap s) (blk_heap s1)"
proof -
  have "queues_of s1 = queues_of s \<and> config s1 = config s \<and> genesis s1 = genesis s"
    using b by (cases e) (auto dest!: store_insert_form simp: queues_of_def)
  then show "queues_of s1 = queues_of s" "config s1 = config s" "genesis s1 = genesis s" by simp_all
  show "heap_grows (blk_heap s) (blk_heap s1)" using b heap_grows_insert by (cases e) auto
qed

lemma produced_ok:
  assumes T: "tree_inv T s" and e: "net_event_ok cr cfg byz L (genesis s) (blk_heap s) e"
    and b: "block_part e s = Inr (d, s1)" and v: "v \<in> produced e s d"
  shows "event_ok cfg byz L (genesis s1) (blk_heap s1) v"
proof (cases e)
  case (VoteNetEvent cert rid)
  then obtain a where a: "get_block (pc_hash cert) (block_store s) = Some a" "v = VoteEvent rid cert a"
    using v by (auto split: option.splits)
  have "stored s a" using a(1) by (auto simp: stored_def get_block_def)
  then have "placed (genesis s) (blk_heap s) a"
    using stored_in_tree[OF T, of a] stored_length[OF T, of a] by (auto simp: placed_def in_tree_def linked_def)
  then show ?thesis using VoteNetEvent e b a(2) by simp
next
  case (ProposalNetEvent a rid)
  then have "\<not> has_missing d" "v = ProposalEvent rid a" using v by (auto split: if_splits)
  moreover have "a < length (blk_heap s)" using e ProposalNetEvent by (simp add: checked_block_def)
  ultimately show ?thesis using store_insert_parent[of a s d s1] b ProposalNetEvent by simp
qed (use v in simp)

lemma net_event_source: "net_event_ok cr cfg byz L g hp e \<Longrightarrow> is_valid_replica cfg (event_source e)"
  by (cases e) simp_all

lemma on_net_event_sim:
  assumes Q: "queues_hold cr cfg byz S" and s: "running S r = Some s" and T: "tree_inv T s"
    and e: "net_event_ok cr cfg byz (vlog S) (genesis s) (blk_heap s) e"
    and run: "on_net_event e s = Inr s'" and ht: "heights_below 4294967296 (blk_heap s')"
  shows "sys_run cr ix cb T cfg byz S (S\<lparr>running := (running S)(r \<mapsto> s')\<rparr>) \<and> queues_ok cr cfg byz (vlog S) r s'"
proof -
  note q = queues_okD[OF queues_holdD[OF Q s]]
  obtain d s1 m eq nq where b: "block_part e s = Inr (d, s1)"
    and s': "s' = s1\<lparr>block_fetch_manager := m, event_queue := eq, network_event_queue := nq\<rparr>"
    and eq: "set (queued eq) \<subseteq> set (queued (event_queue s1)) \<union> produced e s d"
    by (rule on_net_event_form[OF run])
  note f = block_part_facts[OF b]
  have core: "same_core s1 s'" by (simp add: s' same_core_def core.truncate_def)
  have ht1: "heights_below 4294967296 (blk_heap s1)" using ht s' by simp
  have blocks: "sys_step cr ix cb T cfg byz S (S\<lparr>running := (running S)(r \<mapsto> s1)\<rparr>)"
    if c: "checked_block cr cfg byz (vlog S) (genesis s) (blk_heap s) a" and i: "store_insert a s = Inr (d, s1)" for a
  proof -
    obtain qc where a: "a < length (blk_heap s)" "a \<noteq> genesis s" "parsed_qc (blk s a) = Some qc"
      "qc_verify cr cfg qc = Inr True" "unforged cr cfg byz (vlog S) qc" using c by (auto simp: checked_block_def)
    show ?thesis by (rule sys_step.insert[OF s a i ht1])
  qed
  have "sys_step cr ix cb T cfg byz S (S\<lparr>running := (running S)(r \<mapsto> s1)\<rparr>)"
  proof (cases e)
    case (VoteNetEvent cert rid)
    then show ?thesis using b sys_step.other[OF s same_core_refl] by simp
  next
    case (ProposalNetEvent a rid)
    then show ?thesis using b e blocks[of a] by simp
  next
    case (BlockReceiveNetEvent a rid)
    then show ?thesis using b e blocks[of a] by simp
  qed
  then have "sys_run cr ix cb T cfg byz S (S\<lparr>running := (running S)(r \<mapsto> s')\<rparr>)" by (rule sys_then_other[OF _ core])
  moreover have "queues_ok cr cfg byz (vlog S) r s'"
  proof (rule queues_okI)
    have cfg: "config s = cfg" by (fact q(1))
    have k: "fetch_ok (config s') (block_fetch_manager s')" "pending s' \<subseteq> insert e (pending s)"
      using on_net_event_keeps[OF _ _ run] q(4) net_event_source[OF e] cfg by blast+
    show c': "config s' = cfg" using f(2) cfg s' by simp
    show "fetch_ok cfg (block_fetch_manager s')" using k(1) c' by simp
    show "manager_self_id (protocol_manager s') = r" using f(1) q(2) s' by (simp add: queues_of_def)
    show "net_event_ok cr cfg byz (vlog S) (genesis s') (blk_heap s') x" if "x \<in> pending s'" for x
    proof -
      have "net_event_ok cr cfg byz (vlog S) (genesis s) (blk_heap s) x" using that k(2) e q(5) by blast
      then show ?thesis using net_event_ok_mono[OF f(4) subset_refl] f(3) s' by simp
    qed
    show "event_ok cfg byz (vlog S) (genesis s') (blk_heap s') v" if v: "v \<in> set (queued (event_queue s'))" for v
    proof -
      have "v \<in> set (queued (event_queue s)) \<or> v \<in> produced e s d" using v eq s' f(1) by (auto simp: queues_of_def)
      then show ?thesis
        using produced_ok[OF T e b] event_ok_mono[OF f(4) subset_refl] q(6) f(3) s' by auto
    qed
  qed (fact q(3))
  ultimately show ?thesis by blast
qed

text \<open>Taking an event off a queue.\<close>

lemma take_net_event:
  assumes ok: "queues_ok cr cfg byz L r s" and n: "next_event (network_event_queue s) = Some (e, q)"
  shows "queues_ok cr cfg byz L r (s\<lparr>network_event_queue := q\<rparr>)"
    and "net_event_ok cr cfg byz L (genesis s) (blk_heap s) e"
proof -
  have p: "pending s = insert e (pending (s\<lparr>network_event_queue := q\<rparr>))"
    using next_event_queued[OF n] by (simp add: pending_def)
  show "queues_ok cr cfg byz L r (s\<lparr>network_event_queue := q\<rparr>)"
    using queues_okD[OF ok] by (intro queues_okI) (simp_all add: p)
  show "net_event_ok cr cfg byz L (genesis s) (blk_heap s) e" using queues_okD(5)[OF ok] p by blast
qed

lemma take_event:
  assumes ok: "queues_ok cr cfg byz L r s" and n: "next_event (event_queue s) = Some (e, q)"
  shows "queues_ok cr cfg byz L r (s\<lparr>event_queue := q\<rparr>)"
    and "event_ok cfg byz L (genesis s) (blk_heap s) e"
proof -
  have p: "pending (s\<lparr>event_queue := q\<rparr>) = pending s" by (simp add: pending_def)
  show "queues_ok cr cfg byz L r (s\<lparr>event_queue := q\<rparr>)"
    using queues_okD[OF ok] next_event_queued[OF n] by (intro queues_okI) (simp_all add: p)
  show "event_ok cfg byz L (genesis s) (blk_heap s) e"
    using queues_okD(6)[OF ok] next_event_queued[OF n] by simp
qed

lemma same_core_queues [simp]:
  "same_core s (s\<lparr>network_event_queue := nq\<rparr>)" "same_core s (s\<lparr>event_queue := eq\<rparr>)"
  "same_core s (s\<lparr>vm_bridge := br\<rparr>)"
  by (simp_all add: same_core_def core.truncate_def)

lemma tree_inv_core: "same_core s s' \<Longrightarrow> tree_inv T s \<Longrightarrow> tree_inv T s'"
  unfolding tree_inv_def by (simp add: same_core_fields store_ok_cong[OF same_core_fields(13)])

lemma net_thread_sim:
  assumes Q: "queues_hold cr cfg byz S" and s: "running S r = Some s" and T: "tree_inv T s"
    and run: "net_thread_step s = Inr s'" and ht: "heights_below 4294967296 (blk_heap s')"
  shows "sys_run cr ix cb T cfg byz S (S\<lparr>running := (running S)(r \<mapsto> s')\<rparr>) \<and> queues_ok cr cfg byz (vlog S) r s'"
proof (cases "next_event (network_event_queue s)")
  case None
  then show ?thesis using run queues_holdD[OF Q s] sys_other[OF s same_core_refl] by (simp add: net_thread_step_def)
next
  case (Some x)
  obtain e q where x: "next_event (network_event_queue s) = Some (e, q)" using Some by (cases x) auto
  let ?t = "s\<lparr>network_event_queue := q\<rparr>" let ?S = "S\<lparr>running := (running S)(r \<mapsto> s\<lparr>network_event_queue := q\<rparr>)\<rparr>"
  have run': "on_net_event e ?t = Inr s'" using run x by (simp add: net_thread_step_def)
  note t = take_net_event[OF queues_holdD[OF Q s] x]
  have Q': "queues_hold cr cfg byz ?S" by (rule queues_hold_update[OF Q t(1)])
  have T': "tree_inv T ?t" by (rule tree_inv_core[OF _ T]) simp
  have "sys_run cr ix cb T cfg byz ?S (?S\<lparr>running := (running ?S)(r \<mapsto> s')\<rparr>) \<and> queues_ok cr cfg byz (vlog ?S) r s'"
    by (rule on_net_event_sim[OF Q' _ T' _ run' ht]) (use t(2) in simp_all)
  then have "sys_run cr ix cb T cfg byz ?S (S\<lparr>running := (running S)(r \<mapsto> s')\<rparr>)" and "queues_ok cr cfg byz (vlog S) r s'"
    by simp_all
  then show ?thesis using sys_other_then[OF s same_core_queues(1)] by blast
qed

text \<open>The thread of the protocol's queue.\<close>

lemma do_vote_queues:
  assumes v: "app_do_vote cr a target s = Inr t" and ok: "queues_ok cr cfg byz L r s"
    and a: "placed (genesis s) (blk_heap s) a" and c: "cast_vote byz L r (hash_at s a)"
  shows "queues_ok cr cfg byz L r t"
proof -
  note q = queues_okD[OF ok]
  obtain cert where cert: "make_partial_cert cr (hash_at s a) (app_secret_key s) = Inr cert"
    and send: "send_vote_to a cert target s = Inr t" using v by (auto simp: app_do_vote_def rbind_eq_Inr)
  have h: "pc_hash cert = hash_at s a" using cert by (auto simp: make_partial_cert_def split: option.splits)
  show ?thesis
  proof (cases "target = manager_self_id (protocol_manager s)")
    case True
    let ?e = "VoteEvent r cert a"
    have "validate_and_add_event ?e s = Inr t" using send True q(2) by (simp add: send_vote_to_def self_vote_def)
    from validate_and_add_event_form[OF this] obtain eq where t: "t = s\<lparr>event_queue := eq\<rparr>"
      and eq: "set (queued eq) \<subseteq> insert ?e (set (queued (event_queue s)))" by blast
    have e: "event_ok cfg byz L (genesis s) (blk_heap s) ?e" using a c q(3) h by simp
    have "pending t = pending s" by (simp add: t pending_def)
    then show ?thesis using q e eq unfolding t by (intro queues_okI) auto
  next
    case False
    then have "queues_of t = queues_of s \<and> config t = config s \<and> genesis t = genesis s \<and> blk_heap t = blk_heap s"
      using send by (auto simp: send_vote_to_def rbind_eq_Inr Let_def queues_of_def)
    then show ?thesis using queues_ok_mono[OF ok, of t L] by simp
  qed
qed

lemma event_queues:
  assumes ok: "queues_ok cr cfg byz L r s" and e: "event_ok cfg byz L (genesis s) (blk_heap s) e"
    and run: "event_apply cr ix (app_callbacks cr bo) e s = Inr s'"
  shows "queues_ok cr cfg byz (log_event r s e L) r s'"
proof (cases e)
  case (VoteEvent rid cert a)
  then have v: "on_receive_vote (app_callbacks cr bo) cert a rid s = Inr s'" using run by simp
  have b: "same_blocks s s'" by (rule app.on_receive_vote_blocks[OF v])
  show ?thesis using queues_ok_mono[OF ok queue_frame.on_receive_vote_proj[OF v]] b VoteEvent
    by (simp add: same_blocks_def heap_grows_view)
next
  case (ProposalEvent rid a)
  then have p: "on_receive_proposal cr ix (app_callbacks cr bo) a rid s = Inr s'" using run by simp
  note b = app.on_receive_proposal_blocks[OF p]
  let ?u = "s\<lparr>vheight := u32 (height_of s a)\<rparr>"
  obtain t where t: "queues_of s' = queues_of t"
    "proposal_opinion a s = Inr True \<and> do_vote (app_callbacks cr bo) a rid ?u = Inr t
      \<or> proposal_opinion a s = Inr False \<and> t = s"
    by (rule queue_frame.on_receive_proposal_proj[OF p])
  have "queues_ok cr cfg byz (log_event r s e L) r t \<and> same_blocks s t"
    using t(2)
  proof (elim disjE conjE)
    assume o: "proposal_opinion a s = Inr True" and v: "do_vote (app_callbacks cr bo) a rid ?u = Inr t"
    have v': "app_do_vote cr a rid ?u = Inr t" using v by (simp add: app_callbacks_def)
    have "set L \<subseteq> set (log_event r s e L)" using ProposalEvent by auto
    then have "queues_ok cr cfg byz (log_event r s e L) r ?u"
      by (intro queues_ok_mono[OF ok]) (simp_all add: queues_of_def)
    moreover have "placed (genesis ?u) (blk_heap ?u) a" using e ProposalEvent by (simp add: placed_def)
    moreover have "cast_vote byz (log_event r s e L) r (hash_at ?u a)"
      using o ProposalEvent by (auto simp: cast_vote_def)
    moreover have "same_blocks ?u t" by (rule same_core_blocks[OF app.do_vote_core[OF v]])
    ultimately show ?thesis using do_vote_queues[OF v'] by (simp add: same_blocks_def)
  qed (use ok ProposalEvent in simp)
  then show ?thesis using b t(1) queues_ok_mono[of cr cfg byz "log_event r s e L" r t s']
    by (simp add: same_blocks_def heap_grows_view)
qed

lemma sys_restate: "S\<lparr>running := R, vlog := vlog S\<rparr> = S\<lparr>running := R\<rparr>"
  by (cases S) simp

lemma log_event_grows: "set L \<subseteq> set (log_event r s e L)"
  by (cases e) auto

lemma event_thread_run:
  assumes s: "running S r = Some s"
    and e: "event_ok cfg byz (vlog S) (genesis s) (blk_heap s) e"
  shows "sys_step cr ix cb T cfg byz S
      (S\<lparr>running := (running S)(r := (case event_apply cr ix cb e s of Inr s' \<Rightarrow> Some s' | Inl _ \<Rightarrow> None)),
         vlog := log_event r s e (vlog S)\<rparr>)"
proof (cases e)
  case (VoteEvent rid cert a)
  show ?thesis
  proof (cases "event_apply cr ix cb e s")
    case (Inl x)
    then show ?thesis using VoteEvent sys_step.crash[of cr ix cb T cfg byz S r] by (simp add: sys_restate)
  next
    case (Inr s')
    then have "on_receive_vote cb cert a rid s = Inr s'" using VoteEvent by simp
    then have "sys_step cr ix cb T cfg byz S (S\<lparr>running := (running S)(r \<mapsto> s')\<rparr>)"
      using e VoteEvent by (intro sys_step.vote[OF s]) (simp_all add: placed_def cast_vote_def)
    then show ?thesis using VoteEvent Inr by (simp add: sys_restate)
  qed
next
  case (ProposalEvent rid a)
  then show ?thesis using e sys_step.proposal[OF s, of a cr ix cb T cfg byz rid] by simp
qed

lemma event_thread_sim:
  assumes Q: "queues_hold cr cfg byz S" and s: "running S r = Some s" and n: "next_event (event_queue s) = Some (e, q)"
    and S': "S' = S\<lparr>running := (running S)(r := (case event_thread_step cr ix (app_callbacks cr bo) s of
                                          Inr s' \<Rightarrow> Some s' | Inl _ \<Rightarrow> None)),
         vlog := log_event r s e (vlog S)\<rparr>"
  shows "sys_run cr ix (app_callbacks cr bo) T cfg byz S S' \<and> queues_hold cr cfg byz S'"
proof -
  let ?t = "s\<lparr>event_queue := q\<rparr>" let ?S = "S\<lparr>running := (running S)(r \<mapsto> s\<lparr>event_queue := q\<rparr>)\<rparr>"
  note t = take_event[OF queues_holdD[OF Q s] n]
  have step: "event_thread_step cr ix (app_callbacks cr bo) s = event_apply cr ix (app_callbacks cr bo) e ?t"
    using n by (simp add: event_thread_step_def)
  have l: "log_event r ?t e (vlog S) = log_event r s e (vlog S)" by (cases e) (simp_all add: proposal_opinion_def cong: if_cong)
  have "event_ok cfg byz (vlog ?S) (genesis ?t) (blk_heap ?t) e" using t(2) by simp
  from event_thread_run[OF _ this, of r cr ix "app_callbacks cr bo" T]
  have "sys_run cr ix (app_callbacks cr bo) T cfg byz ?S S'" using S' step l by simp
  then have "sys_run cr ix (app_callbacks cr bo) T cfg byz S S'" by (rule sys_other_then[OF s same_core_queues(2)])
  moreover have "queues_ok cr cfg byz (vlog S') x u" if x: "running S' x = Some u" for x u
  proof (cases "x = r")
    case True
    then have "event_apply cr ix (app_callbacks cr bo) e ?t = Inr u" using x S' step by (auto split: sum.splits)
    then have "queues_ok cr cfg byz (log_event r ?t e (vlog S)) r u" using t(2) by (intro event_queues[OF t(1)]) simp_all
    then show ?thesis using True S' l by simp
  next
    case False
    then have "running S x = Some u" using x S' by simp
    then show ?thesis using queues_ok_mono[OF queues_holdD[OF Q] refl refl refl heap_grows_refl log_event_grows] S'
      by simp
  qed
  ultimately show ?thesis by (simp add: queues_hold_def)
qed

text \<open>Proposing.\<close>

lemma propose_with_run:
  assumes "propose_with cr bo nonempty s = Inr (h, s')"
  obtains bd br a t where "propose_body cr bd (s\<lparr>vm_bridge := br\<rparr>) = Inr (a, t)" and "b_leaf t = a"
    and "broadcast_proposal a t = Inr s'" and "h = hash_at s' a"
proof -
  obtain bd br a t where b: "propose_body cr bd (s\<lparr>vm_bridge := br\<rparr>) = Inr (a, t)"
    and c: "broadcast_proposal a t = Inr s'" and h: "h = hash_at s' (b_leaf s')"
    using assms by (auto simp: propose_with_def rbind_eq_Inr Let_def)
  have "b_leaf t = a" using b by (auto simp: propose_body_def rbind_eq_Inr split: if_splits)
  then show ?thesis using that b c h same_core_fields(10)[OF broadcast_proposal_core[OF c]] by simp
qed

lemma propose_body_parent:
  assumes "propose_body cr bd s = Inr (a, t)"
  shows "parent_hash (header (wire_block (blk t a))) = hash_at s (b_leaf s)"
proof -
  obtain bh b m s1 where a: "a = length (blk_heap s)"
    and b: "construct_received cr \<lparr>header = \<lparr>parent_hash = hash_at s (b_leaf s), header_qc = hqc_wire s,
        body_hash = bh\<rparr>, body = bd\<rparr> (self_id s) = Inr b"
    and i: "store_insert a (s\<lparr>blk_heap := blk_heap s @ [b]\<rparr>) = Inr (m, s1)"
    and t: "t = s1\<lparr>b_leaf := a\<rparr>"
    using assms by (auto simp: propose_body_def mint_block_def alloc_def rbind_eq_Inr Let_def split: if_splits)
  have "wire_block (blk s1 a) = wire_block b"
    using store_insert_wire[OF i] a by simp
  then show ?thesis using construct_received_fields[OF b] t by simp
qed

lemma propose_body_facts:
  assumes "propose_body cr bd s = Inr (a, t)"
  shows "queues_of t = queues_of s" and "config t = config s" and "genesis t = genesis s"
    and "heap_grows (blk_heap s) (blk_heap t)" and "a < length (blk_heap t) \<and> parent_block_ptr (blk t a) \<noteq> None"
proof -
  obtain b m s1 where a: "a = length (blk_heap s)"
    and i: "store_insert a (s\<lparr>blk_heap := blk_heap s @ [b]\<rparr>) = Inr (m, s1)" "\<not> has_missing m"
    and t: "t = s1\<lparr>b_leaf := a\<rparr>"
    using assms by (auto simp: propose_body_def mint_block_def alloc_def rbind_eq_Inr Let_def split: if_splits)
  obtain hp st where s1: "s1 = s\<lparr>blk_heap := hp, block_store := st\<rparr>" using store_insert_form[OF i(1)] by auto
  show "queues_of t = queues_of s" "config t = config s" "genesis t = genesis s"
    unfolding t s1 by (simp_all add: queues_of_def)
  have "heap_grows (blk_heap s @ [b]) (blk_heap s1)" using heap_grows_insert[OF i(1)] by simp
  then show "heap_grows (blk_heap s) (blk_heap t)"
    using heap_grows_trans[OF heap_grows_append] t by simp
  show "a < length (blk_heap t) \<and> parent_block_ptr (blk t a) \<noteq> None"
    using store_insert_parent[OF i] a t by simp
qed

lemma broadcast_queues:
  assumes run: "broadcast_proposal a t = Inr s'" and ok: "queues_ok cr cfg byz L r t"
    and a: "a < length (blk_heap t)" "parent_block_ptr (blk t a) \<noteq> None"
  shows "queues_ok cr cfg byz L r s'"
proof -
  obtain u where "self_propose a t = Inr u"
    and s': "s' = u\<lparr>protocol_manager := (protocol_manager u)\<lparr>other_clients := other_clients (protocol_manager s')\<rparr>\<rparr>"
    using run by (auto simp: broadcast_proposal_def rbind_eq_Inr Let_def)
  then obtain eq where u: "u = t\<lparr>event_queue := eq\<rparr>"
    "set (queued eq) \<subseteq> insert (ProposalEvent (manager_self_id (protocol_manager t)) a) (set (queued (event_queue t)))"
    unfolding self_propose_def using validate_and_add_event_form by blast
  have "pending u = pending t" by (simp add: u(1) pending_def)
  then have "queues_ok cr cfg byz L r u" using queues_okD[OF ok] a u(2) unfolding u(1) by (intro queues_okI) auto
  then show ?thesis by (rule queues_ok_mono) (subst s', simp add: queues_of_def | simp)+
qed

lemma propose_sim:
  assumes Q: "queues_hold cr cfg byz S" and s: "running S r = Some s"
    and run: "propose_with cr bo nonempty s = Inr (h, s')"
    and tab: "in_table cr T (header (wire_block (blk s' (b_leaf s'))))" and ht: "heights_below 4294967296 (blk_heap s')"
  shows "sys_run cr ix cb T cfg byz S (S\<lparr>running := (running S)(r \<mapsto> s')\<rparr>) \<and> queues_ok cr cfg byz (vlog S) r s'"
proof -
  obtain bd br a t where b: "propose_body cr bd (s\<lparr>vm_bridge := br\<rparr>) = Inr (a, t)" and l: "b_leaf t = a"
    and c: "broadcast_proposal a t = Inr s'" by (rule propose_with_run[OF run])
  let ?u = "s\<lparr>vm_bridge := br\<rparr>" let ?S = "S\<lparr>running := (running S)(r \<mapsto> s\<lparr>vm_bridge := br\<rparr>)\<rparr>"
  note core = broadcast_proposal_core[OF c] and f = propose_body_facts[OF b]
  obtain hh where hh: "hash_header cr (header (wire_block (blk t a))) = Inr hh" "hh \<noteq> zero_hash"
    "T hh = Some (header (wire_block (blk t a)))"
    using tab l same_core_fields(1,10)[OF core] by (auto simp: in_table_def)
  have ht': "heights_below 4294967296 (blk_heap t)" using ht same_core_fields(1)[OF core] by simp
  have "sys_step cr ix cb T cfg byz ?S (?S\<lparr>running := (running ?S)(r \<mapsto> t)\<rparr>)"
    by (rule sys_step.propose[where bd = bd and a = a and h = hh and s = ?u]) (use b hh ht' in simp_all)
  then have "sys_run cr ix cb T cfg byz ?S (?S\<lparr>running := (running ?S)(r \<mapsto> s')\<rparr>)" by (rule sys_then_other[OF _ core])
  then have "sys_run cr ix cb T cfg byz ?S (S\<lparr>running := (running S)(r \<mapsto> s')\<rparr>)" by simp
  then have "sys_run cr ix cb T cfg byz S (S\<lparr>running := (running S)(r \<mapsto> s')\<rparr>)"
    by (rule sys_other_then[OF s same_core_queues(3)])
  moreover have "queues_ok cr cfg byz (vlog S) r t"
    by (rule queues_ok_mono[OF queues_holdD[OF Q s]]) (use f in \<open>simp_all add: queues_of_def\<close>)
  ultimately show ?thesis using broadcast_queues[OF c] f(5) by blast
qed

text \<open>What an honest replica proposes.\<close>

lemma proposal_justified:
  assumes inv: "replica_inv T cfg byz L s" and run: "propose_with cr bo nonempty s = Inr (h, s')"
    and tab: "in_table cr T (header (wire_block (blk s' (b_leaf s'))))" and ht: "heights_below 4294967296 (blk_heap s')"
  shows "just_of T h = Some (hash_at s' (hqc_block s')) \<and> extends (par_of T) h (hash_at s' (hqc_block s'))
    \<and> par_of T h = Some (hash_at s (b_leaf s))"
proof -
  obtain bd br a t where b: "propose_body cr bd (s\<lparr>vm_bridge := br\<rparr>) = Inr (a, t)" and l: "b_leaf t = a"
    and c: "broadcast_proposal a t = Inr s'" and h: "h = hash_at s' a" by (rule propose_with_run[OF run])
  note core = broadcast_proposal_core[OF c]
  note f = same_core_fields(1,3,10)[OF core]
  have "same_core s (s\<lparr>vm_bridge := br\<rparr>)" by (simp add: same_core_def core.truncate_def)
  then have inv': "replica_inv T cfg byz L (s\<lparr>vm_bridge := br\<rparr>)" using inv by (rule replica_inv_same_core)
  have ht': "heights_below 4294967296 (blk_heap t)" using ht f by simp
  have tab': "k \<noteq> zero_hash \<and> T k = Some hdr"
    if "hash_header cr hdr = Inr k" "hdr = header (wire_block (blk t a))" for hdr k
    using tab that l f by (auto simp: in_table_def)
  note p = propose_body_inv[OF inv' b tab' ht']
  have leaf: "parent_hash (header (wire_block (blk t a))) = hash_at s (b_leaf s)"
    using b propose_body_parent[of cr bd "s\<lparr>vm_bridge := br\<rparr>" a t] by simp
  have la: "linked (cache t) (blk_heap t) a" by (rule p(2))
  note tree = replica_invD(2)[OF p(1)]
  have "a < length (blk_heap t)" using la by (simp add: linked_def)
  then have "T (hash_at t a) = Some (header (wire_block (blk t a)))" "hash_at t a \<noteq> zero_hash"
    using tree_invD(3)[OF tree _ linked_not_root(1)[OF tree la]] by (auto simp: object_ok_def)
  then have "par_of T (hash_at t a) = Some (hash_at s (b_leaf s))" using leaf by (simp add: par_of_def)
  then show ?thesis using p(3,4) h f by simp
qed

section \<open>Refinement\<close>

lemma app_step_sim:
  assumes "app_step cr ix bo T cfg byz S S'" and "sys_inv T cfg byz S" and "queues_hold cr cfg byz S"
  shows "sys_run cr ix (app_callbacks cr bo) T cfg byz S S' \<and> queues_hold cr cfg byz S'"
  using assms
proof (induction rule: app_step.induct)
  case (recv_vote S r s v s')
  from recv_vote_sim[OF recv_vote.prems(2) recv_vote.hyps] show ?case
    using queues_hold_update[OF recv_vote.prems(2)] by blast
next
  case (recv_propose S r s p s')
  note T = sys_inv_tree[OF recv_propose.prems(1) recv_propose.hyps(1)]
  from recv_propose_sim[OF recv_propose.prems(2) recv_propose.hyps(1) T recv_propose.hyps(2-4)] show ?case
    using queues_hold_update[OF recv_propose.prems(2)] by blast
next
  case (recv_fetched S r s source w s')
  note T = sys_inv_tree[OF recv_fetched.prems(1) recv_fetched.hyps(1)]
  from recv_fetched_sim[OF recv_fetched.prems(2) recv_fetched.hyps(1) T recv_fetched.hyps(2-5)] show ?case
    using queues_hold_update[OF recv_fetched.prems(2)] by blast
next
  case (net_thread S r s s')
  note T = sys_inv_tree[OF net_thread.prems(1) net_thread.hyps(1)]
  from net_thread_sim[OF net_thread.prems(2) net_thread.hyps(1) T net_thread.hyps(2-3)] show ?case
    using queues_hold_update[OF net_thread.prems(2)] by blast
next
  case (event_thread S r s e q)
  show ?case by (rule event_thread_sim[OF event_thread.prems(2) event_thread.hyps refl])
next
  case (propose S r s nonempty h s')
  from propose_sim[OF propose.prems(2) propose.hyps] show ?case
    using queues_hold_update[OF propose.prems(2)] by blast
next
  case (collect S r s)
  have inv: "replica_inv T cfg byz (vlog S) s" using collect by (auto simp: sys_inv_def)
  have "queues_of (collect_garbage s) = queues_of s"
    by (simp add: collect_garbage_def queues_of_def split: prod.split)
  then have "queues_ok cr cfg byz (vlog S) r (collect_garbage s)"
    using collect_garbage_inv(2)[OF inv] queues_ok_mono[OF queues_holdD[OF collect.prems(2) collect.hyps], of "collect_garbage s" "vlog S"]
    by (simp add: same_vars_def heap_grows_view)
  then show ?case using queues_hold_update[OF collect.prems(2)] sys_step.collect[OF collect.hyps] by blast
next
  case (other_thread S r s s')
  have "queues_ok cr cfg byz (vlog S) r s'"
    using queues_ok_mono[OF queues_holdD[OF other_thread.prems(2) other_thread.hyps(1)] other_thread.hyps(3)]
      same_core_fields[OF other_thread.hyps(2)] by simp
  then show ?case using queues_hold_update[OF other_thread.prems(2)] sys_other[OF other_thread.hyps(1,2)] by blast
next
  case (crash S r)
  have "queues_hold cr cfg byz (S\<lparr>running := (running S)(r := None)\<rparr>)"
    using crash.prems(2) by (simp add: queues_hold_def)
  then show ?case using sys_step.crash by blast
qed

lemma app_run_sim:
  assumes "app_run cr ix bo T cfg byz S S'" and "sys_inv T cfg byz S" and "queues_hold cr cfg byz S"
    and fo: "faults_ok cfg byz" and joc: "justify_on_chain T"
  shows "sys_run cr ix (app_callbacks cr bo) T cfg byz S S' \<and> sys_inv T cfg byz S' \<and> queues_hold cr cfg byz S'"
  using assms(1)
proof (induction rule: rtranclp_induct)
  case base
  then show ?case using assms(2,3) by simp
next
  case (step S1 S2)
  then have i: "sys_inv T cfg byz S1" "queues_hold cr cfg byz S1"
    and run: "sys_run cr ix (app_callbacks cr bo) T cfg byz S S1" by simp_all
  note sim = app_step_sim[OF step.hyps(2) i]
  have s2: "sys_run cr ix (app_callbacks cr bo) T cfg byz S1 S2" using sim by blast
  show ?case using rtranclp_trans[OF run s2] app.sys_run_inv[OF s2 i(1) fo joc] sim by blast
qed

section \<open>Start\<close>

text \<open>A replica as \<open>init_clean\<close> leaves it.\<close>

definition clean_app :: "ReplicaConfig \<Rightarrow> replica_id \<Rightarrow> ('d, 'br) app \<Rightarrow> bool" where
  "clean_app cfg r s \<longleftrightarrow> (\<exists>sk open_index br fs s0 i br'. new_app cfg r sk open_index br fs = Inr s0
     \<and> s = s0\<lparr>decided_hash_index := i, vm_bridge := br'\<rparr>)"

definition clean_start :: "ReplicaConfig \<Rightarrow> replica_id set \<Rightarrow> ('d, 'br) app sys \<Rightarrow> bool" where
  "clean_start cfg byz S \<longleftrightarrow> vlog S = [] \<and> (\<forall>r s. running S r = Some s \<longrightarrow> r \<notin> byz \<and> clean_app cfg r s)"

lemma app_init_clean_form: "app_init_clean m vm s = Inr s' \<Longrightarrow> \<exists>i br. s' = s\<lparr>decided_hash_index := i, vm_bridge := br\<rparr>"
  by (auto simp: app_init_clean_def rbind_eq_Inr)

lemma nonspec_app_init_clean_form:
  "nonspec_app_init_clean m s = Inr s' \<Longrightarrow> \<exists>i br. s' = s\<lparr>decided_hash_index := i, vm_bridge := br\<rparr>"
  by (auto simp: nonspec_app_init_clean_def rbind_eq_Inr)

lemma clean_app_ok:
  assumes "clean_app cfg r s" and "config_table_ok cfg"
  shows "initial_replica cfg r s" and "queues_ok cr cfg byz [] r s"
proof -
  obtain sk oi br fs s0 i br' where n: "new_app cfg r sk oi br fs = Inr s0"
    and s: "s = s0\<lparr>decided_hash_index := i, vm_bridge := br'\<rparr>" using assms(1) by (auto simp: clean_app_def)
  have v: "is_valid_replica cfg r"
    using n get_info_error_iff[of cfg r] by (cases "get_info cfg r") (auto simp: new_app_def rbind_eq_Inr)
  have g: "get_hash genesis_block = zero_hash" by (simp add: genesis_block_def get_hash_def new_qc_def)
  have f: "blk_heap s0 = [genesis_block] \<and> genesis s0 = 0 \<and> hqc_block s0 = 0
      \<and> hqc_wire s0 = qc_serialize (self_qc genesis_block) \<and> b_lock s0 = 0 \<and> b_exec s0 = 0 \<and> b_leaf s0 = 0
      \<and> vheight s0 = 0 \<and> self_id s0 = r \<and> config s0 = cfg \<and> cache s0 = [zero_hash \<mapsto> 0]
      \<and> block_fetch_manager s0 = init_configs cfg new_fetch_manager \<and> event_queue s0 = new_queue
      \<and> network_event_queue s0 = new_queue \<and> manager_self_id (protocol_manager s0) = r"
    using n g by (auto simp: new_app_def new_core_def new_block_store_def new_protocol_manager_def rbind_eq_Inr)
  show "initial_replica cfg r s" using f by (simp add: s initial_replica_def)
  have "outstanding_reqs (fold fetch_add_replica l m) = outstanding_reqs m" for l m
    by (induction l arbitrary: m) (simp_all add: fetch_add_replica_def)
  then have "waiting_for (init_configs cfg new_fetch_manager) h = []" for h
    by (simp add: waiting_for_def init_configs_def new_fetch_manager_def)
  then have "pending s = {}" using f by (simp add: s pending_def)
  then show "queues_ok cr cfg byz [] r s"
    using f v fetch_ok_init[OF assms(2)] by (intro queues_okI) (simp_all add: s)
qed

lemma clean_start_ok:
  assumes "clean_start cfg byz S" and "config_table_ok cfg"
  shows "initial_sys cfg byz S" and "queues_hold cr cfg byz S"
  using assms by (auto simp: clean_start_def initial_sys_def queues_hold_def intro: clean_app_ok)

text \<open>What holds of every state the applications reach.\<close>

lemma app_reach:
  assumes "clean_start cfg byz S0" and "config_table_ok cfg" and "faults_ok cfg byz" and "justify_on_chain T"
    and "app_run cr ix bo T cfg byz S0 S"
  shows "sys_run cr ix (app_callbacks cr bo) T cfg byz S0 S" and "sys_inv T cfg byz S" and "queues_hold cr cfg byz S"
  using app_run_sim[OF assms(5) initial_sys_inv[OF clean_start_ok(1)[OF assms(1,2)]] clean_start_ok(2)[OF assms(1,2)] assms(3,4)]
  by blast+

end
