(* ===== verification/Rest_Server.thy ===== *)
theory Rest_Server
  imports App
begin

text \<open>
  \<open>main/test.cc\<close> and \<open>crypto/crypto_utils.cc\<close>: the process that runs one replica behind an HTTP
  interface. \<open>POST /append\<close> proposes a body and waits for its certificate, \<open>GET /get_index\<close>
  answers the position of a confirmed hash.

  The HTTP library is not modelled: a request is its query parameters and its body, a response is the
  text sent back. \<open>std::stoi\<close> and \<open>std::to_string\<close> are modelled since the program starts from
  the replica number it reads with them.
\<close>

section \<open>Numbers as text\<close>

definition digit_of :: "char \<Rightarrow> nat option" where
  "digit_of c = (if 48 \<le> (of_char c :: nat) \<and> (of_char c :: nat) \<le> 57 then Some (of_char c - 48) else None)"

definition is_space :: "char \<Rightarrow> bool" where
  "is_space c \<longleftrightarrow> (of_char c :: nat) = 32 \<or> (9 \<le> (of_char c :: nat) \<and> (of_char c :: nat) \<le> 13)"

fun read_digits :: "nat \<Rightarrow> string \<Rightarrow> nat" where
  "read_digits acc [] = acc"
| "read_digits acc (c # cs) = (case digit_of c of None \<Rightarrow> acc | Some d \<Rightarrow> read_digits (10 * acc + d) cs)"

text \<open>\<open>stoi\<close> in base ten: leading space, an optional sign, at least one digit; the rest is ignored.\<close>

definition stoi :: "string \<Rightarrow> int result" where
  "stoi s =
     (let s = dropWhile is_space s;
          neg = (s \<noteq> [] \<and> hd s = CHR ''-'');
          s = (if s \<noteq> [] \<and> (hd s = CHR ''-'' \<or> hd s = CHR ''+'') then tl s else s) in
      if s = [] \<or> digit_of (hd s) = None then Inl (Invalid_argument ''stoi'')
      else
        let v = (if neg then - int (read_digits 0 s) else int (read_digits 0 s)) in
        if v < - (2 ^ 31) \<or> 2 ^ 31 \<le> v then Inl Out_of_range else Inr v)"

fun decimal :: "nat \<Rightarrow> string" where
  "decimal n = (if n < 10 then [char_of (48 + n)] else decimal (n div 10) @ [char_of (48 + n mod 10)])"

declare decimal.simps [simp del]

definition to_string :: "int \<Rightarrow> string" where
  "to_string i = (if i < 0 then CHR ''-'' # decimal (nat (- i)) else decimal (nat i))"

section \<open>Keys\<close>

text \<open>\<open>crypto_sign_seed_keypair\<close> is a parameter; the seed is the value in the machine's byte order.\<close>

definition deterministic_keypair_from_uint64 :: "(bytes \<Rightarrow> (public_key \<times> secret_key) option) \<Rightarrow> 64 word
    \<Rightarrow> (public_key \<times> secret_key) result" where
  "deterministic_keypair_from_uint64 seed_keypair val =
     (case seed_keypair (rev (be_bytes 8 val) @ replicate 24 0) of
        None \<Rightarrow> Inl (Runtime_error ''sig gen failed!'')
      | Some ks \<Rightarrow> Inr ks)"

section \<open>The handlers\<close>

record 'a rest =
  replica_arg :: string
  rest_app :: 'a
  confirmed_hashes :: "bytes list"

type_synonym 'd counting_app = "('d, CountingVM NonspeculativeVMBridge) app"

text \<open>\<open>for (int i = 0; i < v.size(); i++)\<close>.\<close>

fun getIndex_from :: "int \<Rightarrow> 'a list \<Rightarrow> 'a \<Rightarrow> int" where
  "getIndex_from i [] K = -1"
| "getIndex_from i (x # v) K = (if x = K then i else getIndex_from (i + 1) v K)"

definition getIndex :: "'a list \<Rightarrow> 'a \<Rightarrow> int" where
  "getIndex v K = getIndex_from 0 v K"

text \<open>The iterator of a missing parameter is dereferenced.\<close>

definition get_method_handler :: "(string \<times> bytes) list \<Rightarrow> 'a rest \<Rightarrow> string result" where
  "get_method_handler query_parameters s =
     (case map_of query_parameters ''hash'' of
        None \<Rightarrow> Inl (Undefined_behaviour ''dereference of the end iterator'')
      | Some hash \<Rightarrow> Inr (to_string (getIndex (confirmed_hashes s) hash)))"

text \<open>\<open>substr(10)\<close> and two \<open>pop_back\<close> calls.\<close>

definition hash_of_body :: "bytes \<Rightarrow> bytes result" where
  "hash_of_body bd =
     (if length bd < 10 then Inl Out_of_range
      else if length bd < 12 then Inl (Undefined_behaviour ''pop_back on an empty string'')
      else Inr (butlast (butlast (drop 10 bd))))"

text \<open>
  A post up to the wait: the hash, and on replica 0 the pacemaker that waits. On another replica the
  handler goes on to read a variable it never wrote.
\<close>

definition post_begin :: "crypto \<Rightarrow> ('t, CountingVM NonspeculativeVMBridge) bridge_ops \<Rightarrow> bytes \<Rightarrow> 'd counting_app rest
    \<Rightarrow> (bytes \<times> PaceMakerWaitQC \<times> 'd counting_app rest) result" where
  "post_begin cr bo bd s =
     rbind (hash_of_body bd) (\<lambda>hash_string_substr.
     rbind (stoi (replica_arg s)) (\<lambda>n.
     if n = 0 then
       let pmaker = set_self_as_proposer (new_pacemaker (rest_app s)) (rest_app s) in
       rbind (pm_do_propose cr bo pmaker (app_add_proposal bd (rest_app s))) (\<lambda>(pmaker, a).
       Inr (hash_string_substr, pmaker, s\<lparr>rest_app := a\<rparr>))
     else Inl (Undefined_behaviour ''read of the uninitialised res'')))"

text \<open>The rest of the handler, once the wait can return: \<open>None\<close> while it cannot.\<close>

definition post_end :: "bytes \<Rightarrow> PaceMakerWaitQC \<Rightarrow> 'd counting_app rest \<Rightarrow> (string \<times> 'd counting_app rest) option" where
  "post_end hash_string_substr pmaker s =
     (case pm_wait_for_qc pmaker (rest_app s) of
        None \<Rightarrow> None
      | Some (res, _, a) \<Rightarrow>
          Some (if res then ''true'' else ''false'',
            s\<lparr>rest_app := a,
              confirmed_hashes := (if res then confirmed_hashes s @ [hash_string_substr] else confirmed_hashes s)\<rparr>))"

section \<open>Start of the process\<close>

definition localhost_replica :: "nat \<Rightarrow> public_key \<Rightarrow> string \<Rightarrow> string \<Rightarrow> string \<Rightarrow> ReplicaInfo" where
  "localhost_replica rid key fetch proto dir =
     \<lparr>hostname = ''localhost'', block_fetch_port = fetch, protocol_port = proto, data_dir = dir, info_id = rid, pk = key\<rparr>"

definition main_replicas :: "public_key list \<Rightarrow> ReplicaInfo list" where
  "main_replicas pks =
     [localhost_replica 0 (pks ! 0) ''9000'' ''9001'' ''data_dir_0'',
      localhost_replica 1 (pks ! 1) ''9002'' ''9003'' ''data_dir_1'',
      localhost_replica 2 (pks ! 2) ''9004'' ''9005'' ''data_dir_2'',
      localhost_replica 3 (pks ! 3) ''9006'' ''9007'' ''data_dir_3'']"

text \<open>\<open>m[k]\<close> on a \<open>std::map\<close>: an absent key gets a zero-initialised secret key.\<close>

definition secret_for :: "secret_key list \<Rightarrow> int \<Rightarrow> secret_key" where
  "secret_for sks k = (if 0 \<le> k \<and> nat k < length sks then sks ! nat k else replicate 64 0)"

text \<open>
  \<open>main\<close> up to the start of the service; \<open>None\<close> is the exit with code 1. A negative replica number
  becomes a large \<open>ReplicaID\<close>.
\<close>

definition rest_main :: "(bytes \<Rightarrow> (public_key \<times> secret_key) option) \<Rightarrow> ('e, 't, 'c) mdb \<Rightarrow> 'e \<Rightarrow> (string \<Rightarrow> bool)
    \<Rightarrow> filesystem \<Rightarrow> string list \<Rightarrow> 'e HotstuffLMDB counting_app rest option result" where
  "rest_main seed_keypair m e removable fs argv =
     (if length argv \<noteq> 2 then Inr None
      else
        let arg = argv ! 1; dir = ''data_dir_'' @ arg in
        rbind (clear_all_data_dirs removable dir fs) (\<lambda>fs.
        rbind (make_all_data_dirs dir fs) (\<lambda>fs.
        rbind (deterministic_keypair_from_uint64 seed_keypair 1) (\<lambda>(pk1, sk1).
        rbind (deterministic_keypair_from_uint64 seed_keypair 2) (\<lambda>(pk2, sk2).
        rbind (deterministic_keypair_from_uint64 seed_keypair 3) (\<lambda>(pk3, sk3).
        rbind (deterministic_keypair_from_uint64 seed_keypair 4) (\<lambda>(pk4, sk4).
        rbind (make_config (main_replicas [pk1, pk2, pk3, pk4])) (\<lambda>cfg.
        rbind (stoi arg) (\<lambda>n.
        rbind (new_app cfg (nat (n mod 2 ^ 32)) (secret_for [sk1, sk2, sk3, sk4] n) (new_hotstuff_lmdb m e)
                 (new_nonspec_bridge \<lparr>count_state = 0, last_committed_state = 0\<rparr>) fs) (\<lambda>a.
        rbind (nonspec_app_init_clean m a) (\<lambda>a.
        Inr (Some \<lparr>replica_arg = arg, rest_app = a, confirmed_hashes = []\<rparr>))))))))))))"

section \<open>Positions\<close>

lemma getIndex_from:
  "getIndex_from i v K = (if K \<in> set v then i + int (length (takeWhile (\<lambda>x. x \<noteq> K) v)) else -1)"
  by (induction i v K rule: getIndex_from.induct) auto

lemma getIndex_found:
  assumes "K \<in> set v"
  shows "0 \<le> getIndex v K" and "nat (getIndex v K) < length v" and "v ! nat (getIndex v K) = K"
    and "\<And>j. j < nat (getIndex v K) \<Longrightarrow> v ! j \<noteq> K"
proof -
  let ?t = "takeWhile (\<lambda>x. x \<noteq> K) v"
  have g: "getIndex v K = int (length ?t)" using assms by (simp add: getIndex_def getIndex_from)
  obtain xs ys where v: "v = xs @ K # ys" and xs: "K \<notin> set xs" using split_list_first[OF assms] by blast
  have t: "?t = xs" unfolding v using xs by (induction xs) auto
  show "0 \<le> getIndex v K" "nat (getIndex v K) < length v" "v ! nat (getIndex v K) = K"
    using g t v by simp_all
  show "v ! j \<noteq> K" if "j < nat (getIndex v K)" for j
    using that g t v xs nth_mem[of j xs] by (auto simp: nth_append)
qed

lemma getIndex_absent: "getIndex v K = -1 \<longleftrightarrow> K \<notin> set v"
  by (auto simp: getIndex_def getIndex_from)


section \<open>Reading back a number\<close>

lemma digit_of_char [simp]: "d < 10 \<Longrightarrow> digit_of (char_of (48 + d)) = Some d"
  by (simp add: digit_of_def of_char_of)

lemma read_digits_append:
  "list_all (\<lambda>c. digit_of c \<noteq> None) s \<Longrightarrow> read_digits acc (s @ t) = read_digits (read_digits acc s) t"
  by (induction acc s rule: read_digits.induct) (auto split: option.splits)

lemma decimal_digits: "list_all (\<lambda>c. digit_of c \<noteq> None) (decimal n) \<and> decimal n \<noteq> [] \<and> read_digits 0 (decimal n) = n"
proof (induction n rule: decimal.induct)
  case (1 n)
  show ?case
  proof (cases "n < 10")
    case True
    then show ?thesis by (simp add: decimal.simps[of n])
  next
    case False
    then have IH: "list_all (\<lambda>c. digit_of c \<noteq> None) (decimal (n div 10))" "read_digits 0 (decimal (n div 10)) = n div 10"
      using 1 by blast+
    have "read_digits 0 (decimal n) = 10 * (n div 10) + n mod 10"
      using False IH by (simp add: decimal.simps[of n] read_digits_append)
    then show ?thesis using False IH by (simp add: decimal.simps[of n])
  qed
qed

lemma digit_not_sign: "digit_of c \<noteq> None \<Longrightarrow> \<not> is_space c \<and> c \<noteq> CHR ''-'' \<and> c \<noteq> CHR ''+''"
  by (auto simp: digit_of_def is_space_def split: if_splits)

lemma stoi_to_string_aux:
  assumes "- (2 ^ 31) \<le> i" and "i < 2 ^ 31"
  shows "stoi (to_string i) = Inr i"
proof -
  note d = decimal_digits
  have hd: "digit_of (hd (decimal n)) \<noteq> None" for n using d[of n] by (cases "decimal n") auto
  note ns = digit_not_sign[OF hd]
  have dw: "dropWhile is_space (decimal n) = decimal n" for n
    using ns[of n] d[of n] by (cases "decimal n") auto
  show ?thesis
  proof (cases "i < 0")
    case True
    have "dropWhile is_space (CHR ''-'' # decimal (nat (- i))) = CHR ''-'' # decimal (nat (- i))"
      by (simp add: is_space_def)
    then show ?thesis using True assms d[of "nat (- i)"] hd[of "nat (- i)"]
      by (simp add: to_string_def stoi_def Let_def)
  next
    case False
    then show ?thesis using assms d[of "nat i"] hd[of "nat i"] ns[of "nat i"] dw[of "nat i"]
      by (simp add: to_string_def stoi_def Let_def)
  qed
qed

section \<open>Properties\<close>

text \<open>What \<open>GET /get_index\<close> sends back reads as the first position of the hash among the confirmed ones, or -1 when it is
not there.\<close>

lemma get_index_answers:
  assumes "get_method_handler [(''hash'', h)] s = Inr out" and "length (confirmed_hashes s) < 2 ^ 31"
  shows "if h \<in> set (confirmed_hashes s)
    then \<exists>i. stoi out = Inr (int i) \<and> i < length (confirmed_hashes s) \<and> confirmed_hashes s ! i = h
           \<and> (\<forall>j < i. confirmed_hashes s ! j \<noteq> h)
    else stoi out = Inr (-1)"
proof -
  let ?v = "confirmed_hashes s" let ?i = "getIndex ?v h"
  have out: "out = to_string ?i" using assms(1) by (simp add: get_method_handler_def)
  show ?thesis
  proof (cases "h \<in> set ?v")
    case True
    note f = getIndex_found[OF True]
    have "?i < 2 ^ 31" using f(1,2) assms(2) by simp
    then have "stoi out = Inr ?i" unfolding out using f(1) by (intro stoi_to_string_aux) simp_all
    then have "stoi out = Inr (int (nat ?i)) \<and> nat ?i < length ?v \<and> ?v ! nat ?i = h \<and> (\<forall>j < nat ?i. ?v ! j \<noteq> h)"
      using f by simp
    then show ?thesis using True by (simp only: if_True) blast
  next
    case False
    then have "?i = -1" by (simp add: getIndex_absent)
    then show ?thesis using False stoi_to_string_aux[of "-1"] out by simp
  qed
qed

definition sample_rest :: "unit rest" where
  "sample_rest = \<lparr>replica_arg = ''0'', rest_app = (), confirmed_hashes = [[1], [2], [3]]\<rparr>"

lemma get_index_answers_witness: "\<exists>out i. get_method_handler [(''hash'', [2])] sample_rest = Inr out \<and> stoi out = Inr (int i)"
proof -
  have "get_method_handler [(''hash'', [2])] sample_rest = Inr (to_string (getIndex (confirmed_hashes sample_rest) [2]))"
    by (simp add: get_method_handler_def)
  from get_index_answers[OF this] this show ?thesis by (fastforce simp: sample_rest_def)
qed

text \<open>A post that is answered \<open>true\<close> was confirmed by the certificate it waited for, and from then on its hash has a
position.\<close>

lemma confirmed_posts_are_found:
  assumes "post_end hash pmaker s = Some (''true'', s')"
  shows "latest_new_qc (rest_app s) = Some (expected_hash pmaker)
    \<and> (\<exists>i. get_method_handler [(''hash'', hash)] s' = Inr (to_string i) \<and> 0 \<le> i
          \<and> confirmed_hashes s' ! nat i = hash)
    \<and> confirmed_hashes s' = confirmed_hashes s @ [hash]"
proof -
  obtain res p a where w: "pm_wait_for_qc pmaker (rest_app s) = Some (res, p, a)"
    using assms by (auto simp: post_end_def split: option.splits)
  have r: "res" "confirmed_hashes s' = confirmed_hashes s @ [hash]"
    using assms w by (auto simp: post_end_def split: if_splits)
  have "latest_new_qc (rest_app s) = Some (expected_hash pmaker)"
    using w r(1) by (auto simp: pm_wait_for_qc_def app_wait_for_new_qc_def split: option.splits if_splits)
  moreover have "hash \<in> set (confirmed_hashes s')" using r(2) by simp
  from getIndex_found(1,3)[OF this]
  have "\<exists>i. get_method_handler [(''hash'', hash)] s' = Inr (to_string i) \<and> 0 \<le> i \<and> confirmed_hashes s' ! nat i = hash"
    by (intro exI[of _ "getIndex (confirmed_hashes s') hash"]) (simp add: get_method_handler_def)
  ultimately show ?thesis using r(2) by simp
qed

definition sample_app :: "unit counting_app" where
  "sample_app = projr (new_app sample_config 0 [] (\<lambda>_. Inr ())
     (new_nonspec_bridge \<lparr>count_state = 0, last_committed_state = 0\<rparr>) (sample_fs 1000))"

lemma confirmed_posts_are_found_witness:
  "\<exists>s'. post_end [4] \<lparr>expected_hash = [9], pm_proposer = 0\<rparr>
        \<lparr>replica_arg = ''0'', rest_app = sample_app\<lparr>latest_new_qc := Some [9], cancel_wait := False\<rparr>, confirmed_hashes = []\<rparr>
      = Some (''true'', s')
    \<and> (\<exists>i. get_method_handler [(''hash'', [4])] s' = Inr (to_string i))"
proof -
  let ?s = "\<lparr>replica_arg = ''0'', rest_app = sample_app\<lparr>latest_new_qc := Some [9], cancel_wait := False\<rparr>, confirmed_hashes = []\<rparr>"
  obtain s' where s': "post_end [4] \<lparr>expected_hash = [9], pm_proposer = 0\<rparr> ?s = Some (''true'', s')"
    by (simp add: post_end_def pm_wait_for_qc_def app_wait_for_new_qc_def)
  show ?thesis using confirmed_posts_are_found[OF s'] s' by blast
qed

text \<open>The configuration the process starts with, whatever the keys: four replicas, majorities of three, and safe quorums
with any one of them faulty.\<close>

lemma main_tolerates_one_fault:
  "\<exists>c. make_config (main_replicas pks) = Inr c \<and> members c = {0, 1, 2, 3} \<and> nmajority c = 3 \<and> faults_ok c {r}"
proof -
  have "\<exists>c. make_config (main_replicas pks) = Inr c \<and> nreplicas c = 4"
    by (simp add: make_config_def main_replicas_def localhost_replica_def add_replica_def empty_config_def finish_init_def Let_def)
  then obtain c where c: "make_config (main_replicas pks) = Inr c" "nreplicas c = 4" by blast
  have "config_ok c" "members c = {0, 1, 2, 3}"
    using make_config_ok[OF c(1)] by (auto simp: main_replicas_def localhost_replica_def)
  then show ?thesis using c by (simp add: faults_ok_def quorum_overlap_def config_ok_def)
qed

end
