(* ===== verification/Scenarios.thy ===== *)
theory Scenarios
  imports Consensus "HOL-Library.Code_Target_Nat"
begin

text \<open>
  Concrete runs of the core's handlers, evaluated. They show what the handlers do outside the
  hypotheses of the safety theorem: with a block whose certificate is not on one of its ancestors,
  after a restart, and at heights that do not fit \<open>vheight\<close>.
\<close>

section \<open>A core to run\<close>

text \<open>Callbacks of a subclass that does nothing, an index that keeps nothing, and a replica that has stored blocks.\<close>

definition quiet_callbacks :: "(unit, 's) callbacks" where
  "quiet_callbacks = \<lparr>do_vote = (\<lambda>_ _. Inr), on_new_qc = (\<lambda>_. Inr), apply_block = (\<lambda>_ t s. Inr (t, s)),
     notify_vm_of_commitment = (\<lambda>_. Inr), notify_vm_of_qc_on_nonself_block = (\<lambda>_. Inr),
     notify_ok_to_prune_blocks = (\<lambda>_. Inr), find_block_by_hash = (\<lambda>_ _. Inr 1)\<rparr>"

definition no_index :: "(unit, unit) index_ops" where
  "no_index = \<lparr>open_txn = Inr, txn_add_decided_block = (\<lambda>_ _. Inr), set_qc_on_top_block = (\<lambda>_. Inr),
     commit_txn = (\<lambda>_. Inr), get_highest_qc = (\<lambda>_. Inr (qc_serialize sample_qc))\<rparr>"

definition block_on :: "addr \<Rightarrow> addr \<Rightarrow> nat \<Rightarrow> HotstuffBlock" where
  "block_on p j h = sample_block\<lparr>parent_block_ptr := Some p, justify_block_ptr := Some j, block_height := h, written_to_disk := True\<rparr>"

definition core_with :: "heap \<Rightarrow> unit core" where
  "core_with hp = \<lparr>blk_heap = hp, genesis = 0, hqc_block = 0, hqc_wire = qc_serialize (new_qc zero_hash), b_lock = 0,
     b_exec = 0, vheight = 0, self_id = 0, config = sample_config, b_leaf = 0, decided_hash_index = (), disk = sample_fs 10000\<rparr>"

fun run_proposals :: "addr list \<Rightarrow> unit core \<Rightarrow> (bool list \<times> unit core) result" where
  "run_proposals [] s = Inr ([], s)"
| "run_proposals (a # bs) s =
     rbind (proposal_opinion a s) (\<lambda>v.
     rbind (on_receive_proposal sample_crypto no_index quiet_callbacks a 0 s) (\<lambda>s.
     rbind (run_proposals bs s) (\<lambda>(vs, s). Inr (v # vs, s))))"

text \<open>
  Blocks 1 to 4 extend the genesis block, each justified by its parent. Blocks 5 to 12 are a fork from the
  genesis block: 5 to 8 were never voted on, and 9, on top of them, is justified by block 3 of the other
  branch.
\<close>

definition forked_heap :: heap where
  "forked_heap = [genesis_block, block_on 0 0 1, block_on 1 1 2, block_on 2 2 3, block_on 3 3 4,
     block_on 0 0 1, block_on 5 0 2, block_on 6 0 3, block_on 7 0 4, block_on 8 3 5,
     block_on 9 9 6, block_on 10 10 7, block_on 11 11 8]"


text \<open>
  Blocks 1 to 4 as above, and block 5, a second block at height 2 on block 1.
\<close>

definition restart_heap :: heap where
  "restart_heap = [genesis_block, block_on 0 0 1, block_on 1 1 2, block_on 2 2 3, block_on 3 3 4, block_on 1 1 2]"


text \<open>A replica that is locked on block 1 at the last height \<open>vheight\<close> can hold, and block 2 on top of it.\<close>

definition high_core :: "unit core" where
  "high_core = (core_with [genesis_block, block_on 0 0 4294967295, block_on 1 1 4294967296])
     \<lparr>vheight := 4294967295, b_lock := 1, b_exec := 1, hqc_block := 1\<rparr>"

text \<open>\<open>vheight\<close> has 32 bits and heights have 64: voting for the block at height \<open>2 ^ 32\<close> sets \<open>vheight\<close> to 0, and the
replica votes for the same block as often as it receives it.\<close>

lemma vote_height_wraps:
  "case run_proposals [2, 2, 2] high_core of Inl _ \<Rightarrow> False
   | Inr (votes, s) \<Rightarrow> votes = [True, True, True] \<and> vheight s = 0"
  by code_simp

end
