(* ===== verification/Sample_Run.thy ===== *)
theory Sample_Run
  imports App_Refine "HOL-Library.Code_Target_Nat"
begin

text \<open>
  A concrete run of the applications, evaluated: a configuration with one replica, which proposes,
  votes for its own proposals and collects its own certificates. Its hash function counts
  the blocks of the run (the first byte of a header comes from the parent's hash), its bridge accepts every block. The theorems about all runs are
  applied to it.
\<close>

section \<open>The replica\<close>

definition toy_crypto :: crypto where
  "toy_crypto = \<lparr>generichash = (\<lambda>m. Some (replicate 32 (hd m + 1))), sign_detached = (\<lambda>key m. Some (replicate 64 5)),
     verify_detached = (\<lambda>s h key. s = replicate 64 5)\<rparr>"

definition idle_bridge :: "(unit, unit) bridge_ops" where
  "idle_bridge = \<lparr>br_next_vm_block = (\<lambda>_ _ br. Inr ([], br)), br_apply_block = (\<lambda>_ t br. Inr (t, br)),
     br_notify_commitment = (\<lambda>_ br. Inr br)\<rparr>"

definition unit_index :: "(unit, unit) index_ops" where
  "unit_index = \<lparr>open_txn = Inr, txn_add_decided_block = (\<lambda>_ _. Inr), set_qc_on_top_block = (\<lambda>_. Inr),
     commit_txn = (\<lambda>_. Inr), get_highest_qc = (\<lambda>_. Inr (qc_serialize sample_qc))\<rparr>"

definition start_result :: "(unit, unit) app result" where
  "start_result = new_app sample_config 0 [] (\<lambda>_. Inr ()) () (sample_fs 100000)"

definition start_app :: "(unit, unit) app" where
  "start_app = projr start_result"

text \<open>A proposal and an event of the queue, when they go through and the block is in the table.\<close>

definition run_propose :: "table \<Rightarrow> (unit, unit) app \<Rightarrow> (unit, unit) app option" where
  "run_propose T s =
     (case propose_with toy_crypto idle_bridge False s of Inl _ \<Rightarrow> None | Inr (h, s') \<Rightarrow>
        let hdr = header (wire_block (blk s' (b_leaf s'))) in
        (case hash_header toy_crypto hdr of Inl _ \<Rightarrow> None | Inr k \<Rightarrow>
           if k \<noteq> zero_hash \<and> T k = Some hdr \<and> list_all (\<lambda>b. block_height b < 4294967296) (blk_heap s')
           then Some s' else None))"

type_synonym run_state = "(replica_id, hash) vote_log \<times> (unit, unit) app"

definition run_event :: "run_state \<Rightarrow> run_state option" where
  "run_event = (\<lambda>(L, s).
     (case next_event (event_queue s) of None \<Rightarrow> None | Some (e, _) \<Rightarrow>
        (case event_thread_step toy_crypto unit_index (app_callbacks toy_crypto idle_bridge) s of
           Inl _ \<Rightarrow> None | Inr s' \<Rightarrow> Some (log_event 0 s e L, s'))))"

fun run_rounds :: "nat \<Rightarrow> table \<Rightarrow> run_state \<Rightarrow> run_state option" where
  "run_rounds 0 T x = Some x"
| "run_rounds (Suc n) T x =
     Option.bind (run_propose T (snd x)) (\<lambda>s.
     Option.bind (run_event (fst x, s)) (\<lambda>x.
     Option.bind (run_event x) (run_rounds n T)))"

text \<open>Equations for evaluation: the same functions with the values of this run first.\<close>

lemma put32_small [code]:
  "put32 v = (if v = 0 then [0, 0, 0, 0] else if v = 1 then [0, 0, 0, 1] else le_store32 (swap32 v))"
  by (auto simp: put32_def le_store32_def swap32_def)

lemma xdr_to_opaque_once [code]:
  "xdr_to_opaque serial_size save v =
     (let bs = save v; n = length bs; m = serial_size v in
      if n > m then Inl Xdr_overflow else if n < m then Inl (Undefined_behaviour ''assert p.p_ == p.e_'') else Inr bs)"
  by (simp add: xdr_to_opaque_def Let_def)

section \<open>The blocks of the run\<close>

text \<open>The header of the block at height \<open>n\<close>, on its parent and with the parent's certificate.\<close>

definition run_header :: "byte \<Rightarrow> HotstuffBlockHeader" where
  "run_header n = \<lparr>parent_hash = replicate 32 (n - 1),
     header_qc = \<lparr>justify = replicate 32 (n - 1), bmp = (if n = 1 then 0 else 1),
       wire_sigs = (if n = 1 then [] else [replicate 64 5])\<rparr>,
     body_hash = replicate 32 1\<rparr>"

definition run_table :: table where
  "run_table = map_of [(replicate 32 1, run_header 1), (replicate 32 2, run_header 2),
     (replicate 32 3, run_header 3), (replicate 32 4, run_header 4)]"

text \<open>The handler of the next event, up to the commit test of \<open>update\<close>: the state and the block to commit.\<close>

definition commit_point :: "(unit, unit) app \<Rightarrow> ((unit, unit) app \<times> addr) option" where
  "commit_point s =
     (case next_event (event_queue s) of Some (ProposalEvent p a, q) \<Rightarrow>
       (case app_do_vote toy_crypto a p (s\<lparr>event_queue := q, vheight := 4\<rparr>) of Inl _ \<Rightarrow> None | Inr t \<Rightarrow>
       (case justify_block_ptr (blk t a) of None \<Rightarrow> None | Some b2 \<Rightarrow>
       (case get_justify_qc (blk t a) of Inl _ \<Rightarrow> None | Inr qc \<Rightarrow>
       (case update_hqc (app_callbacks toy_crypto idle_bridge) b2 qc t of Inl _ \<Rightarrow> None | Inr s1 \<Rightarrow>
       (case justify_block_ptr (blk s1 b2) of None \<Rightarrow> None | Some b1 \<Rightarrow>
       (case lock_and_persist toy_crypto b1 s1 of Inl _ \<Rightarrow> None | Inr s2 \<Rightarrow>
       (case justify_block_ptr (blk s2 b1) of None \<Rightarrow> None | Some b0 \<Rightarrow>
          if \<not> decided (blk s2 b0) \<and> parent_block_ptr (blk s2 b2) = Some b1 \<and> parent_block_ptr (blk s2 b1) = Some b0
          then Some (s2, b0) else None)))))))
     | _ \<Rightarrow> None)"

lemma commit_point_parts:
  assumes "commit_point s = Some (s2, b0)"
  obtains p a q t b2 qc s1 b1 where "next_event (event_queue s) = Some (ProposalEvent p a, q)"
    and "app_do_vote toy_crypto a p (s\<lparr>event_queue := q, vheight := 4\<rparr>) = Inr t"
    and "justify_block_ptr (blk t a) = Some b2" and "get_justify_qc (blk t a) = Inr qc"
    and "update_hqc (app_callbacks toy_crypto idle_bridge) b2 qc t = Inr s1" and "justify_block_ptr (blk s1 b2) = Some b1"
    and "lock_and_persist toy_crypto b1 s1 = Inr s2" and "justify_block_ptr (blk s2 b1) = Some b0"
    and "\<not> decided (blk s2 b0)" and "parent_block_ptr (blk s2 b2) = Some b1" and "parent_block_ptr (blk s2 b1) = Some b0"
  using assms by (fastforce simp: commit_point_def split: option.splits sum.splits prod.splits Event.splits if_splits)

text \<open>Three rounds, the fourth proposal, and the two events it leads to.\<close>

lemma run_evaluates:
  "case run_rounds 3 run_table ([], start_app) of None \<Rightarrow> False | Some (L, s) \<Rightarrow>
   (case run_propose run_table s of None \<Rightarrow> False | Some s4 \<Rightarrow>
     map_option snd (commit_point s4) = Some 1 \<and>
     (case Option.bind (run_event (L, s4)) run_event of None \<Rightarrow> False | Some (L', s') \<Rightarrow>
        L' = [(0, replicate 32 4, replicate 32 1), (0, replicate 32 3, zero_hash), (0, replicate 32 2, zero_hash),
              (0, replicate 32 1, zero_hash)]
        \<and> b_exec s' = 1 \<and> length (blk_heap s') = 5))"
  by code_simp

section \<open>It is a run of the applications\<close>

abbreviation at_0 :: "run_state \<Rightarrow> (unit, unit) app sys" where
  "at_0 x \<equiv> \<lparr>running = [0 \<mapsto> snd x], vlog = fst x\<rparr>"

abbreviation run_step where
  "run_step \<equiv> app_step toy_crypto unit_index idle_bridge run_table sample_config {}"

lemma run_propose_parts:
  assumes "run_propose T s = Some s'"
  obtains h where "propose_with toy_crypto idle_bridge False s = Inr (h, s')"
    and "in_table toy_crypto T (header (wire_block (blk s' (b_leaf s'))))" and "heights_below 4294967296 (blk_heap s')"
proof -
  obtain h k where "propose_with toy_crypto idle_bridge False s = Inr (h, s')"
    and "hash_header toy_crypto (header (wire_block (blk s' (b_leaf s')))) = Inr k" "k \<noteq> zero_hash"
      "T k = Some (header (wire_block (blk s' (b_leaf s'))))"
      "list_all (\<lambda>b. block_height b < 4294967296) (blk_heap s')"
    using assms by (auto simp: run_propose_def Let_def split: sum.splits if_splits)
  then show ?thesis using that by (simp add: in_table_def heights_below_def list_all_iff)
qed

lemma run_propose_step:
  assumes "run_propose run_table s = Some s'"
  shows "run_step (at_0 (L, s)) (at_0 (L, s'))"
proof -
  obtain h where p: "propose_with toy_crypto idle_bridge False s = Inr (h, s')"
    "in_table toy_crypto run_table (header (wire_block (blk s' (b_leaf s'))))" "heights_below 4294967296 (blk_heap s')"
    by (rule run_propose_parts[OF assms])
  show ?thesis
    using app_step.propose[of "at_0 (L, s)" 0 s toy_crypto idle_bridge False h s' run_table unit_index sample_config "{}"] p
    by simp
qed

lemma run_event_step:
  assumes "run_event x = Some y"
  shows "run_step (at_0 x) (at_0 y)"
proof -
  obtain e q s' where e: "next_event (event_queue (snd x)) = Some (e, q)"
    and s': "event_thread_step toy_crypto unit_index (app_callbacks toy_crypto idle_bridge) (snd x) = Inr s'"
    and y: "y = (log_event 0 (snd x) e (fst x), s')"
    using assms by (cases x) (auto simp: run_event_def split: option.splits sum.splits)
  show ?thesis
    using app_step.event_thread[of "at_0 x" 0 "snd x" e q toy_crypto unit_index idle_bridge run_table sample_config "{}"]
      e s' y by simp
qed

lemma run_rounds_app:
  "run_rounds n run_table x = Some y \<Longrightarrow> run_step\<^sup>*\<^sup>* (at_0 x) (at_0 y)"
proof (induction n arbitrary: x)
  case (Suc n)
  then obtain s u v where r: "run_propose run_table (snd x) = Some s" "run_event (fst x, s) = Some u"
    "run_event u = Some v" "run_rounds n run_table v = Some y"
    by (auto simp: bind_eq_Some_conv)
  have "run_step (at_0 x) (at_0 (fst x, s))" using run_propose_step[OF r(1), of "fst x"] by simp
  then show ?case using run_event_step[OF r(2)] run_event_step[OF r(3)] Suc.IH[OF r(4)]
    by (meson converse_rtranclp_into_rtranclp)
qed simp

section \<open>The hypotheses of the theorems hold of it\<close>

lemma run_config: "config_table_ok sample_config" "faults_ok sample_config {}"
  by (simp_all add: config_table_ok_def faults_ok_def config_ok_def quorum_overlap_def sample_config_def sample_info_def)

lemma start_result: "new_app sample_config 0 [] (\<lambda>_. Inr ()) () (sample_fs 100000) = Inr start_app"
proof -
  have "case start_result of Inr s \<Rightarrow> True | Inl _ \<Rightarrow> False" by code_simp
  then show ?thesis by (auto simp: start_app_def start_result_def split: sum.splits)
qed

lemma run_starts: "clean_start sample_config {} (at_0 ([], start_app))"
  using start_result by (fastforce simp: clean_start_def clean_app_def)

lemma run_justify: "justify_on_chain run_table"
proof -
  have "extends (par_of run_table) k j \<and> j \<noteq> k" if j: "just_of run_table k = Some j" for k j
  proof -
    obtain n where k: "k = replicate 32 n" "run_table k = Some (run_header n)" "k \<noteq> zero_hash"
      using j by (auto simp: just_of_def run_table_def split: if_splits)
    then have "par_of run_table k = Some j" "j = replicate 32 (n - 1)"
      using j by (simp_all add: par_of_def just_of_def run_header_def)
    moreover have "hd (replicate 32 (n - 1)) \<noteq> hd (replicate 32 n)" by simp
    ultimately show ?thesis using k(1) extends_step by fastforce
  qed
  then show ?thesis by (simp add: justify_on_chain_def)
qed

text \<open>The run: four blocks proposed and voted for, the first of them executed.\<close>

definition run_votes :: "(replica_id, hash) vote_log" where
  "run_votes = [(0, replicate 32 4, replicate 32 1), (0, replicate 32 3, zero_hash), (0, replicate 32 2, zero_hash),
     (0, replicate 32 1, zero_hash)]"

lemma run_parts:
  obtains L s s4 s2 s' where "run_step\<^sup>*\<^sup>* (at_0 ([], start_app)) (at_0 (L, s))"
    and "run_propose run_table s = Some s4" and "commit_point s4 = Some (s2, 1)"
    and "run_step\<^sup>*\<^sup>* (at_0 (L, s4)) (at_0 (run_votes, s'))" and "b_exec s' = 1" and "length (blk_heap s') = 5"
proof (cases "run_rounds 3 run_table ([], start_app)")
  case None
  then show ?thesis using run_evaluates by simp
next
  case (Some y)
  obtain L s where y: "y = (L, s)" by (cases y)
  obtain s4 where s4: "run_propose run_table s = Some s4"
    using run_evaluates Some y by (auto split: option.splits)
  obtain z where z: "Option.bind (run_event (L, s4)) run_event = Some z"
    using run_evaluates Some y s4 by (auto split: option.splits)
  obtain L' s' where z': "z = (L', s')" by (cases z)
  obtain u where u: "run_event (L, s4) = Some u" "run_event u = Some (L', s')"
    using z z' by (auto simp: bind_eq_Some_conv)
  have r: "run_step\<^sup>*\<^sup>* (at_0 (L, s4)) (at_0 (L', s'))"
    using run_event_step[OF u(1)] run_event_step[OF u(2)] by (meson converse_rtranclp_into_rtranclp r_into_rtranclp)
  have e: "map_option snd (commit_point s4) = Some 1" "L' = run_votes" "b_exec s' = 1" "length (blk_heap s') = 5"
    using run_evaluates unfolding Some y s4 z z' option.case prod.case run_votes_def by blast+
  then obtain s2 where "commit_point s4 = Some (s2, 1)" by (cases "commit_point s4") auto
  then show ?thesis using that[OF _ s4, of L s2 s'] run_rounds_app[OF Some] y r e by simp
qed

lemma run_reaches:
  obtains s where "run_step\<^sup>*\<^sup>* (at_0 ([], start_app)) (at_0 (run_votes, s))" and "b_exec s = 1"
    and "length (blk_heap s) = 5"
proof -
  obtain L s s4 s2 s' where r: "run_step\<^sup>*\<^sup>* (at_0 ([], start_app)) (at_0 (L, s))" "run_propose run_table s = Some s4"
    "run_step\<^sup>*\<^sup>* (at_0 (L, s4)) (at_0 (run_votes, s'))" "b_exec s' = 1" "length (blk_heap s') = 5"
    by (rule run_parts)
  have "run_step\<^sup>*\<^sup>* (at_0 ([], start_app)) (at_0 (run_votes, s'))"
    using rtranclp_trans[OF rtranclp.rtrancl_into_rtrancl[OF r(1) run_propose_step[OF r(2)]] r(3)] .
  then show ?thesis using that r by blast
qed

end
