(* ===== verification/Fast_IO.thy ===== *)
theory Fast_IO
  imports Block_IO
begin

text \<open>
  The buffered half of \<open>utils/save_load_xdr.h\<close>: \<open>save_xdr_to_file_fast\<close>, which serialises a list through
  a fixed buffer and writes it in multiples of 512 bytes, and \<open>load_xdr_from_file_fast\<close>.

  An open file is its contents and the position of the next write, \<open>None\<close> for the descriptor -1. The
  results of the calls of \<open>write\<close> are given as a list: -1 for an error, otherwise how much the system
  is willing to take. The bytes that \<open>std::align\<close> skips at the front of the buffer are a parameter.

  The theory shows that the loop leaves in the file exactly the encoding of the list, whatever positive
  amounts the writes take, when every element fits the buffer next to an unwritten remainder.
\<close>

section \<open>Writing\<close>

type_synonym open_file = "(bytes \<times> nat) option"

definition write_fd :: "bytes \<Rightarrow> bytes \<times> nat \<Rightarrow> bytes \<times> nat" where
  "write_fd bs = (\<lambda>(contents, off). (take off contents @ bs @ drop (off + length bs) contents, off + length bs))"

text \<open>The loop of \<open>flush_buffer\<close>, over the bytes that are left to write.\<close>

fun flush_loop :: "int list \<Rightarrow> bytes \<Rightarrow> open_file \<Rightarrow> (open_file \<times> int list) result" where
  "flush_loop ws [] fd = Inr (fd, ws)"
| "flush_loop [] (b # bs) fd = Inl Out_of_fuel"
| "flush_loop (w # ws) (b # bs) fd =
     (case fd of None \<Rightarrow> Inl (Runtime_error ''write error'') | Some f \<Rightarrow>
        if w < 0 then Inl (Runtime_error ''write error'')
        else flush_loop ws (drop (nat w) (b # bs)) (Some (write_fd (take (nat w) (b # bs)) f)))"

definition flush_buffer :: "int list \<Rightarrow> bytes \<Rightarrow> nat \<Rightarrow> open_file \<Rightarrow> (open_file \<times> int list) result" where
  "flush_buffer ws buffer bytes_to_write fd = flush_loop ws (take bytes_to_write buffer) fd"

text \<open>\<open>O_CREAT\<close> without \<open>O_TRUNC\<close>; \<open>fallocate\<close> extends the file with zeros.\<close>

definition preallocate_file :: "string \<Rightarrow> nat \<Rightarrow> filesystem \<Rightarrow> open_file result" where
  "preallocate_file filename prealloc d =
     (let old = (case files d filename of None \<Rightarrow> [] | Some c \<Rightarrow> c) in
      if \<not> can_open d filename then (if prealloc = 0 then Inr None else Inl (Runtime_error ''fallocate''))
      else if prealloc - length old > free_space d then Inl (Runtime_error ''fallocate'')
      else Inr (Some (old @ replicate (prealloc - length old) 0, 0)))"

section \<open>The buffered save\<close>

record fast_save =
  fs_buf :: bytes
  fs_pos :: nat
  fs_idx :: nat
  fs_total :: nat
  fs_fd :: open_file
  fs_writes :: "int list"

text \<open>Flush the full blocks, move the rest to the front.\<close>

definition make_room :: "fast_save \<Rightarrow> fast_save result" where
  "make_room s =
     (let rest = fs_idx s mod 512; write_amount = fs_idx s - rest in
      rbind (flush_buffer (fs_writes s) (fs_buf s) write_amount (fs_fd s)) (\<lambda>(fd, ws).
      Inr (s\<lparr>fs_buf := take rest (drop write_amount (fs_buf s)) @ drop rest (fs_buf s),
             fs_pos := rest, fs_idx := rest, fs_total := fs_total s + write_amount, fs_fd := fd, fs_writes := ws\<rparr>)))"

text \<open>\<open>p(value[list_idx])\<close>: the archive throws when the element does not fit.\<close>

definition put_element :: "('a \<Rightarrow> nat) \<Rightarrow> ('a \<Rightarrow> bytes) \<Rightarrow> nat \<Rightarrow> 'a \<Rightarrow> fast_save \<Rightarrow> fast_save result" where
  "put_element serial_size save capacity v s =
     (let bs = save v in
      if fs_pos s + length bs > capacity then Inl Xdr_overflow
      else Inr (s\<lparr>fs_buf := take (fs_pos s) (fs_buf s) @ bs @ drop (fs_pos s + length bs) (fs_buf s),
                  fs_pos := fs_pos s + length bs, fs_idx := fs_idx s + serial_size v\<rparr>))"

definition save_element :: "('a \<Rightarrow> nat) \<Rightarrow> ('a \<Rightarrow> bytes) \<Rightarrow> nat \<Rightarrow> 'a \<Rightarrow> fast_save \<Rightarrow> fast_save result" where
  "save_element serial_size save capacity v s =
     rbind (if capacity - fs_idx s < serial_size v then make_room s else Inr s)
       (put_element serial_size save capacity v)"

text \<open>The last flush writes past the data, up to a multiple of 512; \<open>ftruncate\<close> cuts it off.\<close>

definition finish_save :: "fast_save \<Rightarrow> bytes result" where
  "finish_save s =
     (let write_amount = fs_idx s - fs_idx s mod 512 + 512 in
      rbind (flush_buffer (fs_writes s) (fs_buf s) write_amount (fs_fd s)) (\<lambda>(fd, ws).
      case fd of None \<Rightarrow> Inl (Runtime_error ''ftruncate'')
      | Some (contents, _) \<Rightarrow>
          let total = fs_total s + fs_idx s in Inr (take total contents @ replicate (total - length contents) 0)))"

text \<open>What is left of the buffer for data. A buffer too small for the length word is outside the model.\<close>

definition fast_capacity :: "nat \<Rightarrow> nat \<Rightarrow> nat" where
  "fast_capacity buf_size skip = (let a = buf_size - skip in a - a mod 4 - 512)"

definition save_list_fast :: "('a \<Rightarrow> nat) \<Rightarrow> ('a \<Rightarrow> bytes) \<Rightarrow> 'a list \<Rightarrow> open_file \<Rightarrow> int list \<Rightarrow> nat \<Rightarrow> nat \<Rightarrow> bytes
    \<Rightarrow> bytes result" where
  "save_list_fast serial_size save vs fd ws buf_size skip buffer =
     (let capacity = fast_capacity buf_size skip in
      if capacity < 4 \<or> length buffer \<noteq> buf_size then Inl (Undefined_behaviour ''buffer too small'')
      else
        rbind (rfold (save_element serial_size save capacity) vs
          \<lparr>fs_buf = put32 (size32 (length vs)) @ drop 4 (drop skip buffer), fs_pos = 4, fs_idx = 4, fs_total = 0,
           fs_fd = fd, fs_writes = ws\<rparr>) finish_save)"

definition save_xdr_to_file_fast :: "('a \<Rightarrow> nat) \<Rightarrow> ('a \<Rightarrow> bytes) \<Rightarrow> 'a list \<Rightarrow> string \<Rightarrow> nat \<Rightarrow> int list \<Rightarrow> nat \<Rightarrow> bytes
    \<Rightarrow> filesystem \<Rightarrow> filesystem result" where
  "save_xdr_to_file_fast serial_size save vs filename prealloc_size ws skip buffer d =
     rbind (preallocate_file filename prealloc_size d) (\<lambda>fd.
     rbind (save_list_fast serial_size save vs fd ws (length buffer) skip buffer) (\<lambda>contents.
     Inr (d\<lparr>files := (files d)(filename \<mapsto> contents),
            free_space := free_space d + length (case files d filename of None \<Rightarrow> [] | Some c \<Rightarrow> c) - length contents\<rparr>)))"

section \<open>The buffered load\<close>

text \<open>\<open>got\<close> is what the one call of \<open>read\<close> may return at most, negative for an error.\<close>

definition load_xdr_from_file_fast :: "(bytes \<Rightarrow> ('a \<times> bytes) result) \<Rightarrow> string \<Rightarrow> nat \<Rightarrow> nat \<Rightarrow> int \<Rightarrow> filesystem
    \<Rightarrow> 'a option result" where
  "load_xdr_from_file_fast load filename buf_size skip got d =
     (case files d filename of None \<Rightarrow> Inr None | Some contents \<Rightarrow>
        if \<not> can_open d filename then Inr None
        else if got < 0 then Inl (Runtime_error ''read error'')
        else
          let limit = (buf_size - skip) - (buf_size - skip) mod 512;
              bytes_read = min (min (nat got) limit) (length contents) in
          if bytes_read \<ge> limit then Inl (Runtime_error ''buffer wasnt big enough'')
          else rbind (xdr_from_opaque load (take bytes_read contents)) (\<lambda>v. Inr (Some v)))"

section \<open>The flush loop\<close>

lemma write_fd_twice: "off \<le> length c \<Longrightarrow> write_fd ys (write_fd xs (c, off)) = write_fd (xs @ ys) (c, off)"
  by (simp add: write_fd_def add.assoc add.commute)

text \<open>Whatever positive amounts the calls take, the whole buffer gets written.\<close>

lemma flush_loop_all:
  assumes "list_all (\<lambda>w. 0 < w) ws" and "length bs \<le> length ws" and "snd f \<le> length (fst f)"
  shows "\<exists>ws'. flush_loop ws bs (Some f) = Inr (Some (write_fd bs f), ws') \<and> list_all (\<lambda>w. 0 < w) ws'
    \<and> length ws \<le> length ws' + length bs"
  using assms
proof (induction ws bs "Some f" arbitrary: f rule: flush_loop.induct)
  case (1 ws)
  then show ?case by (cases f) (auto simp: write_fd_def)
next
  case (3 w ws b bs)
  let ?n = "nat w" let ?rest = "drop ?n (b # bs)" and ?f = "write_fd (take ?n (b # bs)) f"
  have w: "0 < w" "list_all (\<lambda>w. 0 < w) ws" using "3.prems"(1) by simp_all
  then have l: "length ?rest \<le> length bs" by (cases ?n) auto
  have f: "snd ?f \<le> length (fst ?f)" using "3.prems"(3) by (cases f) (auto simp: write_fd_def)
  have "length ?rest \<le> length ws" using l "3.prems"(2) by simp
  from "3.hyps"[OF refl _ w(2) this f] w(1) obtain ws' where
    r: "flush_loop ws ?rest (Some ?f) = Inr (Some (write_fd ?rest ?f), ws')" "list_all (\<lambda>w. 0 < w) ws'"
      "length ws \<le> length ws' + length ?rest" by auto
  have "write_fd ?rest ?f = write_fd (b # bs) f"
    using write_fd_twice[of "snd f" "fst f" ?rest "take ?n (b # bs)"] "3.prems"(3)
    by (simp only: prod.collapse append_take_drop_id)
  then show ?case using r w(1) l by auto
qed simp

section \<open>The save writes the encoding\<close>

text \<open>
  The state after the bytes \<open>enc\<close> have gone in: those already in the file, then those in the buffer.
  \<open>N\<close> is the capacity, \<open>K\<close> the number of results of \<open>write\<close> at the start.
\<close>

definition saved :: "nat \<Rightarrow> nat \<Rightarrow> bytes \<Rightarrow> fast_save \<Rightarrow> bool" where
  "saved N K enc s \<longleftrightarrow> (\<exists>c. fs_fd s = Some (c, fs_total s) \<and> fs_total s \<le> length c
     \<and> enc = take (fs_total s) c @ take (fs_idx s) (fs_buf s))
     \<and> fs_pos s = fs_idx s \<and> fs_idx s \<le> N \<and> N + 512 \<le> length (fs_buf s)
     \<and> list_all (\<lambda>w. 0 < w) (fs_writes s) \<and> K \<le> length (fs_writes s) + fs_total s"

lemma saved_length: "saved N K enc s \<Longrightarrow> length enc = fs_total s + fs_idx s"
  by (auto simp: saved_def)

lemma saved_flush:
  assumes "saved N K enc s" and "n \<le> length (fs_buf s)" and "fs_total s + n \<le> K"
  obtains c ws where "flush_buffer (fs_writes s) (fs_buf s) n (fs_fd s) = Inr (Some (c, fs_total s + n), ws)"
    and "take (fs_total s + n) c @ [] = take (fs_total s) (fst (the (fs_fd s))) @ take n (fs_buf s)"
    and "fs_total s + n \<le> length c" and "list_all (\<lambda>w. 0 < w) ws" and "K \<le> length ws + fs_total s + n"
proof -
  obtain c where c: "fs_fd s = Some (c, fs_total s)" "fs_total s \<le> length c"
    and w: "list_all (\<lambda>w. 0 < w) (fs_writes s)" "K \<le> length (fs_writes s) + fs_total s"
    using assms(1) by (auto simp: saved_def)
  have "length (take n (fs_buf s)) \<le> length (fs_writes s)" using w(2) assms(3) by simp
  from flush_loop_all[OF w(1) this, of "(c, fs_total s)"] c(2) obtain ws' where
    r: "flush_loop (fs_writes s) (take n (fs_buf s)) (Some (c, fs_total s))
        = Inr (Some (write_fd (take n (fs_buf s)) (c, fs_total s)), ws')"
      "list_all (\<lambda>w. 0 < w) ws'" "length (fs_writes s) \<le> length ws' + length (take n (fs_buf s))" by auto
  let ?c = "fst (write_fd (take n (fs_buf s)) (c, fs_total s))"
  have e: "write_fd (take n (fs_buf s)) (c, fs_total s) = (?c, fs_total s + n)"
    using assms(2) by (simp add: write_fd_def)
  have len: "length (take n (fs_buf s)) = n" using assms(2) by simp
  show ?thesis
  proof (rule that[of ?c ws'])
    show "flush_buffer (fs_writes s) (fs_buf s) n (fs_fd s) = Inr (Some (?c, fs_total s + n), ws')"
      using r(1) e by (simp add: flush_buffer_def c(1))
    show "take (fs_total s + n) ?c @ [] = take (fs_total s) (fst (the (fs_fd s))) @ take n (fs_buf s)"
      using c assms(2) by (simp add: write_fd_def)
    show "fs_total s + n \<le> length ?c" using c assms(2) by (simp add: write_fd_def)
  qed (use r(2,3) w(2) len in simp_all)
qed

lemma make_room_saved:
  assumes s: "saved N K enc s" and k: "length enc \<le> K"
  obtains s' where "make_room s = Inr s'" and "saved N K enc s'" and "fs_idx s' < 512"
proof -
  define r where "r = fs_idx s mod 512"
  define w where "w = fs_idx s - r"
  let ?buf = "fs_buf s" let ?b = "take r (drop w ?buf) @ drop r ?buf"
  have r: "r < 512" "w + r = fs_idx s" by (simp_all add: r_def w_def)
  have i: "fs_idx s \<le> N" "N + 512 \<le> length ?buf" using s by (auto simp: saved_def)
  have "w \<le> length ?buf" "fs_total s + w \<le> K" using i r k saved_length[OF s] by linarith+
  from saved_flush[OF s this] obtain c ws where
    f: "flush_buffer (fs_writes s) ?buf w (fs_fd s) = Inr (Some (c, fs_total s + w), ws)"
    and c: "take (fs_total s + w) c @ [] = take (fs_total s) (fst (the (fs_fd s))) @ take w ?buf"
    and l: "fs_total s + w \<le> length c" and ws: "list_all (\<lambda>w. 0 < w) ws" "K \<le> length ws + fs_total s + w" .
  let ?s' = "s\<lparr>fs_buf := ?b, fs_pos := r, fs_idx := r, fs_total := fs_total s + w, fs_fd := Some (c, fs_total s + w),
    fs_writes := ws\<rparr>"
  have len: "length (take r (drop w ?buf)) = r" using i r by simp
  have tb: "take r ?b = take r (drop w ?buf)" by (simp only: take_append len diff_self_eq_0 take_0 append_Nil2 take_take min.idem)
  have "enc = take (fs_total s) (fst (the (fs_fd s))) @ take (w + r) ?buf" using s unfolding r(2) by (auto simp: saved_def)
  also have "\<dots> = (take (fs_total s) (fst (the (fs_fd s))) @ take w ?buf) @ take r (drop w ?buf)"
    by (simp only: take_add append_assoc)
  also have "\<dots> = take (fs_total s + w) c @ take r ?b" by (simp only: tb c[symmetric] append_Nil2)
  finally have e: "enc = take (fs_total s + w) c @ take r ?b" .
  have "length ?b = length ?buf" using len i r by simp
  then have "saved N K enc ?s'" unfolding saved_def using e l ws r i
    by (intro conjI exI[of _ c]) simp_all
  moreover have "make_room s = Inr ?s'" using f by (simp add: make_room_def Let_def r_def w_def)
  ultimately show ?thesis using that[of ?s'] r(1) by simp
qed

lemma put_element_saved:
  assumes s: "saved N K enc s" and l: "length (save v) = serial_size v" and n: "fs_idx s + serial_size v \<le> N"
  obtains s' where "put_element serial_size save N v s = Inr s'" and "saved N K (enc @ save v) s'"
proof -
  let ?b = "take (fs_idx s) (fs_buf s) @ save v @ drop (fs_idx s + length (save v)) (fs_buf s)"
  let ?s' = "s\<lparr>fs_buf := ?b, fs_pos := fs_idx s + length (save v), fs_idx := fs_idx s + serial_size v\<rparr>"
  have i: "fs_pos s = fs_idx s" "N + 512 \<le> length (fs_buf s)" using s by (auto simp: saved_def)
  have "take (fs_idx s + serial_size v) ?b = take (fs_idx s) (fs_buf s) @ save v" using i n l by simp
  moreover have "length ?b = length (fs_buf s)" using i n l by simp
  ultimately have "saved N K (enc @ save v) ?s'" using s n l by (auto simp: saved_def)
  moreover have "put_element serial_size save N v s = Inr ?s'" using n l i(1) by (simp add: put_element_def Let_def)
  ultimately show ?thesis using that by blast
qed

lemma save_element_saved:
  assumes s: "saved N K enc s" and l: "length (save v) = serial_size v" and n: "serial_size v + 511 \<le> N"
    and k: "length enc \<le> K"
  obtains s' where "save_element serial_size save N v s = Inr s'" and "saved N K (enc @ save v) s'"
proof (cases "N - fs_idx s < serial_size v")
  case True
  obtain t where t: "make_room s = Inr t" "saved N K enc t" "fs_idx t < 512" by (rule make_room_saved[OF s k])
  have "fs_idx t + serial_size v \<le> N" using t(3) n by simp
  then obtain u where u: "put_element serial_size save N v t = Inr u" "saved N K (enc @ save v) u"
    by (rule put_element_saved[where save = save and v = v and serial_size = serial_size, OF t(2) l])
  show ?thesis by (rule that[OF _ u(2)]) (simp add: save_element_def True t(1) u(1))
next
  case False
  have "fs_idx s \<le> N" using s by (simp add: saved_def)
  then have "fs_idx s + serial_size v \<le> N" using False by simp
  then obtain u where u: "put_element serial_size save N v s = Inr u" "saved N K (enc @ save v) u"
    by (rule put_element_saved[where save = save and v = v and serial_size = serial_size, OF s l])
  show ?thesis by (rule that[OF _ u(2)]) (simp add: save_element_def False u(1))
qed

lemma save_loop_saved:
  assumes "saved N K enc s" and "list_all (\<lambda>v. length (save v) = serial_size v \<and> serial_size v + 511 \<le> N) vs"
    and "length enc + length (concat (map save vs)) \<le> K"
  shows "\<exists>s'. rfold (save_element serial_size save N) vs s = Inr s' \<and> saved N K (enc @ concat (map save vs)) s'"
  using assms
proof (induction vs arbitrary: enc s)
  case (Cons v vs)
  obtain t where t: "save_element serial_size save N v s = Inr t" "saved N K (enc @ save v) t"
    by (rule save_element_saved[where save = save and v = v and serial_size = serial_size, OF Cons.prems(1)]) (use Cons.prems in auto)
  from Cons.IH[OF t(2)] Cons.prems(2,3) show ?case using t(1) by simp
qed simp

lemma finish_saved:
  assumes s: "saved N K enc s" and k: "length enc + 512 \<le> K"
  shows "finish_save s = Inr enc"
proof -
  define w where "w = fs_idx s - fs_idx s mod 512 + 512"
  let ?buf = "fs_buf s"
  have r: "fs_idx s < w" "w \<le> fs_idx s + 512" by (simp_all add: w_def trans_less_add2 less_add_eq_less)
  have i: "fs_idx s \<le> N" "N + 512 \<le> length ?buf" using s by (auto simp: saved_def)
  have "w \<le> length ?buf" "fs_total s + w \<le> K" using i r k saved_length[OF s] by linarith+
  from saved_flush[OF s this] obtain c ws where
    f: "flush_buffer (fs_writes s) ?buf w (fs_fd s) = Inr (Some (c, fs_total s + w), ws)"
    and c: "take (fs_total s + w) c @ [] = take (fs_total s) (fst (the (fs_fd s))) @ take w ?buf"
    and l: "fs_total s + w \<le> length c" .
  have e: "enc = take (fs_total s) (fst (the (fs_fd s))) @ take (fs_idx s) ?buf"
    "length (take (fs_total s) (fst (the (fs_fd s)))) = fs_total s" using s by (auto simp: saved_def)
  have "take (fs_total s + fs_idx s) c = take (fs_total s + fs_idx s) (take (fs_total s + w) c)"
    using r(1) by (simp add: take_take min_def)
  also have "\<dots> = enc" using c e r(1) by (simp add: take_take min_def)
  finally have t: "take (fs_total s + fs_idx s) c = enc" .
  have "fs_total s + fs_idx s - length c = 0" using l r(1) by simp
  then show ?thesis using f t by (simp add: finish_save_def Let_def w_def)
qed

text \<open>The whole loop, on a file opened at its start.\<close>

lemma save_list_fast_writes:
  assumes v: "list_all (\<lambda>v. length (save v) = serial_size v \<and> serial_size v + 511 \<le> fast_capacity buf_size skip) vs"
    and w: "list_all (\<lambda>w. 0 < w) ws" "length (put_xvector save vs) + 512 \<le> length ws"
    and b: "length buffer = buf_size" "4 \<le> fast_capacity buf_size skip"
  shows "save_list_fast serial_size save vs (Some (old, 0)) ws buf_size skip buffer = Inr (put_xvector save vs)"
proof -
  let ?N = "fast_capacity buf_size skip" and ?h = "put32 (size32 (length vs))"
  let ?s = "\<lparr>fs_buf = ?h @ drop 4 (drop skip buffer), fs_pos = 4, fs_idx = 4, fs_total = 0, fs_fd = Some (old, 0),
    fs_writes = ws\<rparr>"
  have h: "length ?h = 4" by simp
  have "?N + 512 \<le> length (?h @ drop 4 (drop skip buffer))"
    using b h by (simp add: fast_capacity_def Let_def)
  moreover have "?h = take 4 (?h @ drop 4 (drop skip buffer))"
    by (simp only: take_append h diff_self_eq_0 take_0 append_Nil2) (simp add: h)
  ultimately have s: "saved ?N (length ws) ?h ?s" using b(2) w(1) by (simp add: saved_def)
  have "length ?h + length (concat (map save vs)) \<le> length ws" using w(2) by (simp add: put_xvector_def)
  from save_loop_saved[OF s v this] obtain t where
    t: "rfold (save_element serial_size save ?N) vs ?s = Inr t" "saved ?N (length ws) (put_xvector save vs) t"
    by (auto simp: put_xvector_def)
  have "finish_save t = Inr (put_xvector save vs)" using t(2) w(2) by (rule finish_saved)
  then show ?thesis using t(1) b by (simp add: save_list_fast_def Let_def)
qed

text \<open>One read brings it back when the file is shorter than the buffer.\<close>

lemma load_fast_reads:
  assumes "files d filename = Some (put_xvector save vs)" and "can_open d filename"
    and "get_xvector n load (put_xvector save vs) = Inr (vs, [])" and "4 dvd length (put_xvector save vs)"
    and "length (put_xvector save vs) < (buf_size - skip) - (buf_size - skip) mod 512"
    and "int (length (put_xvector save vs)) \<le> got"
  shows "load_xdr_from_file_fast (get_xvector n load) filename buf_size skip got d = Inr (Some vs)"
proof -
  have "length (put_xvector save vs) \<le> nat got" "\<not> got < 0" using assms(6) by linarith+
  then show ?thesis using assms(1-5) by (simp add: load_xdr_from_file_fast_def xdr_from_opaque_def min_def Let_def)
qed

section \<open>Claims\<close>



end
