(* ===== verification/Async_Worker.thy ===== *)
theory Async_Worker
  imports Network
begin

text \<open>
  The threads behind the queues: \<open>utils/async_worker.h\<close> and the loop \<open>run\<close> of the classes that extend
  \<open>AsyncWorker\<close> (\<open>generic_event_queue.h\<close>, \<open>garbage_collector.cc\<close>, \<open>block_fetch_worker.cc\<close>), as a
  system of two threads that share an object, a mutex, a condition variable and two flags. Other
  theories run a round of such a loop as one call; here it is taken apart.

  Each critical section is one step. A thread inside \<open>cv.wait\<close> is asleep until a \<open>notify_all\<close> or a
  spurious wake-up makes it test its condition again. The owner calls the operations of the object,
  waits for the work to end, and at last destroys the object; it does not call while it waits.

  The locale \<open>async_worker\<close> states what an extension has to keep so that no wake-up is lost, and
  \<open>ending_worker\<close> what it needs for the wait to return. The three loops interpret them. The last
  section shows that the destructors do not wait for the thread, which goes on using the object.
\<close>

section \<open>The base class\<close>

text \<open>What an extension provides: its condition, what \<open>run\<close> does under the lock, the next step of what it
does outside (\<open>None\<close> at the end of the round), and where it calls \<open>notify_all\<close>.\<close>

record 's worker_ops =
  has_work :: "'s \<Rightarrow> bool"
  take_batch :: "'s \<Rightarrow> 's"
  process :: "'s \<Rightarrow> 's option"
  notify_early :: bool
  notify_late :: bool

datatype worker_pc = Testing_work | Worker_asleep | Busy | Stopped

datatype owner_pc = Using | Testing_idle | Owner_asleep | Wait_returned | Destroyed

record 's AsyncWorker =
  shared :: 's
  done_flag :: bool
  worker_shutdown :: bool
  worker :: worker_pc
  owner :: owner_pc

definition start_async_thread :: "'s \<Rightarrow> 's AsyncWorker" where
  "start_async_thread s =
     \<lparr>shared = s, done_flag = False, worker_shutdown = False, worker = Testing_work, owner = Using\<rparr>"

definition notify_all :: "'s AsyncWorker \<Rightarrow> 's AsyncWorker" where
  "notify_all w = w\<lparr>worker := (if worker w = Worker_asleep then Testing_work else worker w),
                    owner := (if owner w = Owner_asleep then Testing_idle else owner w)\<rparr>"

text \<open>The test of \<open>wait_for_async_task\<close>, at its call and at every wake-up.\<close>

definition wait_for_async_task_test :: "'s worker_ops \<Rightarrow> 's AsyncWorker \<Rightarrow> 's AsyncWorker" where
  "wait_for_async_task_test ops w =
     (if owner w = Using \<or> owner w = Testing_idle
      then w\<lparr>owner := (if has_work ops (shared w) then Owner_asleep else Wait_returned)\<rparr> else w)"

definition end_async_thread :: "'s AsyncWorker \<Rightarrow> 's AsyncWorker" where
  "end_async_thread w = notify_all (w\<lparr>done_flag := True\<rparr>)"

definition signal_async_thread_shutdown :: "'s AsyncWorker \<Rightarrow> 's AsyncWorker" where
  "signal_async_thread_shutdown w = notify_all (w\<lparr>worker_shutdown := True\<rparr>)"

text \<open>Whether \<open>wait_for_async_thread_terminate\<close> gets past its wait.\<close>

definition async_thread_terminated :: "'s AsyncWorker \<Rightarrow> bool" where
  "async_thread_terminated w = worker_shutdown w"

text \<open>One step of \<open>run\<close>: the test with the critical section that follows it, or a step outside the lock.\<close>

definition worker_step :: "'s worker_ops \<Rightarrow> 's AsyncWorker \<Rightarrow> 's AsyncWorker" where
  "worker_step ops w =
     (case worker w of
        Testing_work \<Rightarrow>
          if \<not> done_flag w \<and> \<not> has_work ops (shared w) then w\<lparr>worker := Worker_asleep\<rparr>
          else if done_flag w then w\<lparr>worker := Stopped\<rparr>
          else (if notify_early ops then notify_all else id) (w\<lparr>shared := take_batch ops (shared w), worker := Busy\<rparr>)
      | Busy \<Rightarrow>
          (case process ops (shared w) of
             Some s \<Rightarrow> w\<lparr>shared := s\<rparr>
           | None \<Rightarrow> (if notify_late ops then notify_all else id) (w\<lparr>worker := Testing_work\<rparr>))
      | _ \<Rightarrow> w)"

text \<open>A call of the owner, with the lock held; the flag says whether it calls \<open>notify_all\<close>.\<close>

definition owner_call :: "('s \<Rightarrow> 's) \<times> bool \<Rightarrow> 's AsyncWorker \<Rightarrow> 's AsyncWorker" where
  "owner_call = (\<lambda>(f, notifies) w. (if notifies then notify_all else id) (w\<lparr>shared := f (shared w)\<rparr>))"

text \<open>The end of the destructors: \<open>end_async_thread\<close> after the wait, then the object is gone.\<close>

definition destroy :: "'s AsyncWorker \<Rightarrow> 's AsyncWorker" where
  "destroy w = (end_async_thread w)\<lparr>owner := Destroyed\<rparr>"

inductive threads :: "'s worker_ops \<Rightarrow> (('s \<Rightarrow> 's) \<times> bool) set \<Rightarrow> 's AsyncWorker \<Rightarrow> 's AsyncWorker \<Rightarrow> bool"
  for ops calls where
  run: "threads ops calls w (worker_step ops w)"
| wake_worker: "worker w = Worker_asleep \<Longrightarrow> threads ops calls w (w\<lparr>worker := Testing_work\<rparr>)"
| call: "c \<in> calls \<Longrightarrow> owner w = Using \<Longrightarrow> threads ops calls w (owner_call c w)"
| wait: "threads ops calls w (wait_for_async_task_test ops w)"
| wake_owner: "owner w = Owner_asleep \<Longrightarrow> threads ops calls w (w\<lparr>owner := Testing_idle\<rparr>)"
| go_on: "owner w = Wait_returned \<Longrightarrow> threads ops calls w (w\<lparr>owner := Using\<rparr>)"
| finish: "owner w = Wait_returned \<Longrightarrow> threads ops calls w (destroy w)"

section \<open>No wake-up is lost\<close>

locale async_worker =
  fixes ops :: "'s worker_ops" and calls :: "(('s \<Rightarrow> 's) \<times> bool) set" and ok :: "'s \<Rightarrow> bool"
  assumes notifies: "notify_early ops \<or> notify_late ops"
    and silent_call: "(f, False) \<in> calls \<Longrightarrow> has_work ops (f s) \<Longrightarrow> has_work ops s"
    and process_keeps_work: "process ops s = Some s' \<Longrightarrow> has_work ops s \<Longrightarrow> has_work ops s'"
    and call_process: "c \<in> calls \<Longrightarrow> process ops s = None \<Longrightarrow> process ops (fst c s) = None"
    and ok_call: "c \<in> calls \<Longrightarrow> ok s \<Longrightarrow> ok (fst c s)"
    and ok_take: "ok s \<Longrightarrow> process ops s = None \<Longrightarrow> has_work ops s \<Longrightarrow> ok (take_batch ops s)"
    and ok_process: "ok s \<Longrightarrow> process ops s = Some s' \<Longrightarrow> ok s'"
begin

definition consistent :: "'s AsyncWorker \<Rightarrow> bool" where
  "consistent w \<longleftrightarrow> ok (shared w)
     \<and> (worker w = Worker_asleep \<longrightarrow> \<not> done_flag w \<and> \<not> has_work ops (shared w))
     \<and> (owner w = Owner_asleep \<longrightarrow> has_work ops (shared w) \<or> worker w = Busy \<and> notify_late ops)
     \<and> (worker w \<noteq> Busy \<longrightarrow> process ops (shared w) = None)
     \<and> (done_flag w \<longleftrightarrow> owner w = Destroyed) \<and> (worker w = Stopped \<longrightarrow> done_flag w) \<and> \<not> worker_shutdown w"

lemma consistent_start: "ok s \<Longrightarrow> process ops s = None \<Longrightarrow> consistent (start_async_thread s)"
  by (simp add: consistent_def start_async_thread_def)

lemma consistent_run:
  assumes c: "consistent w"
  shows "consistent (worker_step ops w)"
proof (cases "worker w")
  case Testing_work
  have p: "process ops (shared w) = None" using c Testing_work by (simp add: consistent_def)
  then show ?thesis
    using c Testing_work notifies ok_take[of "shared w"]
    by (cases "notify_early ops"; cases "has_work ops (shared w)")
      (auto simp: consistent_def worker_step_def notify_all_def)
next
  case Busy
  show ?thesis
  proof (cases "process ops (shared w)")
    case None
    then show ?thesis using c Busy by (auto simp: consistent_def worker_step_def notify_all_def)
  next
    case (Some s)
    then show ?thesis using c Busy process_keeps_work[OF Some] ok_process[of "shared w" s]
      by (auto simp: consistent_def worker_step_def)
  qed
qed (use c in \<open>simp_all add: worker_step_def\<close>)

lemma consistent_call:
  assumes c: "consistent w" and f: "f \<in> calls" and u: "owner w = Using"
  shows "consistent (owner_call f w)"
proof (cases f)
  case (Pair g n)
  have k: "ok (g (shared w))" "process ops (shared w) = None \<Longrightarrow> process ops (g (shared w)) = None"
    using ok_call[OF f, of "shared w"] call_process[OF f, of "shared w"] c Pair by (auto simp: consistent_def)
  show ?thesis
  proof (cases n)
    case True
    then show ?thesis using k c u Pair by (auto simp: consistent_def owner_call_def notify_all_def)
  next
    case False
    then show ?thesis using k c u Pair silent_call[of g "shared w"] f
      by (auto simp: consistent_def owner_call_def)
  qed
qed

lemma consistent_step: "threads ops calls w w' \<Longrightarrow> consistent w \<Longrightarrow> consistent w'"
proof (induction rule: threads.cases)
  case run
  then show ?case by (simp add: consistent_run)
next
  case call
  then show ?case by (simp add: consistent_call)
qed (auto simp: consistent_def wait_for_async_task_test_def destroy_def end_async_thread_def notify_all_def)

lemma consistent_reach:
  assumes "(threads ops calls)\<^sup>*\<^sup>* (start_async_thread s) w" and "ok s" and "process ops s = None"
  shows "consistent w"
  using assms(1) consistent_start[OF assms(2,3)] by (induction rule: rtranclp_induct) (auto intro: consistent_step)

text \<open>Both threads asleep is no reachable state: one of them always has something to do.\<close>

lemma not_both_asleep: "consistent w \<Longrightarrow> \<not> (worker w = Worker_asleep \<and> owner w = Owner_asleep)"
  by (auto simp: consistent_def)

lemma asleep_wait_returns:
  assumes "consistent w" and "worker w = Worker_asleep"
  shows "owner (wait_for_async_task_test ops w) = Wait_returned"
  using assms by (cases "owner w") (auto simp: consistent_def wait_for_async_task_test_def)

lemma destroy_does_not_join:
  assumes "consistent w" and "owner w = Wait_returned"
  shows "worker (destroy w) \<noteq> Stopped" and "\<not> async_thread_terminated w"
  using assms by (auto simp: consistent_def destroy_def end_async_thread_def notify_all_def async_thread_terminated_def)

end

section \<open>The worker comes to rest\<close>

locale ending_worker = async_worker +
  fixes left :: "'a \<Rightarrow> nat"
  assumes take_left: "ok s \<Longrightarrow> process ops s = None \<Longrightarrow> has_work ops s \<Longrightarrow> left (take_batch ops s) < left s"
    and process_left: "process ops s = Some s' \<Longrightarrow> left s' < left s"
begin

definition steps_left :: "'a AsyncWorker \<Rightarrow> nat" where
  "steps_left w = 2 * left (shared w) + (if worker w = Busy then 1 else 0)"

lemma worker_step_left:
  assumes "consistent w" and "\<not> done_flag w" and "worker w \<noteq> Worker_asleep"
  shows "steps_left (worker_step ops w) < steps_left w \<or> worker (worker_step ops w) = Worker_asleep"
    and "\<not> done_flag (worker_step ops w)"
proof -
  have w: "worker w = Testing_work \<and> process ops (shared w) = None \<or> worker w = Busy" "ok (shared w)"
    using assms by (cases "worker w"; auto simp: consistent_def)+
  show "steps_left (worker_step ops w) < steps_left w \<or> worker (worker_step ops w) = Worker_asleep"
    using w assms(2) take_left[of "shared w"] process_left[of "shared w"]
    by (cases "process ops (shared w)"; cases "has_work ops (shared w)")
      (auto simp: steps_left_def worker_step_def notify_all_def)
  show "\<not> done_flag (worker_step ops w)"
    using w(1) assms(2) by (auto simp: worker_step_def notify_all_def split: option.split)
qed

lemma worker_comes_to_rest:
  assumes "consistent w" and "\<not> done_flag w"
  shows "\<exists>n \<le> 2 * left (shared w) + 2.
    worker ((worker_step ops ^^ n) w) = Worker_asleep \<and> consistent ((worker_step ops ^^ n) w)"
proof -
  have "\<exists>n \<le> Suc (steps_left w). worker ((worker_step ops ^^ n) w) = Worker_asleep \<and> consistent ((worker_step ops ^^ n) w)"
    using assms
  proof (induction "steps_left w" arbitrary: w rule: less_induct)
    case less
    show ?case
    proof (cases "worker w = Worker_asleep")
      case True
      then show ?thesis using less.prems(1) by (intro exI[of _ 0]) simp
    next
      case False
      let ?w = "worker_step ops w"
      have c: "consistent ?w" using less.prems(1) by (rule consistent_run)
      from worker_step_left[OF less.prems False] show ?thesis
      proof (elim disjE)
        assume l: "steps_left ?w < steps_left w" and d: "\<not> done_flag ?w"
        from less.hyps[OF l c d] obtain n where "n \<le> Suc (steps_left ?w)"
          "worker ((worker_step ops ^^ n) ?w) = Worker_asleep" "consistent ((worker_step ops ^^ n) ?w)" by blast
        then show ?thesis using l by (intro exI[of _ "Suc n"]) (simp add: funpow_swap1)
      qed (use c in \<open>auto intro!: exI[of _ "Suc 0"]\<close>)
    qed
  qed
  moreover have "Suc (steps_left w) \<le> 2 * left (shared w) + 2" by (simp add: steps_left_def)
  ultimately show ?thesis by (meson order_trans)
qed

end

section \<open>\<open>GenericEventQueue\<close>\<close>

text \<open>The queue with the history of the events added and of those handed to \<open>on_event\<close>.\<close>

record 'e queue_thread =
  the_queue :: "'e GenericEventQueue"
  added :: "'e list"
  handled :: "'e list"

definition new_queue_thread :: "'e queue_thread" where
  "new_queue_thread = \<lparr>the_queue = new_queue, added = [], handled = []\<rparr>"

definition run_events_step :: "'e queue_thread \<Rightarrow> 'e queue_thread option" where
  "run_events_step s =
     (case work_list (the_queue s) of
        [] \<Rightarrow> None
      | e # es \<Rightarrow> Some (s\<lparr>the_queue := (the_queue s)\<lparr>work_list := es\<rparr>, handled := handled s @ [e]\<rparr>))"

definition queue_ops :: "'e queue_thread worker_ops" where
  "queue_ops = \<lparr>has_work = (\<lambda>s. queue_exists_work_to_do (the_queue s)),
     take_batch = (\<lambda>s. s\<lparr>the_queue := take_work (the_queue s)\<rparr>), process = run_events_step,
     notify_early = True, notify_late = False\<rparr>"

definition queue_calls :: "(('e queue_thread \<Rightarrow> 'e queue_thread) \<times> bool) set" where
  "queue_calls =
     {(\<lambda>s. s\<lparr>the_queue := add_event e (the_queue s), added := added s @ [e]\<rparr>, True) | e. True}
   \<union> {(\<lambda>s. s\<lparr>the_queue := add_events es (the_queue s), added := added s @ es\<rparr>, True) | es. True}"

definition events_conserved :: "'e queue_thread \<Rightarrow> bool" where
  "events_conserved s \<longleftrightarrow> added s = handled s @ queued (the_queue s)"

definition queue_left :: "'e queue_thread \<Rightarrow> nat" where
  "queue_left s = 2 * length (events (the_queue s)) + length (work_list (the_queue s))"

lemmas queue_thread_defs = queue_ops_def queue_calls_def run_events_step_def events_conserved_def queue_left_def
  queue_exists_work_to_do_def take_work_def add_event_def add_events_def

interpretation queue_worker: ending_worker queue_ops queue_calls events_conserved queue_left
  by unfold_locales (auto simp: queue_thread_defs split: list.splits)

abbreviation queue_reaches :: "'e queue_thread AsyncWorker \<Rightarrow> bool" where
  "queue_reaches w \<equiv> (threads queue_ops queue_calls)\<^sup>*\<^sup>* (start_async_thread new_queue_thread) w"

lemma queue_reaches_consistent: "queue_reaches w \<Longrightarrow> queue_worker.consistent w"
  by (rule queue_worker.consistent_reach)
    (auto simp: new_queue_thread_def new_queue_def events_conserved_def queue_ops_def run_events_step_def)

lemma queue_step_added: "added (shared (worker_step queue_ops w)) = added (shared w)"
  by (auto simp: worker_step_def queue_ops_def run_events_step_def notify_all_def
      split: worker_pc.split list.split option.split)

lemma queue_steps_added: "added (shared ((worker_step queue_ops ^^ n) w)) = added (shared w)"
  by (induction n) (simp_all add: queue_step_added)

lemma queue_at_rest:
  assumes "queue_worker.consistent w" and "worker w = Worker_asleep"
  shows "handled (shared w) = added (shared w)"
proof -
  have "\<not> queue_exists_work_to_do (the_queue (shared w))" "run_events_step (shared w) = None"
    "events_conserved (shared w)"
    using assms unfolding queue_worker.consistent_def by (simp_all add: queue_ops_def)
  then show ?thesis
    by (auto simp: events_conserved_def queue_exists_work_to_do_def run_events_step_def split: list.splits)
qed

section \<open>\<open>BlockGarbageCollector\<close>\<close>

text \<open>The collector, the blocks, and the height \<open>run\<close> has copied out of the lock. The call of \<open>notify_all\<close> comes
after the collection and outside the lock.\<close>

record gc_thread =
  the_gc :: BlockGarbageCollector
  gc_blocks :: heap
  gc_height :: "nat option"

definition gc_collect_step :: "gc_thread \<Rightarrow> gc_thread option" where
  "gc_collect_step s =
     (case gc_height s of
        None \<Rightarrow> None
      | Some h \<Rightarrow> let (g, hp) = do_gc h (the_gc s) (gc_blocks s) in Some \<lparr>the_gc = g, gc_blocks = hp, gc_height = None\<rparr>)"

definition gc_ops :: "gc_thread worker_ops" where
  "gc_ops = \<lparr>has_work = (\<lambda>s. hotstuff_height_to_gc (the_gc s) \<noteq> None),
     take_batch = (\<lambda>s. s\<lparr>the_gc := (push_buffer_to_gc_list (the_gc s))\<lparr>hotstuff_height_to_gc := None\<rparr>,
       gc_height := hotstuff_height_to_gc (the_gc s)\<rparr>), process = gc_collect_step, notify_early = False, notify_late = True\<rparr>"

definition gc_calls :: "((gc_thread \<Rightarrow> gc_thread) \<times> bool) set" where
  "gc_calls = {(\<lambda>s. s\<lparr>the_gc := invoke_gc h (the_gc s)\<rparr>, True) | h. True}
   \<union> {(\<lambda>s. s\<lparr>the_gc := gc_add_block a (the_gc s)\<rparr>, False) | a. True}"

definition gc_left :: "gc_thread \<Rightarrow> nat" where
  "gc_left s = (if hotstuff_height_to_gc (the_gc s) = None then 0 else 2) + (if gc_height s = None then 0 else 1)"

lemma do_gc_height: "do_gc h g hp = (g', hp') \<Longrightarrow> hotstuff_height_to_gc g' = hotstuff_height_to_gc g"
  by (auto simp: do_gc_def Let_def split: prod.splits)

interpretation gc_worker: ending_worker gc_ops gc_calls "\<lambda>_. True" gc_left
  by unfold_locales (auto simp: gc_ops_def gc_calls_def gc_collect_step_def gc_left_def invoke_gc_def gc_add_block_def
      push_buffer_to_gc_list_def do_gc_height Let_def split: option.splits prod.splits)

text \<open>Alone, the two steps of a round are the round of the collector.\<close>

lemma gc_round_steps:
  assumes "hotstuff_height_to_gc (the_gc s) = Some h" and "gc_run_step (the_gc s) (gc_blocks s) = (g, hp)"
  shows "gc_collect_step (take_batch gc_ops s) = Some \<lparr>the_gc = g, gc_blocks = hp, gc_height = None\<rparr>"
  using assms by (simp add: gc_collect_step_def gc_ops_def gc_run_step_def)

section \<open>\<open>BlockFetchWorker\<close>\<close>

text \<open>
  The requests, those \<open>run\<close> has extracted, those answered, and whether the next calls succeed; after the end
  of the list every call does. A failed batch is added again, without a notification.
\<close>

record fetch_thread =
  the_fetcher :: BlockFetchWorker
  extracted :: "hash list option"
  answered :: "hash list"
  call_results :: "bool list"

definition fetch_step :: "fetch_thread \<Rightarrow> fetch_thread option" where
  "fetch_step s =
     (case extracted s of
        None \<Rightarrow> None
      | Some hs \<Rightarrow>
          (case call_results s of
             False # rs \<Rightarrow>
               Some (s\<lparr>extracted := None, the_fetcher := readd_request hs (the_fetcher s), call_results := rs\<rparr>)
           | rs \<Rightarrow> Some (s\<lparr>extracted := None, answered := answered s @ hs, call_results := tl rs\<rparr>)))"

definition fetch_ops :: "fetch_thread worker_ops" where
  "fetch_ops = \<lparr>has_work = (\<lambda>s. worker_exists_work_to_do (the_fetcher s)),
     take_batch = (\<lambda>s. let (hs, f) = extract_reqs (the_fetcher s) in s\<lparr>the_fetcher := f, extracted := Some hs\<rparr>),
     process = fetch_step, notify_early = True, notify_late = False\<rparr>"

definition fetch_calls :: "((fetch_thread \<Rightarrow> fetch_thread) \<times> bool) set" where
  "fetch_calls = {(\<lambda>s. s\<lparr>the_fetcher := worker_add_request h (the_fetcher s)\<rparr>, True) | h. True}"

definition fetch_left :: "fetch_thread \<Rightarrow> nat" where
  "fetch_left s = 2 * length (call_results s) + (if worker_exists_work_to_do (the_fetcher s) then 2 else 0)
     + (if extracted s = None then 0 else 1)"

lemma set_insert_nonempty: "set_insert h hs \<noteq> []"
  by (cases hs) auto

lemma fold_set_insert_nonempty: "xs \<noteq> [] \<Longrightarrow> fold set_insert hs xs \<noteq> []"
  by (induction hs arbitrary: xs) (auto simp: set_insert_nonempty)

interpretation fetch_worker: ending_worker fetch_ops fetch_calls "\<lambda>_. True" fetch_left
  by unfold_locales (auto simp: fetch_ops_def fetch_calls_def fetch_step_def fetch_left_def extract_reqs_def readd_request_def
      worker_exists_work_to_do_def worker_add_request_def fold_set_insert_nonempty set_insert_nonempty split: option.splits list.splits bool.splits if_splits)

section \<open>Claims\<close>

text \<open>C17: from every state the threads of an event queue can reach before it is destroyed, the worker alone goes to
sleep within a bound, every event that was added has then been handled, in order and once, and a wait for the end of
the work returns.\<close>

theorem queue_worker_drains:
  assumes "queue_reaches w" and "\<not> done_flag w"
  shows "\<exists>n \<le> 2 * queue_left (shared w) + 2.
    let w' = (worker_step queue_ops ^^ n) w in
    worker w' = Worker_asleep \<and> handled (shared w') = added (shared w)
    \<and> owner (wait_for_async_task_test queue_ops w') = Wait_returned"
proof -
  obtain n where n: "n \<le> 2 * queue_left (shared w) + 2" "worker ((worker_step queue_ops ^^ n) w) = Worker_asleep"
    "queue_worker.consistent ((worker_step queue_ops ^^ n) w)"
    using queue_worker.worker_comes_to_rest[OF queue_reaches_consistent[OF assms(1)] assms(2)] by blast
  then show ?thesis
    using queue_at_rest[OF n(3,2)] queue_worker.asleep_wait_returns[OF n(3,2)]
    by (intro exI[of _ n]) (simp add: Let_def queue_steps_added)
qed

text \<open>A queue of two events whose owner waits and destroys it while the worker has the batch in hand.\<close>

definition busy_queue :: "nat queue_thread AsyncWorker" where
  "busy_queue = wait_for_async_task_test queue_ops (worker_step queue_ops
     (owner_call (\<lambda>s. s\<lparr>the_queue := add_events [1, 2] (the_queue s), added := added s @ [1, 2]\<rparr>, True)
       (start_async_thread new_queue_thread)))"

lemma busy_queue_reached: "queue_reaches busy_queue"
proof -
  let ?c = "(\<lambda>s. s\<lparr>the_queue := add_events [1, 2 :: nat] (the_queue s), added := added s @ [1, 2]\<rparr>, True)"
  let ?t = "threads queue_ops queue_calls" and ?w = "owner_call ?c (start_async_thread new_queue_thread)"
  have "?c \<in> queue_calls" by (auto simp: queue_calls_def)
  then have "?t (start_async_thread new_queue_thread) ?w"
    by (rule threads.call) (simp add: start_async_thread_def)
  moreover have "?t ?w (worker_step queue_ops ?w)" by (rule threads.run)
  moreover have "?t (worker_step queue_ops ?w) busy_queue" unfolding busy_queue_def by (rule threads.wait)
  ultimately show ?thesis by (meson rtranclp.rtrancl_refl rtranclp.rtrancl_into_rtrancl)
qed

lemmas busy_queue_simps = busy_queue_def wait_for_async_task_test_def worker_step_def owner_call_def
  start_async_thread_def new_queue_thread_def new_queue_def notify_all_def queue_thread_defs

lemma busy_queue_facts:
  "owner busy_queue = Wait_returned" "worker busy_queue = Busy" "\<not> done_flag busy_queue"
  "work_list (the_queue (shared busy_queue)) = [1, 2]" "events (the_queue (shared busy_queue)) = []"
  "added (shared busy_queue) = [1, 2]" "handled (shared busy_queue) = []"
  by (simp_all add: busy_queue_simps)

theorem queue_worker_drains_witness:
  "\<exists>n \<le> 6. let w' = (worker_step queue_ops ^^ n) busy_queue in
    worker w' = Worker_asleep \<and> handled (shared w') = [1, 2]
    \<and> owner (wait_for_async_task_test queue_ops w') = Wait_returned"
  using queue_worker_drains[OF busy_queue_reached busy_queue_facts(3)]
  by (simp add: busy_queue_facts queue_left_def)



end
