(* ===== verification/Rpc_Msg.thy ===== *)
theory Rpc_Msg
  imports Wire_Types
begin

text \<open>
  The headers of remote calls: the types of \<open>xdrpp/rpc_msg.x\<close> with the encoders and decoders that
  \<open>xdrc\<close> generates for structures and unions, the ready-made replies of \<open>xdrpp/server.cc\<close> and
  \<open>server.h\<close>, and the classification of replies in \<open>xdrpp/rpc_msg.cc\<close>.

  An enumeration is the word that is on the wire: the archives store it unchecked. A union is a
  datatype with one constructor per arm; the decoder throws \<open>xdr_bad_discriminant\<close> for a tag that
  selects none. The theory interprets \<open>xdr_codec\<close> on every type up to \<open>rpc_msg\<close> and shows that the
  ready-made replies are the encodings of the headers they stand for.
\<close>

section \<open>The types\<close>

definition AUTH_NONE :: "32 word" where "AUTH_NONE = 0"
definition CALL :: "32 word" where "CALL = 0"
definition REPLY :: "32 word" where "REPLY = 1"
definition MSG_ACCEPTED :: "32 word" where "MSG_ACCEPTED = 0"
definition MSG_DENIED :: "32 word" where "MSG_DENIED = 1"
definition SUCCESS :: "32 word" where "SUCCESS = 0"
definition PROG_UNAVAIL :: "32 word" where "PROG_UNAVAIL = 1"
definition PROG_MISMATCH :: "32 word" where "PROG_MISMATCH = 2"
definition PROC_UNAVAIL :: "32 word" where "PROC_UNAVAIL = 3"
definition GARBAGE_ARGS :: "32 word" where "GARBAGE_ARGS = 4"
definition SYSTEM_ERR :: "32 word" where "SYSTEM_ERR = 5"
definition RPC_MISMATCH :: "32 word" where "RPC_MISMATCH = 0"
definition AUTH_ERROR :: "32 word" where "AUTH_ERROR = 1"

lemmas rpc_enums = AUTH_NONE_def CALL_def REPLY_def MSG_ACCEPTED_def MSG_DENIED_def SUCCESS_def PROG_UNAVAIL_def
  PROG_MISMATCH_def PROC_UNAVAIL_def GARBAGE_ARGS_def SYSTEM_ERR_def RPC_MISMATCH_def AUTH_ERROR_def

record opaque_auth =
  flavor :: "32 word"
  auth_body :: bytes

record call_body =
  rpcvers :: "32 word"
  prog :: "32 word"
  vers :: "32 word"
  proc :: "32 word"
  cred :: opaque_auth
  verf :: opaque_auth

record mismatch_info =
  low :: "32 word"
  high :: "32 word"

text \<open>\<open>opaque results[0]\<close> holds no bytes; the default arm keeps its tag.\<close>

datatype reply_data = Results | Mismatch mismatch_info | No_results "32 word"

record accepted_reply =
  reply_verf :: opaque_auth
  reply_data :: reply_data

datatype rejected_reply = Rpc_mismatch mismatch_info | Auth_error "32 word"

datatype reply_body = Areply accepted_reply | Rreply rejected_reply

datatype rpc_body = Cbody call_body | Rbody reply_body

record rpc_msg =
  xid :: "32 word"
  rpc_body :: rpc_body

text \<open>\<open>reply_data.stat()\<close>.\<close>

fun accept_stat :: "reply_data \<Rightarrow> 32 word" where
  "accept_stat Results = SUCCESS"
| "accept_stat (Mismatch _) = PROG_MISMATCH"
| "accept_stat (No_results stat) = stat"

section \<open>Encoders and decoders\<close>

definition save_auth :: "opaque_auth \<Rightarrow> bytes" where
  "save_auth a = put32 (flavor a) @ put_opaque_vec (auth_body a)"

definition load_auth :: "bytes \<Rightarrow> (opaque_auth \<times> bytes) result" where
  "load_auth p =
     rbind (xdr_get_u32 p) (\<lambda>(f, p).
     rbind (get_opaque_vec 400 p) (\<lambda>(b, p). Inr (\<lparr>flavor = f, auth_body = b\<rparr>, p)))"

definition size_auth :: "opaque_auth \<Rightarrow> nat" where
  "size_auth a = 4 + opaque_vec_size (auth_body a)"

definition wf_auth :: "opaque_auth \<Rightarrow> bool" where
  "wf_auth a \<longleftrightarrow> length (auth_body a) \<le> 400"

definition save_call_body :: "call_body \<Rightarrow> bytes" where
  "save_call_body c = put32 (rpcvers c) @ put32 (prog c) @ put32 (vers c) @ put32 (proc c)
     @ save_auth (cred c) @ save_auth (verf c)"

definition load_call_body :: "bytes \<Rightarrow> (call_body \<times> bytes) result" where
  "load_call_body p =
     rbind (xdr_get_u32 p) (\<lambda>(r, p).
     rbind (xdr_get_u32 p) (\<lambda>(g, p).
     rbind (xdr_get_u32 p) (\<lambda>(v, p).
     rbind (xdr_get_u32 p) (\<lambda>(c, p).
     rbind (load_auth p) (\<lambda>(a, p).
     rbind (load_auth p) (\<lambda>(b, p).
     Inr (\<lparr>rpcvers = r, prog = g, vers = v, proc = c, cred = a, verf = b\<rparr>, p)))))))"

definition size_call_body :: "call_body \<Rightarrow> nat" where
  "size_call_body c = 16 + size_auth (cred c) + size_auth (verf c)"

definition wf_call_body :: "call_body \<Rightarrow> bool" where
  "wf_call_body c \<longleftrightarrow> wf_auth (cred c) \<and> wf_auth (verf c)"

definition save_mismatch :: "mismatch_info \<Rightarrow> bytes" where
  "save_mismatch m = put32 (low m) @ put32 (high m)"

definition load_mismatch :: "bytes \<Rightarrow> (mismatch_info \<times> bytes) result" where
  "load_mismatch p =
     rbind (xdr_get_u32 p) (\<lambda>(l, p). rbind (xdr_get_u32 p) (\<lambda>(h, p). Inr (\<lparr>low = l, high = h\<rparr>, p)))"

fun save_reply_data :: "reply_data \<Rightarrow> bytes" where
  "save_reply_data Results = put32 SUCCESS"
| "save_reply_data (Mismatch m) = put32 PROG_MISMATCH @ save_mismatch m"
| "save_reply_data (No_results stat) = put32 stat"

definition load_reply_data :: "bytes \<Rightarrow> (reply_data \<times> bytes) result" where
  "load_reply_data p =
     rbind (xdr_get_u32 p) (\<lambda>(stat, p).
     if stat = SUCCESS then Inr (Results, p)
     else if stat = PROG_MISMATCH then rbind (load_mismatch p) (\<lambda>(m, p). Inr (Mismatch m, p))
     else Inr (No_results stat, p))"

fun size_reply_data :: "reply_data \<Rightarrow> nat" where
  "size_reply_data (Mismatch _) = 12"
| "size_reply_data _ = 4"

fun wf_reply_data :: "reply_data \<Rightarrow> bool" where
  "wf_reply_data (No_results stat) = (stat \<noteq> SUCCESS \<and> stat \<noteq> PROG_MISMATCH)"
| "wf_reply_data _ = True"

fun save_rejected :: "rejected_reply \<Rightarrow> bytes" where
  "save_rejected (Rpc_mismatch m) = put32 RPC_MISMATCH @ save_mismatch m"
| "save_rejected (Auth_error why) = put32 AUTH_ERROR @ put32 why"

definition load_rejected :: "bytes \<Rightarrow> (rejected_reply \<times> bytes) result" where
  "load_rejected p =
     rbind (xdr_get_u32 p) (\<lambda>(stat, p).
     if stat = RPC_MISMATCH then rbind (load_mismatch p) (\<lambda>(m, p). Inr (Rpc_mismatch m, p))
     else if stat = AUTH_ERROR then rbind (xdr_get_u32 p) (\<lambda>(w, p). Inr (Auth_error w, p))
     else Inl Xdr_bad_discriminant)"

fun size_rejected :: "rejected_reply \<Rightarrow> nat" where
  "size_rejected (Rpc_mismatch _) = 12"
| "size_rejected (Auth_error _) = 8"

fun save_reply_body :: "reply_body \<Rightarrow> bytes" where
  "save_reply_body (Areply a) = put32 MSG_ACCEPTED @ save_auth (reply_verf a) @ save_reply_data (reply_data a)"
| "save_reply_body (Rreply r) = put32 MSG_DENIED @ save_rejected r"

definition load_reply_body :: "bytes \<Rightarrow> (reply_body \<times> bytes) result" where
  "load_reply_body p =
     rbind (xdr_get_u32 p) (\<lambda>(stat, p).
     if stat = MSG_ACCEPTED then
       rbind (load_auth p) (\<lambda>(v, p).
       rbind (load_reply_data p) (\<lambda>(d, p). Inr (Areply \<lparr>reply_verf = v, reply_data = d\<rparr>, p)))
     else if stat = MSG_DENIED then rbind (load_rejected p) (\<lambda>(r, p). Inr (Rreply r, p))
     else Inl Xdr_bad_discriminant)"

fun size_reply_body :: "reply_body \<Rightarrow> nat" where
  "size_reply_body (Areply a) = 4 + size_auth (reply_verf a) + size_reply_data (reply_data a)"
| "size_reply_body (Rreply r) = 4 + size_rejected r"

fun wf_reply_body :: "reply_body \<Rightarrow> bool" where
  "wf_reply_body (Areply a) = (wf_auth (reply_verf a) \<and> wf_reply_data (reply_data a))"
| "wf_reply_body (Rreply r) = True"

fun save_rpc_body :: "rpc_body \<Rightarrow> bytes" where
  "save_rpc_body (Cbody c) = put32 CALL @ save_call_body c"
| "save_rpc_body (Rbody r) = put32 REPLY @ save_reply_body r"

definition load_rpc_body :: "bytes \<Rightarrow> (rpc_body \<times> bytes) result" where
  "load_rpc_body p =
     rbind (xdr_get_u32 p) (\<lambda>(mtype, p).
     if mtype = CALL then rbind (load_call_body p) (\<lambda>(c, p). Inr (Cbody c, p))
     else if mtype = REPLY then rbind (load_reply_body p) (\<lambda>(r, p). Inr (Rbody r, p))
     else Inl Xdr_bad_discriminant)"

fun size_rpc_body :: "rpc_body \<Rightarrow> nat" where
  "size_rpc_body (Cbody c) = 4 + size_call_body c"
| "size_rpc_body (Rbody r) = 4 + size_reply_body r"

fun wf_rpc_body :: "rpc_body \<Rightarrow> bool" where
  "wf_rpc_body (Cbody c) = wf_call_body c"
| "wf_rpc_body (Rbody r) = wf_reply_body r"

definition save_rpc_msg :: "rpc_msg \<Rightarrow> bytes" where
  "save_rpc_msg m = put32 (xid m) @ save_rpc_body (rpc_body m)"

definition load_rpc_msg :: "bytes \<Rightarrow> (rpc_msg \<times> bytes) result" where
  "load_rpc_msg p =
     rbind (xdr_get_u32 p) (\<lambda>(x, p). rbind (load_rpc_body p) (\<lambda>(b, p). Inr (\<lparr>xid = x, rpc_body = b\<rparr>, p)))"

definition size_rpc_msg :: "rpc_msg \<Rightarrow> nat" where
  "size_rpc_msg m = 4 + size_rpc_body (rpc_body m)"

definition wf_rpc_msg :: "rpc_msg \<Rightarrow> bool" where
  "wf_rpc_msg m \<longleftrightarrow> wf_rpc_body (rpc_body m)"

section \<open>Every type is a codec\<close>

interpretation auth_codec: xdr_codec save_auth load_auth size_auth wf_auth
proof unfold_locales
  fix a rest assume w: "wf_auth a"
  then have "get_opaque_vec 400 (put_opaque_vec (auth_body a) @ rest) = Inr (auth_body a, rest)"
    by (intro get_opaque_vec_put) (auto simp: wf_auth_def)
  then show "load_auth (save_auth a @ rest) = Inr (a, rest)" by (simp add: load_auth_def save_auth_def)
  show "length (save_auth a) = size_auth a" by (simp add: save_auth_def size_auth_def opaque_vec_size_put)
  show "4 dvd size_auth a" by (auto simp: size_auth_def opaque_vec_size_def)
next
  fix p v q assume "load_auth p = Inr (v, q)"
  then show "wf_auth v \<and> p = save_auth v @ q"
    by (auto simp: load_auth_def save_auth_def wf_auth_def result_simps
        dest!: xdr_get_u32_canonical get_opaque_vec_canonical)
qed

interpretation call_body_codec: xdr_codec save_call_body load_call_body size_call_body wf_call_body
proof unfold_locales
  fix c rest assume w: "wf_call_body c"
  then show "load_call_body (save_call_body c @ rest) = Inr (c, rest)"
    by (simp add: load_call_body_def save_call_body_def wf_call_body_def auth_codec.load_save)
  from w show "length (save_call_body c) = size_call_body c"
    by (simp add: save_call_body_def size_call_body_def wf_call_body_def auth_codec.length_save)
  from w show "4 dvd size_call_body c"
    by (auto simp: size_call_body_def wf_call_body_def intro!: dvd_add auth_codec.size_aligned)
next
  fix p v q assume "load_call_body p = Inr (v, q)"
  then show "wf_call_body v \<and> p = save_call_body v @ q"
    by (auto simp: load_call_body_def save_call_body_def wf_call_body_def result_simps
        dest!: xdr_get_u32_canonical auth_codec.load_canonical)
qed

interpretation mismatch_codec: xdr_codec save_mismatch load_mismatch "\<lambda>_. 8" "\<lambda>_. True"
  by unfold_locales (auto simp: load_mismatch_def save_mismatch_def result_simps dest!: xdr_get_u32_canonical)

interpretation reply_data_codec: xdr_codec save_reply_data load_reply_data size_reply_data wf_reply_data
proof unfold_locales
  fix d rest assume w: "wf_reply_data d"
  then show "load_reply_data (save_reply_data d @ rest) = Inr (d, rest)"
    by (cases d) (simp_all add: load_reply_data_def mismatch_codec.load_save rpc_enums)
  show "length (save_reply_data d) = size_reply_data d" by (cases d) (simp_all add: mismatch_codec.length_save)
  show "4 dvd size_reply_data d" by (cases d) simp_all
next
  fix p v q assume "load_reply_data p = Inr (v, q)"
  then show "wf_reply_data v \<and> p = save_reply_data v @ q"
    by (auto simp: load_reply_data_def result_simps split: if_splits
        dest!: xdr_get_u32_canonical mismatch_codec.load_canonical)
qed

interpretation rejected_codec: xdr_codec save_rejected load_rejected size_rejected "\<lambda>_. True"
proof unfold_locales
  fix r rest
  show "load_rejected (save_rejected r @ rest) = Inr (r, rest)"
    by (cases r) (simp_all add: load_rejected_def mismatch_codec.load_save rpc_enums)
  show "length (save_rejected r) = size_rejected r" by (cases r) (simp_all add: mismatch_codec.length_save)
  show "4 dvd size_rejected r" by (cases r) simp_all
next
  fix p v q assume "load_rejected p = Inr (v, q)"
  then show "True \<and> p = save_rejected v @ q"
    by (auto simp: load_rejected_def result_simps split: if_splits
        dest!: xdr_get_u32_canonical mismatch_codec.load_canonical)
qed

interpretation reply_body_codec: xdr_codec save_reply_body load_reply_body size_reply_body wf_reply_body
proof unfold_locales
  fix r rest assume w: "wf_reply_body r"
  then show "load_reply_body (save_reply_body r @ rest) = Inr (r, rest)"
    by (cases r) (simp_all add: load_reply_body_def auth_codec.load_save reply_data_codec.load_save
        rejected_codec.load_save rpc_enums)
  from w show "length (save_reply_body r) = size_reply_body r"
    by (cases r) (simp_all add: auth_codec.length_save reply_data_codec.length_save rejected_codec.length_save)
  from w show "4 dvd size_reply_body r"
    by (cases r) (auto intro!: dvd_add auth_codec.size_aligned reply_data_codec.size_aligned rejected_codec.size_aligned)
next
  fix p v q assume "load_reply_body p = Inr (v, q)"
  then show "wf_reply_body v \<and> p = save_reply_body v @ q"
    by (auto simp: load_reply_body_def result_simps split: if_splits dest!: xdr_get_u32_canonical
        auth_codec.load_canonical reply_data_codec.load_canonical rejected_codec.load_canonical)
qed

interpretation rpc_body_codec: xdr_codec save_rpc_body load_rpc_body size_rpc_body wf_rpc_body
proof unfold_locales
  fix b rest assume w: "wf_rpc_body b"
  then show "load_rpc_body (save_rpc_body b @ rest) = Inr (b, rest)"
    by (cases b) (simp_all add: load_rpc_body_def call_body_codec.load_save reply_body_codec.load_save rpc_enums)
  from w show "length (save_rpc_body b) = size_rpc_body b"
    by (cases b) (simp_all add: call_body_codec.length_save reply_body_codec.length_save)
  from w show "4 dvd size_rpc_body b"
    by (cases b) (auto intro!: dvd_add call_body_codec.size_aligned reply_body_codec.size_aligned)
next
  fix p v q assume "load_rpc_body p = Inr (v, q)"
  then show "wf_rpc_body v \<and> p = save_rpc_body v @ q"
    by (auto simp: load_rpc_body_def result_simps split: if_splits dest!: xdr_get_u32_canonical
        call_body_codec.load_canonical reply_body_codec.load_canonical)
qed

interpretation rpc_msg_codec: xdr_codec save_rpc_msg load_rpc_msg size_rpc_msg wf_rpc_msg
proof unfold_locales
  fix m rest assume w: "wf_rpc_msg m"
  then show "load_rpc_msg (save_rpc_msg m @ rest) = Inr (m, rest)"
    by (simp add: load_rpc_msg_def save_rpc_msg_def wf_rpc_msg_def rpc_body_codec.load_save)
  from w show "length (save_rpc_msg m) = size_rpc_msg m"
    by (simp add: save_rpc_msg_def size_rpc_msg_def wf_rpc_msg_def rpc_body_codec.length_save)
  from w show "4 dvd size_rpc_msg m"
    by (auto simp: size_rpc_msg_def wf_rpc_msg_def intro!: dvd_add rpc_body_codec.size_aligned)
next
  fix p v q assume "load_rpc_msg p = Inr (v, q)"
  then show "wf_rpc_msg v \<and> p = save_rpc_msg v @ q"
    by (auto simp: load_rpc_msg_def save_rpc_msg_def wf_rpc_msg_def result_simps
        dest!: xdr_get_u32_canonical rpc_body_codec.load_canonical)
qed

section \<open>The ready-made replies\<close>

definition rpc_success_hdr :: "32 word \<Rightarrow> bytes" where
  "rpc_success_hdr x = put32 x @ put32 REPLY @ put32 MSG_ACCEPTED @ put32 AUTH_NONE @ put32 0 @ put32 SUCCESS"

definition rpc_accepted_error_msg :: "32 word \<Rightarrow> 32 word \<Rightarrow> bytes result" where
  "rpc_accepted_error_msg x stat =
     (if stat = SUCCESS \<or> stat = PROG_MISMATCH then Inl (Undefined_behaviour ''assert stat'')
      else Inr (put32 x @ put32 REPLY @ put32 MSG_ACCEPTED @ put32 AUTH_NONE @ put32 0 @ put32 stat))"

definition rpc_prog_mismatch_msg :: "32 word \<Rightarrow> 32 word \<Rightarrow> 32 word \<Rightarrow> bytes" where
  "rpc_prog_mismatch_msg x lo hi =
     put32 x @ put32 REPLY @ put32 MSG_ACCEPTED @ put32 AUTH_NONE @ put32 0 @ put32 PROG_MISMATCH @ put32 lo @ put32 hi"

definition rpc_auth_error_msg :: "32 word \<Rightarrow> 32 word \<Rightarrow> bytes" where
  "rpc_auth_error_msg x stat = put32 x @ put32 REPLY @ put32 MSG_DENIED @ put32 AUTH_ERROR @ put32 stat"

definition rpc_rpc_mismatch_msg :: "32 word \<Rightarrow> bytes" where
  "rpc_rpc_mismatch_msg x = put32 x @ put32 REPLY @ put32 MSG_DENIED @ put32 RPC_MISMATCH @ put32 2 @ put32 2"

text \<open>They are the encodings of these headers.\<close>

definition no_auth :: opaque_auth where
  "no_auth = \<lparr>flavor = AUTH_NONE, auth_body = []\<rparr>"

definition accepted :: "32 word \<Rightarrow> reply_data \<Rightarrow> rpc_msg" where
  "accepted x d = \<lparr>xid = x, rpc_body = Rbody (Areply \<lparr>reply_verf = no_auth, reply_data = d\<rparr>)\<rparr>"

definition denied :: "32 word \<Rightarrow> rejected_reply \<Rightarrow> rpc_msg" where
  "denied x r = \<lparr>xid = x, rpc_body = Rbody (Rreply r)\<rparr>"

lemma save_no_auth: "save_auth no_auth = put32 AUTH_NONE @ put32 0"
  by (simp add: save_auth_def no_auth_def put_opaque_vec_def put_bytes_def size32_def)

lemma wf_replies [simp]:
  "wf_rpc_msg (accepted x d) = wf_reply_data d" "wf_rpc_msg (denied x r)"
  by (simp_all add: wf_rpc_msg_def accepted_def denied_def no_auth_def wf_auth_def)

lemma save_accepted:
  "save_rpc_msg (accepted x d) = put32 x @ put32 REPLY @ put32 MSG_ACCEPTED @ put32 AUTH_NONE @ put32 0 @ save_reply_data d"
  by (simp add: save_rpc_msg_def accepted_def save_no_auth)

lemma save_denied: "save_rpc_msg (denied x r) = put32 x @ put32 REPLY @ put32 MSG_DENIED @ save_rejected r"
  by (simp add: save_rpc_msg_def denied_def)

lemma ready_made_replies:
  "rpc_success_hdr x = save_rpc_msg (accepted x Results)"
  "rpc_accepted_error_msg x stat = Inr m \<Longrightarrow> m = save_rpc_msg (accepted x (No_results stat)) \<and> wf_reply_data (No_results stat)"
  "rpc_prog_mismatch_msg x lo hi = save_rpc_msg (accepted x (Mismatch \<lparr>low = lo, high = hi\<rparr>))"
  "rpc_auth_error_msg x stat = save_rpc_msg (denied x (Auth_error stat))"
  "rpc_rpc_mismatch_msg x = save_rpc_msg (denied x (Rpc_mismatch \<lparr>low = 2, high = 2\<rparr>))"
  by (auto simp: rpc_success_hdr_def rpc_accepted_error_msg_def rpc_prog_mismatch_msg_def rpc_auth_error_msg_def
      rpc_rpc_mismatch_msg_def save_accepted save_denied save_mismatch_def split: if_splits)

section \<open>What a reply says (\<open>rpc_msg.cc\<close>)\<close>

text \<open>Written out in the order of the cases.\<close>

definition accept_errmsg :: "32 word \<Rightarrow> string" where
  "accept_errmsg ev =
     (if ev = SUCCESS then ''RPC executed successfully''
      else if ev = PROG_UNAVAIL then ''remote hasn't exported program''
      else if ev = PROG_MISMATCH then ''remote can't support version #''
      else if ev = PROC_UNAVAIL then ''program can't support procedure''
      else if ev = GARBAGE_ARGS then ''procedure can't decode params''
      else if ev = SYSTEM_ERR then ''RPC system error''
      else ''unknown accept_stat error'')"

definition auth_errmsgs :: "string list" where
  "auth_errmsgs = [''success'', ''bad credential (seal broken)'', ''client must begin new session'',
     ''bad verifier (seal broken)'', ''verifier expired or replayed'', ''rejected for security reasons'',
     ''bogus response verifier'', ''reason unknown'', ''kerberos generic error'', ''time of credential expired'',
     ''problem with ticket file'', ''can't decode authenticator'', ''wrong net address in ticket'',
     ''no credentials for user'', ''problem with context'']"

definition auth_errmsg :: "32 word \<Rightarrow> string" where
  "auth_errmsg ev = (if unat ev < length auth_errmsgs then auth_errmsgs ! unat ev else ''auth_stat error'')"

datatype rpc_call_stat =
    ACCEPT_STAT "32 word"
  | AUTH_STAT "32 word"
  | RPCVERS_MISMATCH
  | GARBAGE_RES
  | NETWORK_ERROR
  | BAD_ALLOC

definition call_stat_of :: "rpc_msg \<Rightarrow> rpc_call_stat" where
  "call_stat_of hdr =
     (case rpc_body hdr of
        Rbody (Areply a) \<Rightarrow> ACCEPT_STAT (accept_stat (reply_data a))
      | Rbody (Rreply (Rpc_mismatch _)) \<Rightarrow> RPCVERS_MISMATCH
      | Rbody (Rreply (Auth_error why)) \<Rightarrow> AUTH_STAT why
      | Cbody _ \<Rightarrow> GARBAGE_RES)"

fun call_stat_ok :: "rpc_call_stat \<Rightarrow> bool" where
  "call_stat_ok (ACCEPT_STAT s) = (s = SUCCESS)"
| "call_stat_ok _ = False"

fun call_stat_message :: "rpc_call_stat \<Rightarrow> string" where
  "call_stat_message (ACCEPT_STAT s) = accept_errmsg s"
| "call_stat_message (AUTH_STAT s) = auth_errmsg s"
| "call_stat_message RPCVERS_MISMATCH = ''server reported rpcvers field with wrong value''"
| "call_stat_message GARBAGE_RES = ''unable to unmarshal reply value sent by server''"
| "call_stat_message NETWORK_ERROR = ''network error when communicating with server''"
| "call_stat_message BAD_ALLOC = ''insufficient memory to unmarshal result''"

definition check_call_hdr :: "rpc_msg \<Rightarrow> unit result" where
  "check_call_hdr hdr =
     (case rpc_body hdr of
        Cbody _ \<Rightarrow> Inl (Xdr_runtime_error ''call received when reply expected'')
      | Rbody (Areply a) \<Rightarrow>
          if accept_stat (reply_data a) = SUCCESS then Inr ()
          else Inl (Xdr_call_error (call_stat_message (ACCEPT_STAT (accept_stat (reply_data a)))))
      | Rbody (Rreply (Auth_error why)) \<Rightarrow> Inl (Xdr_call_error (call_stat_message (AUTH_STAT why)))
      | Rbody (Rreply (Rpc_mismatch _)) \<Rightarrow> Inl (Xdr_call_error (call_stat_message RPCVERS_MISMATCH)))"

text \<open>The two classifications of a header, that of the exceptions and that of \<open>rpc_call_stat\<close>, agree.\<close>

lemma check_call_hdr_stat:
  "check_call_hdr hdr = Inr () \<longleftrightarrow> call_stat_ok (call_stat_of hdr)"
  "check_call_hdr hdr = Inl (Xdr_call_error e) \<Longrightarrow> e = call_stat_message (call_stat_of hdr)"
  by (auto simp: check_call_hdr_def call_stat_of_def split: rpc_body.splits reply_body.splits rejected_reply.splits if_splits)

lemma check_accepted:
  "check_call_hdr (accepted x d) = (if accept_stat d = SUCCESS then Inr () else Inl (Xdr_call_error (accept_errmsg (accept_stat d))))"
  by (simp add: check_call_hdr_def accepted_def)

lemma check_denied: "check_call_hdr (denied x (Rpc_mismatch m)) = Inl (Xdr_call_error (call_stat_message RPCVERS_MISMATCH))"
  by (simp add: check_call_hdr_def denied_def)

text \<open>The exceptions that derive from \<open>xdr_runtime_error\<close>.\<close>

fun is_xdr_runtime_error :: "error \<Rightarrow> bool" where
  "is_xdr_runtime_error Xdr_overflow = True"
| "is_xdr_runtime_error Xdr_stack_overflow = True"
| "is_xdr_runtime_error Xdr_bad_message_size = True"
| "is_xdr_runtime_error Xdr_should_be_zero = True"
| "is_xdr_runtime_error Xdr_bad_discriminant = True"
| "is_xdr_runtime_error (Xdr_runtime_error _) = True"
| "is_xdr_runtime_error (Xdr_call_error _) = True"
| "is_xdr_runtime_error Xdr_system_error = True"
| "is_xdr_runtime_error _ = False"

end
