(* ===== verification/Rpc_Stream.thy ===== *)
theory Rpc_Stream
  imports Rpc_Msg
begin

unbundle bit_operations_syntax

text \<open>
  Messages on a stream socket: the buffers of \<open>xdrpp/message.h\<close> and \<open>marshal.cc\<close>, the blocking reads
  and writes of \<open>srpc.cc\<close>, and the non-blocking reader and writer \<open>msg_sock\<close> of \<open>msgsock.cc\<close>, whose
  state is a record.

  What arrives on a socket is a list: pieces of data as the network delivers them, then perhaps the
  end of the stream or an error. A read takes at most one piece. The theory shows that the way the
  stream is cut into pieces does not matter: the reader calls back with exactly the messages that
  were written, and what the writer has put on the wire is at every moment a prefix of the stream of
  messages it was given. It also shows two defects: the check of the length in \<open>read_message\<close> looks at
  the wrong byte, and a writer whose first write would block never writes again.
\<close>

section \<open>Messages\<close>

text \<open>A message is its data; \<open>raw_data\<close> puts the length word in front, with the bit of the last fragment set.\<close>

definition raw_header :: "nat \<Rightarrow> bytes" where
  "raw_header sz = le_store32 (swap32 (size32 sz OR 0x80000000))"

definition raw_message :: "bytes \<Rightarrow> bytes" where
  "raw_message m = raw_header (length m) @ m"

definition message_alloc :: "nat \<Rightarrow> bytes result" where
  "message_alloc sz =
     (if sz < 0x80000000 then Inr (raw_header sz @ replicate sz 0) else Inl (Undefined_behaviour ''assert size''))"

text \<open>\<open>message_t::shrink\<close> on the sz, the length word being rewritten.\<close>

definition message_shrink :: "nat \<Rightarrow> bytes \<Rightarrow> bytes result" where
  "message_shrink newsize m = (if newsize > length m then Inl Out_of_range else Inr (take newsize m))"

text \<open>\<open>xdr_to_msg\<close>: \<open>sz\<close> is what \<open>xdr_argpack_size\<close> computes, \<open>bs\<close> what the archive writes.\<close>

definition xdr_to_msg :: "nat \<Rightarrow> bytes \<Rightarrow> bytes result" where
  "xdr_to_msg sz bs =
     rbind (message_alloc sz) (\<lambda>_.
     if length bs > sz then Inl Xdr_overflow
     else if length bs < sz then Inl (Undefined_behaviour ''assert p.p_ == p.e_'') else Inr bs)"

lemma length_raw_header [simp]: "length (raw_header n) = 4"
  by (simp add: raw_header_def)

lemma length_raw_message [simp]: "length (raw_message m) = 4 + length m"
  by (simp add: raw_message_def)

text \<open>The parts of the length word.\<close>

lemma bit_top: "bit (0x80000000 :: 32 word) i \<longleftrightarrow> i = 31"
proof -
  have "bit (push_bit 31 1 :: 32 word) i \<longleftrightarrow> i = 31"
    by (simp only: bit_push_bit_iff bit_1_iff) auto
  then show ?thesis by simp
qed

lemma bit_below_top: "bit (0x7fffffff :: 32 word) i \<longleftrightarrow> i < 31"
proof -
  have "bit (mask 31 :: 32 word) i \<longleftrightarrow> i < 31" by (simp only: bit_mask_iff) auto
  then show ?thesis by (simp add: mask_eq_exp_minus_1)
qed

lemma length_word:
  assumes "n < 0x80000000"
  shows "(size32 n OR 0x80000000) AND 0x80000000 \<noteq> 0" and "unat ((size32 n OR 0x80000000) AND 0x7fffffff) = n"
proof -
  have "\<not> bit n 31" using assms by (simp add: bit_iff_odd)
  then have top: "\<not> bit (size32 n) 31" by (simp add: size32_def bit_of_nat_iff)
  have "bit ((size32 n OR 0x80000000) AND 0x80000000) 31" by (simp only: bit_and_iff bit_or_iff bit_top simp_thms)
  then show "(size32 n OR 0x80000000) AND 0x80000000 \<noteq> 0" by (metis bit_0_eq bot_apply bot_bool_def)
  have "(size32 n OR 0x80000000) AND 0x7fffffff = size32 n"
  proof (rule bit_word_eqI)
    fix i assume "i < LENGTH(32)"
    then have "i < 31 \<or> i = 31" by auto
    then show "bit ((size32 n OR 0x80000000) AND 0x7fffffff) i = bit (size32 n) i"
      using top by (auto simp only: bit_and_iff bit_or_iff bit_top bit_below_top simp_thms)
  qed
  then show "unat ((size32 n OR 0x80000000) AND 0x7fffffff) = n" using assms by simp
qed

lemma le_load_raw_header: "le_load32 (raw_header n @ rest) = swap32 (size32 n OR 0x80000000)"
  by (simp add: raw_header_def)

section \<open>What arrives\<close>

datatype arrival = Arrived bytes | Hangup | Fault

datatype read_result = Data bytes | Again | Eof | Failed

text \<open>A read that does not block, of at most \<open>cap\<close> bytes.\<close>

fun sock_read :: "nat \<Rightarrow> arrival list \<Rightarrow> read_result \<times> arrival list" where
  "sock_read cap [] = (Again, [])"
| "sock_read cap (Hangup # src) = (Eof, Hangup # src)"
| "sock_read cap (Fault # src) = (Failed, Fault # src)"
| "sock_read cap (Arrived bs # src) =
     (if bs = [] then sock_read cap src
      else if length bs \<le> cap then (Data bs, src) else (Data (take cap bs), Arrived (drop cap bs) # src))"

text \<open>\<open>fullread\<close>: \<open>None\<close> is the result -1; a blocking read of a stream that stays open waits.\<close>

fun fullread :: "nat \<Rightarrow> arrival list \<Rightarrow> (bytes option \<times> arrival list) result" where
  "fullread 0 src = Inr (Some [], src)"
| "fullread (Suc n) [] = Inl Out_of_fuel"
| "fullread (Suc n) (Hangup # src) = Inr (Some [], Hangup # src)"
| "fullread (Suc n) (Fault # src) = Inr (None, Fault # src)"
| "fullread (Suc n) (Arrived bs # src) =
     (if length bs > Suc n then Inr (Some (take (Suc n) bs), Arrived (drop (Suc n) bs) # src)
      else rbind (fullread (Suc n - length bs) src) (\<lambda>(r, src). Inr (map_option ((@) bs) r, src)))"

section \<open>Blocking messages (\<open>srpc.cc\<close>)\<close>

definition read_message :: "arrival list \<Rightarrow> (bytes \<times> arrival list) result" where
  "read_message src =
     rbind (fullread 4 src) (\<lambda>(h, src).
     case h of None \<Rightarrow> Inl Xdr_system_error
     | Some h \<Rightarrow>
       if length h < 4 then Inl Xdr_bad_message_size
       else let len = le_load32 h in
       if len AND 3 \<noteq> 0 then Inl Xdr_bad_message_size
       else let len = swap32 len in
       if len AND 0x80000000 = 0 then Inl Xdr_bad_message_size
       else let len = unat (len AND 0x7fffffff) in
       rbind (fullread len src) (\<lambda>(m, src).
       case m of None \<Rightarrow> Inl Xdr_system_error
       | Some m \<Rightarrow> if length m \<noteq> len then Inl Xdr_bad_message_size else Inr (m, src)))"

text \<open>\<open>n\<close> is the result of \<open>write\<close>, \<open>out\<close> what has been written to the socket.\<close>

definition write_message :: "int \<Rightarrow> bytes \<Rightarrow> bytes \<Rightarrow> bytes result" where
  "write_message n m out =
     (if n = -1 then Inl Xdr_system_error
      else if n \<noteq> int (length (raw_message m)) then Inl (Undefined_behaviour ''assert n == raw_size'')
      else Inr (out @ raw_message m))"

section \<open>\<open>msg_sock\<close>\<close>

text \<open>
  The input half: \<open>nextlen\<close> is the memory of the next length word, \<open>rdmsg\<close> that of the message being
  read, \<open>rdpos\<close> how much of either has been read. \<open>rcb_calls\<close> is the history of the calls of \<open>rcb_\<close>,
  \<open>None\<close> for the null pointer that reports the end. The output half is the queue of raw messages with
  its size, how much of the first is written, whether writing has failed and whether \<open>output\<close> is
  registered with the poll set.
\<close>

record msg_sock =
  maxmsglen :: nat
  nextlen :: bytes
  rdmsg :: "bytes option"
  rdpos :: nat
  destroyed :: bool
  reading :: bool
  rcb_calls :: "bytes option list"
  wqueue :: "bytes list"
  wsize :: nat
  wstart :: nat
  wfail :: bool
  write_cb :: bool

definition new_msg_sock :: "nat \<Rightarrow> bytes \<Rightarrow> msg_sock" where
  "new_msg_sock maxlen memory = \<lparr>maxmsglen = maxlen, nextlen = memory, rdmsg = None, rdpos = 0, destroyed = False,
     reading = True, rcb_calls = [], wqueue = [], wsize = 0, wstart = 0, wfail = False, write_cb = False\<rparr>"

definition default_maxmsglen :: nat where "default_maxmsglen = 0xa000000"

text \<open>The surroundings: whether the callback destroys the object, and whether memory can be had.\<close>

record sock_env =
  kills :: "bytes option \<Rightarrow> bool"
  can_alloc :: "nat \<Rightarrow> bool"

definition call_rcb :: "sock_env \<Rightarrow> bytes option \<Rightarrow> msg_sock \<Rightarrow> msg_sock" where
  "call_rcb env m s = s\<lparr>rcb_calls := rcb_calls s @ [m], destroyed := kills env m\<rparr>"

definition put_at :: "nat \<Rightarrow> bytes \<Rightarrow> bytes \<Rightarrow> bytes" where
  "put_at i bs memory = take i memory @ bs @ drop (i + length bs) memory"

text \<open>The second half of the loop of \<open>input\<close>: a complete length word starts a message. The flag is whether the
loop goes on.\<close>

definition next_length :: "sock_env \<Rightarrow> msg_sock \<Rightarrow> bool \<times> msg_sock" where
  "next_length env s =
     (if rdmsg s \<noteq> None \<or> rdpos s < 4 then (False, s)
      else let len = swap32 (le_load32 (nextlen s)) in
      if len AND 0x80000000 = 0 then (False, call_rcb env None s)
      else let len = unat (len AND 0x7fffffff) in
      if len = 0 then (True, call_rcb env (Some []) (s\<lparr>rdpos := 0\<rparr>))
      else if len \<le> maxmsglen s \<and> can_alloc env len then (True, s\<lparr>rdmsg := Some (replicate len 0), rdpos := 0\<rparr>)
      else (True, call_rcb env None (if len \<le> maxmsglen s then s else s\<lparr>reading := False\<rparr>)))"

text \<open>The first half: one \<open>read\<close> of the length word, or one \<open>readv\<close> of the rest of the message and the next
length word.\<close>

definition input_body :: "sock_env \<Rightarrow> arrival list \<Rightarrow> msg_sock \<Rightarrow> bool \<times> arrival list \<times> msg_sock" where
  "input_body env src s =
     (case rdmsg s of
        Some memory \<Rightarrow>
          (let k = length memory - rdpos s; (r, src) = sock_read (k + 4) src in
           case r of
             Again \<Rightarrow> (False, src, s)
           | Data bs \<Rightarrow>
               let memory = put_at (rdpos s) (take k bs) memory; rdpos' = rdpos s + length bs;
                   s = s\<lparr>nextlen := put_at 0 (drop k bs) (nextlen s)\<rparr> in
               if rdpos' \<ge> length memory then
                 let s = call_rcb env (Some memory) (s\<lparr>rdmsg := None, rdpos := rdpos' - length memory\<rparr>) in
                 if destroyed s then (False, src, s)
                 else let (go, s) = next_length env s in (go, src, s)
               else let (go, s) = next_length env (s\<lparr>rdmsg := Some memory, rdpos := rdpos'\<rparr>) in (go, src, s)
           | _ \<Rightarrow> (False, src, call_rcb env None s))
      | None \<Rightarrow>
          if rdpos s < 4 then
            (let (r, src) = sock_read (4 - rdpos s) src in
             case r of
               Again \<Rightarrow> (False, src, s)
             | Data bs \<Rightarrow>
                 let (go, s) = next_length env (s\<lparr>nextlen := put_at (rdpos s) bs (nextlen s), rdpos := rdpos s + length bs\<rparr>)
                 in (go, src, s)
             | _ \<Rightarrow> (False, src, call_rcb env None s))
          else let (go, s) = next_length env s in (go, src, s))"

fun input_loop :: "sock_env \<Rightarrow> nat \<Rightarrow> arrival list \<times> msg_sock \<Rightarrow> arrival list \<times> msg_sock" where
  "input_loop env 0 (src, s) = (src, s)"
| "input_loop env (Suc i) (src, s) =
     (if destroyed s then (src, s)
      else case input_body env src s of (go, src, s) \<Rightarrow> if go then input_loop env i (src, s) else (src, s))"

definition msg_input :: "sock_env \<Rightarrow> arrival list \<times> msg_sock \<Rightarrow> arrival list \<times> msg_sock" where
  "msg_input env = input_loop env 3"

text \<open>The output half. A result of \<open>writev\<close> is how much it took, or its errors.\<close>

datatype write_result = Wrote nat | Write_again | Write_failed

fun pop_loop :: "nat \<Rightarrow> bytes list \<Rightarrow> (nat \<times> bytes list) result" where
  "pop_loop n q =
     (if n = 0 then Inr (0, q)
      else case q of
        [] \<Rightarrow> Inl (Undefined_behaviour ''front of an empty deque'')
      | m # q' \<Rightarrow> if n \<ge> length m then pop_loop (n - length m) q' else Inr (n, m # q'))"

declare pop_loop.simps [simp del]

definition pop_wbytes :: "nat \<Rightarrow> msg_sock \<Rightarrow> msg_sock result" where
  "pop_wbytes n s =
     (if n = 0 then Inr s
      else if n > wsize s then Inl (Undefined_behaviour ''assert n <= wsize_'')
      else case wqueue s of
        [] \<Rightarrow> Inl (Undefined_behaviour ''front of an empty deque'')
      | m # q \<Rightarrow>
          let s = s\<lparr>wsize := wsize s - n\<rparr>; frontbytes = length m - wstart s in
          if n < frontbytes then Inr (s\<lparr>wstart := wstart s + n\<rparr>)
          else rbind (pop_loop (n - frontbytes) q) (\<lambda>(n, q). Inr (s\<lparr>wqueue := q, wstart := n\<rparr>)))"

text \<open>The vector has at most eight entries, the first without what is written already.\<close>

definition offered :: "msg_sock \<Rightarrow> bytes" where
  "offered s = drop (wstart s) (concat (take 8 (wqueue s)))"

definition msg_output :: "bool \<Rightarrow> write_result \<Rightarrow> msg_sock \<Rightarrow> (bytes \<times> msg_sock) result" where
  "msg_output cbset r s =
     (case r of
        Write_again \<Rightarrow> Inr ([], s)
      | Wrote n \<Rightarrow>
          let bs = take n (offered s) in
          if bs = [] then Inr ([], s\<lparr>wfail := True, wsize := 0, wstart := 0, wqueue := []\<rparr>)
          else rbind (pop_wbytes (length bs) s) (\<lambda>s.
            Inr (bs, if wsize s > 0 \<and> \<not> cbset then s\<lparr>write_cb := True\<rparr>
                     else if wsize s = 0 \<and> cbset then s\<lparr>write_cb := False\<rparr> else s))
      | Write_failed \<Rightarrow> Inr ([], s\<lparr>wfail := True, wsize := 0, wstart := 0, wqueue := []\<rparr>))"

definition putmsg :: "bytes \<Rightarrow> write_result \<Rightarrow> msg_sock \<Rightarrow> (bytes \<times> msg_sock) result" where
  "putmsg m r s =
     (if wfail s then Inr ([], s)
      else
        let was_empty = (wsize s = 0);
            s = s\<lparr>wsize := wsize s + length (raw_message m), wqueue := wqueue s @ [raw_message m]\<rparr> in
        if was_empty then msg_output False r s else Inr ([], s))"

text \<open>A life of the output half: messages put, and calls of \<open>output\<close> by the poll set while it is registered.\<close>

datatype write_event = Put bytes write_result | Writable write_result

fun write_step :: "write_event \<Rightarrow> bytes \<times> msg_sock \<Rightarrow> (bytes \<times> msg_sock) result" where
  "write_step (Put m r) (wire, s) = rbind (putmsg m r s) (\<lambda>(bs, s). Inr (wire @ bs, s))"
| "write_step (Writable r) (wire, s) =
     (if write_cb s then rbind (msg_output True r s) (\<lambda>(bs, s). Inr (wire @ bs, s)) else Inr (wire, s))"

section \<open>Reading\<close>

lemma sock_read_arrived:
  assumes "0 < cap" and "concat segs \<noteq> []"
  obtains bs segs' where "sock_read cap (map Arrived segs) = (Data bs, map Arrived segs')" and "bs \<noteq> []"
    and "length bs \<le> cap" and "concat segs = bs @ concat segs'"
  using assms
proof (induction segs arbitrary: thesis)
  case (Cons seg segs)
  show ?case
  proof (cases "seg = []")
    case True
    then show ?thesis using Cons.IH Cons.prems by auto
  next
    case False
    then show ?thesis
      using Cons.prems(1)[of seg segs] Cons.prems(1)[of "take cap seg" "drop cap seg # segs"] Cons.prems(2)
      by (cases "length seg \<le> cap") auto
  qed
qed simp

lemma sock_read_none: "concat segs = [] \<Longrightarrow> sock_read cap (map Arrived segs) = (Again, [])"
  by (induction segs) auto

lemma fullread_arrived:
  "n \<le> length (concat segs) \<Longrightarrow>
    \<exists>segs'. fullread n (map Arrived segs) = Inr (Some (take n (concat segs)), map Arrived segs')
      \<and> concat segs' = drop n (concat segs)"
proof (induction segs arbitrary: n)
  case Nil
  then show ?case by (auto intro: exI[of _ "[]"])
next
  case (Cons seg segs)
  show ?case
  proof (cases n)
    case 0
    then show ?thesis by (auto intro: exI[of _ "seg # segs"])
  next
    case (Suc k)
    show ?thesis
    proof (cases "length seg > n")
      case True
      then show ?thesis using Suc by (intro exI[of _ "drop n seg # segs"]) simp
    next
      case False
      then have "n - length seg \<le> length (concat segs)" using Cons.prems by simp
      from Cons.IH[OF this] obtain segs' where
        "fullread (n - length seg) (map Arrived segs) = Inr (Some (take (n - length seg) (concat segs)), map Arrived segs')"
        "concat segs' = drop (n - length seg) (concat segs)" by blast
      then show ?thesis using Suc False by (intro exI[of _ segs']) simp
    qed
  qed
qed

text \<open>The test of \<open>read_message\<close> comes before the byte swap: it looks at the bits 24 and 25 of the length.\<close>

lemma unswapped_test:
  assumes "n < 0x80000000"
  shows "swap32 (size32 n OR 0x80000000) AND 3 = 0 \<longleftrightarrow> n div 0x1000000 mod 4 = 0"
proof -
  let ?w = "size32 n OR 0x80000000"
  have b: "bit (swap32 ?w) m = bit n (24 + m)" if "m < 2" for m
  proof -
    have "bit (swap32 ?w) (8 * 0 + m) = bit ?w (8 * (3 - 0) + m)" using that by (intro bit_swap32) auto
    also have "\<dots> = bit (size32 n) (24 + m)" using that by (simp only: bit_or_iff bit_top) auto
    also have "\<dots> = bit n (24 + m)" using that by (simp add: size32_def bit_of_nat_iff)
    finally show ?thesis by simp
  qed
  have two: "(1 :: nat) < 2" by simp
  have three: "(3 :: 32 word) = mask 2" by (simp add: mask_eq_exp_minus_1)
  have bits: "bit (v AND 3) i \<longleftrightarrow> i < 2 \<and> bit v i" for v :: "32 word" and i
    unfolding three by (auto simp only: bit_and_iff bit_mask_iff) auto
  have "v AND 3 = 0 \<longleftrightarrow> \<not> bit v 0 \<and> \<not> bit v 1" for v :: "32 word"
  proof
    assume "v AND 3 = 0"
    then have "\<not> bit (v AND 3) 0" "\<not> bit (v AND 3) 1" by simp_all
    then show "\<not> bit v 0 \<and> \<not> bit v 1" unfolding bits by simp
  next
    assume v: "\<not> bit v 0 \<and> \<not> bit v 1"
    have "\<not> bit (v AND 3) i" for i
      using v less_2_cases[of i] unfolding bits One_nat_def by blast
    then show "v AND 3 = 0" by (intro bit_word_eqI) (simp only: bit_0_eq bot_apply bot_bool_def simp_thms)
  qed
  then have "swap32 ?w AND 3 = 0 \<longleftrightarrow> \<not> bit (swap32 ?w) 0 \<and> \<not> bit (swap32 ?w) 1" .
  also have "\<dots> \<longleftrightarrow> \<not> bit n (24 + 0) \<and> \<not> bit n (24 + 1)" by (simp only: b[of 0, OF zero_less_numeral] b[of 1, OF two])
  also have "\<dots> \<longleftrightarrow> even (n div 0x1000000) \<and> even (n div 0x2000000)"
    by (simp only: bit_iff_odd) simp
  also have "n div 0x2000000 = n div 0x1000000 div 2" by (simp add: div_mult2_eq[symmetric])
  also have "even q \<and> even (q div 2) \<longleftrightarrow> q mod 4 = 0" for q :: nat by presburger
  finally show ?thesis .
qed

lemma read_raw_message:
  assumes "length m < 0x80000000" and "concat segs = raw_message m @ rest"
  shows "if length m div 0x1000000 mod 4 = 0
    then \<exists>segs'. read_message (map Arrived segs) = Inr (m, map Arrived segs') \<and> concat segs' = rest
    else read_message (map Arrived segs) = Inl Xdr_bad_message_size"
proof -
  let ?n = "length m"
  obtain s1 where s1: "fullread 4 (map Arrived segs) = Inr (Some (raw_header ?n), map Arrived s1)" "concat s1 = m @ rest"
    using fullread_arrived[of 4 segs] assms(2) by (auto simp: raw_message_def)
  obtain s2 where s2: "fullread ?n (map Arrived s1) = Inr (Some m, map Arrived s2)" "concat s2 = rest"
    using fullread_arrived[of ?n s1] s1(2) by auto
  have w: "le_load32 (raw_header ?n) = swap32 (size32 ?n OR 0x80000000)" using le_load_raw_header[of ?n "[]"] by simp
  note l = length_word[OF assms(1)]
  show ?thesis
    using s1(1) s2 l(1) unswapped_test[OF assms(1)] by (auto simp: read_message_def Let_def w l(2) simp del: fullread.simps)
qed

section \<open>The reader delivers the messages\<close>

text \<open>What has been read of the next message.\<close>

definition partial_read :: "msg_sock \<Rightarrow> bytes" where
  "partial_read s = (case rdmsg s of None \<Rightarrow> take (rdpos s) (nextlen s)
     | Some memory \<Rightarrow> raw_header (length memory) @ take (rdpos s) memory)"

definition readable :: "sock_env \<Rightarrow> nat \<Rightarrow> bytes \<Rightarrow> bool" where
  "readable env maxlen m \<longleftrightarrow> length m \<le> maxlen \<and> length m < 0x80000000 \<and> can_alloc env (length m) \<and> \<not> kills env (Some m)"

text \<open>Between the halves of the loop: the length word may be complete.\<close>

definition reader_mid :: "sock_env \<Rightarrow> bytes list \<Rightarrow> bytes \<Rightarrow> bytes list \<Rightarrow> bytes list \<Rightarrow> msg_sock \<Rightarrow> bool" where
  "reader_mid env all rest ms todo s \<longleftrightarrow> all = ms @ todo \<and> rcb_calls s = map Some ms \<and> \<not> destroyed s \<and> reading s
     \<and> length (nextlen s) = 4 \<and> partial_read s @ rest = concat (map raw_message todo)
     \<and> list_all (readable env (maxmsglen s)) all
     \<and> (case rdmsg s of None \<Rightarrow> rdpos s \<le> 4
        | Some memory \<Rightarrow> rdpos s < length memory \<and> todo \<noteq> [] \<and> length memory = length (hd todo))"

definition reader_inv :: "sock_env \<Rightarrow> bytes list \<Rightarrow> bytes \<Rightarrow> msg_sock \<Rightarrow> bool" where
  "reader_inv env all rest s \<longleftrightarrow> (\<exists>ms todo. reader_mid env all rest ms todo s) \<and> (rdmsg s = None \<longrightarrow> rdpos s < 4)"

lemma next_length_inv:
  assumes mid: "reader_mid env all rest ms todo s" and n: "next_length env s = (go, s')"
  shows "reader_inv env all rest s'"
proof (cases "rdmsg s \<noteq> None \<or> rdpos s < 4")
  case True
  then show ?thesis using mid n by (auto simp: next_length_def reader_inv_def)
next
  case False
  then have s: "rdmsg s = None" "rdpos s = 4" using mid by (auto simp: reader_mid_def)
  then have e: "nextlen s @ rest = concat (map raw_message todo)" "length (nextlen s) = 4"
    using mid by (auto simp: reader_mid_def partial_read_def)
  then obtain m t where t: "todo = m # t" by (cases todo) auto
  then have h: "nextlen s = raw_header (length m)" "rest = m @ concat (map raw_message t)"
    using e by (auto simp: raw_message_def append_eq_append_conv)
  have r: "readable env (maxmsglen s) m" "all = ms @ m # t" using mid t by (auto simp: reader_mid_def)
  then have l: "length m < 0x80000000" by (simp add: readable_def)
  have w: "swap32 (le_load32 (nextlen s)) = size32 (length m) OR 0x80000000"
    using le_load_raw_header[of "length m" "[]"] h(1) by simp
  note lw = length_word[OF l]
  show ?thesis
  proof (cases "m = []")
    case True
    let ?s = "call_rcb env (Some []) (s\<lparr>rdpos := 0\<rparr>)"
    have "s' = ?s" using n s lw True by (simp add: next_length_def w Let_def)
    moreover have "reader_mid env all rest (ms @ [m]) t ?s"
      using mid s t h True by (auto simp: reader_mid_def partial_read_def call_rcb_def readable_def)
    ultimately show ?thesis using s by (auto simp: reader_inv_def call_rcb_def)
  next
    case False
    let ?s = "s\<lparr>rdmsg := Some (replicate (length m) 0), rdpos := 0\<rparr>"
    have "s' = ?s" using n s lw False r(1) by (simp add: next_length_def w Let_def readable_def)
    moreover have "reader_mid env all rest ms todo ?s"
      using mid s t h False by (auto simp: reader_mid_def partial_read_def raw_message_def)
    ultimately show ?thesis by (auto simp: reader_inv_def)
  qed
qed

lemma length_put_at: "i + length bs \<le> length buf \<Longrightarrow> length (put_at i bs buf) = length buf"
  by (simp add: put_at_def)

lemma take_put_at: "i \<le> length buf \<Longrightarrow> take (i + length bs) (put_at i bs buf) = take i buf @ bs"
  by (simp add: put_at_def)

text \<open>What the first half leaves for the second.\<close>

lemma read_length_mid:
  assumes mid: "reader_mid env all (bs @ rest) ms todo s" and "rdmsg s = None" and "rdpos s + length bs \<le> 4"
  shows "reader_mid env all rest ms todo (s\<lparr>nextlen := put_at (rdpos s) bs (nextlen s), rdpos := rdpos s + length bs\<rparr>)"
  using assms by (auto simp: reader_mid_def partial_read_def length_put_at take_put_at)

lemma read_part_mid:
  assumes mid: "reader_mid env all (bs @ rest) ms todo s" and "rdmsg s = Some memory" and "rdpos s + length bs < length memory"
  shows "reader_mid env all rest ms todo (s\<lparr>rdmsg := Some (put_at (rdpos s) bs memory), rdpos := rdpos s + length bs\<rparr>)"
  using assms by (auto simp: reader_mid_def partial_read_def length_put_at take_put_at)

lemma read_end_mid:
  assumes mid: "reader_mid env all (bs @ rest) ms todo s" and m: "rdmsg s = Some memory"
    and l: "length memory \<le> rdpos s + length bs" "rdpos s + length bs \<le> length memory + 4"
  defines "k \<equiv> length memory - rdpos s"
  shows "reader_mid env all rest (ms @ [hd todo]) (tl todo) (call_rcb env (Some (put_at (rdpos s) (take k bs) memory))
    (s\<lparr>nextlen := put_at 0 (drop k bs) (nextlen s), rdmsg := None, rdpos := rdpos s + length bs - length memory\<rparr>))"
proof -
  obtain x t where t: "todo = x # t" "length x = length memory" "rdpos s < length memory"
    using mid m by (cases todo) (auto simp: reader_mid_def)
  have e: "take (rdpos s) memory @ bs @ rest = x @ concat (map raw_message t)"
    using mid m t by (simp add: reader_mid_def partial_read_def raw_message_def)
  have k: "k \<le> length bs" "rdpos s + k = length memory" using l t by (simp_all add: k_def)
  have "(take (rdpos s) memory @ take k bs) @ drop k bs @ rest = x @ concat (map raw_message t)"
    using e by (simp only: append_assoc append_take_drop_id flip: append_assoc[of "take k bs"])
  moreover have "length (take (rdpos s) memory @ take k bs) = length x" using k t by simp
  ultimately have x: "x = take (rdpos s) memory @ take k bs" "drop k bs @ rest = concat (map raw_message t)"
    by (metis append_eq_append_conv)+
  have p: "put_at (rdpos s) (take k bs) memory = x" using x(1) k t by (simp add: put_at_def)
  have n: "rdpos s + length bs - length memory = length (drop k bs)" using k by simp
  have d: "length (drop k bs) \<le> 4" using l n by linarith
  have "take (length (drop k bs)) (put_at 0 (drop k bs) (nextlen s)) = drop k bs"
    by (simp add: put_at_def)
  moreover have "length (put_at 0 (drop k bs) (nextlen s)) = 4"
    using mid d by (subst length_put_at) (auto simp: reader_mid_def)
  ultimately show ?thesis
    unfolding p n using mid m t x(2) d by (auto simp: reader_mid_def partial_read_def call_rcb_def readable_def)
qed

lemma input_body_inv:
  assumes inv: "reader_inv env all (concat segs) s"
  obtains go segs' s' where "input_body env (map Arrived segs) s = (go, map Arrived segs', s')"
    and "reader_inv env all (concat segs') s'"
    and "concat segs \<noteq> [] \<longrightarrow> length (concat segs') < length (concat segs)" and "concat segs = [] \<longrightarrow> concat segs' = []"
proof -
  obtain ms todo where mid: "reader_mid env all (concat segs) ms todo s" using inv by (auto simp: reader_inv_def)
  define cap where "cap = (case rdmsg s of None \<Rightarrow> 4 - rdpos s | Some memory \<Rightarrow> length memory - rdpos s + 4)"
  have cap: "0 < cap" using inv by (auto simp: cap_def reader_inv_def split: option.split)
  show ?thesis
  proof (cases "concat segs = []")
    case True
    have "input_body env (map Arrived segs) s = (False, map Arrived [], s)"
      using inv sock_read_none[OF True] by (auto simp: input_body_def reader_inv_def Let_def split: option.split)
    then show ?thesis using that[of False "[]" s] inv True by simp
  next
    case False
    obtain bs segs' where r: "sock_read cap (map Arrived segs) = (Data bs, map Arrived segs')" "bs \<noteq> []"
      "length bs \<le> cap" and c: "concat segs = bs @ concat segs'"
      by (rule sock_read_arrived[OF cap False])
    have less: "length (concat segs') < length (concat segs)" using r(2) c by (simp add: length_greater_0_conv)
    note mid' = mid[unfolded c]
    note result = that
    have finish: ?thesis
      if b: "input_body env (map Arrived segs) s = (fst (next_length env t), map Arrived segs', snd (next_length env t))"
        and t: "reader_mid env all (concat segs') ms' todo' t" for t ms' todo'
    proof (rule result[OF b])
      show "reader_inv env all (concat segs') (snd (next_length env t))"
        by (rule next_length_inv[OF t prod.collapse[symmetric]])
    qed (use less False in blast)+
    show ?thesis
    proof (cases "rdmsg s")
      case None
      then have p: "rdpos s < 4" "cap = 4 - rdpos s" using inv by (auto simp: reader_inv_def cap_def)
      show ?thesis
        by (rule finish[OF _ read_length_mid[OF mid' None]]) (use r p None in \<open>auto simp: input_body_def split: prod.split\<close>)
    next
      case (Some memory)
      let ?k = "length memory - rdpos s"
      have p: "rdpos s < length memory" "cap = ?k + 4" using mid Some by (simp_all add: reader_mid_def cap_def)
      note r1 = r(1)[unfolded p(2)]
      have r2: "sock_read (length memory + 4 - rdpos s) (map Arrived segs) = (Data bs, map Arrived segs')"
        using r1 p(1) by simp
      have l: "rdpos s + length bs \<le> length memory + 4" using r(3) p by simp
      show ?thesis
      proof (cases "length memory \<le> rdpos s + length bs")
        case True
        note m = read_end_mid[OF mid' Some True l]
        have "\<not> destroyed (call_rcb env (Some (put_at (rdpos s) (take ?k bs) memory))
          (s\<lparr>nextlen := put_at 0 (drop ?k bs) (nextlen s), rdmsg := None, rdpos := rdpos s + length bs - length memory\<rparr>))"
          using m by (simp add: reader_mid_def)
        moreover have "length (put_at (rdpos s) (take ?k bs) memory) = length memory"
          using p by (simp add: length_put_at)
        ultimately show ?thesis
          by (intro finish[OF _ m]) (simp add: input_body_def Some r1 Let_def True split: prod.split)
      next
        case False
        then have "take ?k bs = bs" "drop ?k bs = []" by simp_all
        moreover have "length (put_at (rdpos s) bs memory) = length memory" using False by (simp add: length_put_at)
        moreover have "put_at 0 [] (nextlen s) = nextlen s" by (simp add: put_at_def)
        ultimately show ?thesis using False
          by (intro finish[OF _ read_part_mid[OF mid' Some]]) (simp_all add: input_body_def Some r1 r2 Let_def split: prod.split)
      qed
    qed
  qed
qed

lemma input_loop_inv:
  assumes "reader_inv env all (concat segs) s"
  shows "\<exists>segs' s'. input_loop env n (map Arrived segs, s) = (map Arrived segs', s') \<and> reader_inv env all (concat segs') s'
    \<and> length (concat segs') \<le> length (concat segs)
    \<and> (0 < n \<and> concat segs \<noteq> [] \<longrightarrow> length (concat segs') < length (concat segs))"
  using assms
proof (induction n arbitrary: segs s)
  case 0
  then show ?case by auto
next
  case (Suc n)
  have d: "\<not> destroyed s" using Suc.prems by (auto simp: reader_inv_def reader_mid_def)
  obtain go segs1 s1 where b: "input_body env (map Arrived segs) s = (go, map Arrived segs1, s1)"
    and i: "reader_inv env all (concat segs1) s1"
    and l: "concat segs \<noteq> [] \<longrightarrow> length (concat segs1) < length (concat segs)" "concat segs = [] \<longrightarrow> concat segs1 = []"
    by (rule input_body_inv[OF Suc.prems])
  have l': "length (concat segs1) \<le> length (concat segs)" using l by (metis less_imp_le order_refl)
  show ?case
  proof (cases go)
    case False
    then show ?thesis using b i d l l' by (intro exI[of _ segs1] exI[of _ s1]) simp
  next
    case True
    from Suc.IH[OF i] obtain segs2 s2 where
      r: "input_loop env n (map Arrived segs1, s1) = (map Arrived segs2, s2)" "reader_inv env all (concat segs2) s2"
      and l2: "length (concat segs2) \<le> length (concat segs1)" by blast
    have "input_loop env (Suc n) (map Arrived segs, s) = (map Arrived segs2, s2)" using b d True r(1) by simp
    moreover have "length (concat segs2) \<le> length (concat segs)" using l2 l' by linarith
    moreover have "concat segs \<noteq> [] \<longrightarrow> length (concat segs2) < length (concat segs)" using l(1) l2 by linarith
    ultimately show ?thesis using r(2) by blast
  qed
qed

lemma reader_inv_end: "reader_inv env all [] s \<Longrightarrow> rcb_calls s = map Some all \<and> rdmsg s = None \<and> rdpos s = 0"
proof -
  assume i: "reader_inv env all [] s"
  then obtain ms todo where mid: "reader_mid env all [] ms todo s" by (auto simp: reader_inv_def)
  then have p: "partial_read s = concat (map raw_message todo)" by (simp add: reader_mid_def)
  have "todo = []"
  proof (rule ccontr)
    assume "todo \<noteq> []"
    then have l: "length (concat (map raw_message todo)) \<ge> 4 + length (hd todo)" by (cases todo) auto
    show False
      using l mid i unfolding p[symmetric]
      by (cases "rdmsg s") (auto simp: partial_read_def reader_mid_def reader_inv_def)
  qed
  then show ?thesis
    using mid p i by (cases "rdmsg s") (auto simp: reader_mid_def partial_read_def)
qed

lemma msg_input_iterate:
  assumes "reader_inv env all (concat segs) s"
  shows "\<exists>segs' s'. (msg_input env ^^ n) (map Arrived segs, s) = (map Arrived segs', s') \<and> reader_inv env all (concat segs') s'
    \<and> length (concat segs') \<le> length (concat segs) - n"
proof (induction n)
  case 0
  then show ?case using assms by auto
next
  case (Suc n)
  then obtain segs1 s1 where 1: "(msg_input env ^^ n) (map Arrived segs, s) = (map Arrived segs1, s1)"
    "reader_inv env all (concat segs1) s1" "length (concat segs1) \<le> length (concat segs) - n" by blast
  obtain segs2 s2 where 2: "msg_input env (map Arrived segs1, s1) = (map Arrived segs2, s2)"
    "reader_inv env all (concat segs2) s2" "length (concat segs2) \<le> length (concat segs1)"
    "concat segs1 \<noteq> [] \<longrightarrow> length (concat segs2) < length (concat segs1)"
    using input_loop_inv[OF 1(2), of 3] by (auto simp: msg_input_def)
  have "length (concat segs1) \<noteq> 0 \<longrightarrow> length (concat segs2) < length (concat segs1)"
    using 2(4) by (simp only: length_0_conv not_False_eq_True simp_thms)
  then have "length (concat segs2) \<le> length (concat segs) - Suc n" using 1(3) 2(3) by linarith
  then show ?case using 1(1) 2 by (auto simp: comp_def)
qed

lemma msg_input_delivers:
  assumes "concat segs = concat (map raw_message ms)" and "list_all (readable env maxlen) ms" and "length memory = 4"
    and "length (concat segs) \<le> n"
  shows "\<exists>src s. (msg_input env ^^ n) (map Arrived segs, new_msg_sock maxlen memory) = (src, s) \<and> rcb_calls s = map Some ms
    \<and> \<not> destroyed s \<and> reading s \<and> rdmsg s = None \<and> rdpos s = 0"
proof -
  have "reader_mid env ms (concat segs) [] ms (new_msg_sock maxlen memory)"
    using assms(1-3) by (simp add: reader_mid_def partial_read_def new_msg_sock_def)
  then have "reader_inv env ms (concat segs) (new_msg_sock maxlen memory)"
    by (auto simp: reader_inv_def new_msg_sock_def)
  from msg_input_iterate[OF this, of n] obtain segs' s where
    i: "(msg_input env ^^ n) (map Arrived segs, new_msg_sock maxlen memory) = (map Arrived segs', s)"
    and r: "reader_inv env ms (concat segs') s" and "length (concat segs') \<le> length (concat segs) - n" by blast
  then have "length (concat segs') = 0" using assms(4) by linarith
  then have e: "concat segs' = []" by (simp only: length_0_conv)
  have "\<not> destroyed s" "reading s" using r by (auto simp: reader_inv_def reader_mid_def)
  then show ?thesis using reader_inv_end[OF r[unfolded e]] i by (intro exI[of _ "map Arrived segs'"] exI[of _ s]) simp
qed

section \<open>The writer\<close>

text \<open>\<open>msgs\<close> have been put, \<open>wire\<close> has been written, and what the queue still holds is the difference.\<close>

definition unsent :: "msg_sock \<Rightarrow> bytes" where
  "unsent s = drop (wstart s) (concat (wqueue s))"

definition writer_ok :: "bytes list \<Rightarrow> bytes \<Rightarrow> msg_sock \<Rightarrow> bool" where
  "writer_ok msgs wire s \<longleftrightarrow> wire @ unsent s = concat (map raw_message msgs) \<and> wsize s = length (unsent s)
     \<and> (case wqueue s of [] \<Rightarrow> wstart s = 0 | m # _ \<Rightarrow> wstart s < length m) \<and> list_all (\<lambda>m. m \<noteq> []) (wqueue s)"

lemma unsent_empty: "writer_ok msgs wire s \<Longrightarrow> unsent s = [] \<longleftrightarrow> wqueue s = []"
  by (cases "wqueue s") (auto simp: writer_ok_def unsent_def)

lemma pop_loop_drops:
  assumes "n \<le> length (concat q)" and "list_all (\<lambda>m. m \<noteq> []) q"
  shows "\<exists>k q'. pop_loop n q = Inr (k, q') \<and> drop k (concat q') = drop n (concat q)
    \<and> (case q' of [] \<Rightarrow> k = 0 | m # _ \<Rightarrow> k < length m) \<and> list_all (\<lambda>m. m \<noteq> []) q'"
  using assms
proof (induction n q rule: pop_loop.induct)
  case (1 n q)
  show ?case
  proof (cases "n = 0")
    case True
    then show ?thesis using "1.prems" by (cases q) (auto simp: pop_loop.simps)
  next
    case False
    then obtain m q1 where q: "q = m # q1" using "1.prems"(1) by (cases q) auto
    show ?thesis
    proof (cases "length m \<le> n")
      case True
      have "n - length m \<le> length (concat q1)" "list_all (\<lambda>m. m \<noteq> []) q1" using "1.prems" q by auto
      from "1.IH"[OF False q True this] show ?thesis
        using False q True by (subst pop_loop.simps) simp
    qed (use False q "1.prems" in \<open>auto simp: pop_loop.simps\<close>)
  qed
qed

lemma drop_length_plus: "drop (length xs + k) (xs @ ys) = drop k ys"
  by simp

lemma pop_wbytes_drops:
  assumes ok: "writer_ok msgs wire s" and n: "n \<le> length (unsent s)"
  shows "\<exists>s'. pop_wbytes n s = Inr s' \<and> writer_ok msgs (wire @ take n (unsent s)) s' \<and> wfail s' = wfail s \<and> write_cb s' = write_cb s"
proof (cases "n = 0")
  case True
  then show ?thesis using ok by (simp add: pop_wbytes_def)
next
  case False
  then obtain m q where q: "wqueue s = m # q" using n by (cases "wqueue s") (auto simp: unsent_def)
  have s: "wstart s < length m" "wsize s = length (unsent s)" "list_all (\<lambda>m. m \<noteq> []) q" "wire @ unsent s = concat (map raw_message msgs)"
    using ok q by (simp_all add: writer_ok_def)
  have w: "(wire @ take n (unsent s)) @ drop n (unsent s) = concat (map raw_message msgs)" using s(4) by simp
  have u: "unsent s = drop (wstart s) m @ concat q" using q s(1) by (simp add: unsent_def)
  show ?thesis
  proof (cases "n < length m - wstart s")
    case True
    let ?s = "s\<lparr>wsize := wsize s - n, wstart := wstart s + n\<rparr>"
    have "unsent ?s = drop (n + wstart s) (concat (wqueue s))" by (simp add: unsent_def add.commute)
    then have "unsent ?s = drop n (unsent s)" by (simp only: unsent_def drop_drop)
    then have "writer_ok msgs (wire @ take n (unsent s)) ?s" using w s q True ok by (simp add: writer_ok_def)
    then show ?thesis using False True n q s(2) by (simp add: pop_wbytes_def Let_def)
  next
    case False2: False
    let ?n = "n - (length m - wstart s)"
    have "?n \<le> length (concat q)" using n u by auto
    from pop_loop_drops[OF this s(3)] obtain k q' where p: "pop_loop ?n q = Inr (k, q')"
      "drop k (concat q') = drop ?n (concat q)" "case q' of [] \<Rightarrow> k = 0 | m # _ \<Rightarrow> k < length m"
      "list_all (\<lambda>m. m \<noteq> []) q'" by blast
    let ?s = "s\<lparr>wsize := wsize s - n, wqueue := q', wstart := k\<rparr>"
    have "n = length (drop (wstart s) m) + ?n" using False2 s(1) by simp
    then have "drop n (unsent s) = drop ?n (concat q)" unfolding u by (metis drop_length_plus)
    moreover have "unsent ?s = drop k (concat q')" by (simp add: unsent_def)
    ultimately have "unsent ?s = drop n (unsent s)" using p(2) by simp
    then have "writer_ok msgs (wire @ take n (unsent s)) ?s" using w s(2) p by (cases q') (simp_all add: writer_ok_def)
    then show ?thesis using False False2 n q s(2) p(1) by (simp add: pop_wbytes_def Let_def)
  qed
qed

lemma offered_unsent: "\<exists>rest. unsent s = offered s @ rest"
proof -
  have c: "concat (wqueue s) = concat (take 8 (wqueue s)) @ concat (drop 8 (wqueue s))"
    by (metis append_take_drop_id concat_append)
  show ?thesis unfolding unsent_def offered_def c drop_append by blast
qed

text \<open>The messages of a life, and the invariant of the writer with its failure.\<close>

fun puts :: "write_event list \<Rightarrow> bytes list" where
  "puts [] = []"
| "puts (Put m _ # es) = m # puts es"
| "puts (Writable _ # es) = puts es"

lemma puts_append: "puts (xs @ ys) = puts xs @ puts ys"
  by (induction xs rule: puts.induct) auto

definition writer_inv :: "bytes list \<Rightarrow> bytes \<times> msg_sock \<Rightarrow> bool" where
  "writer_inv msgs = (\<lambda>(wire, s). (if wfail s then wqueue s = [] \<and> (\<exists>rest. wire @ rest = concat (map raw_message msgs))
     else writer_ok msgs wire s))"

lemma writer_ok_cb: "writer_ok msgs wire (s\<lparr>write_cb := b\<rparr>) = writer_ok msgs wire s"
  by (cases "wqueue s") (simp_all add: writer_ok_def unsent_def)

lemma msg_output_inv:
  assumes "writer_inv msgs (wire, s)"
  shows "\<exists>bs s'. msg_output cbset r s = Inr (bs, s') \<and> writer_inv msgs (wire @ bs, s')"
proof -
  have prefix: "\<exists>rest. wire @ rest = concat (map raw_message msgs)"
    using assms by (auto simp: writer_inv_def writer_ok_def split: if_splits)
  show ?thesis
  proof (cases "wfail s")
    case True
    then have "offered s = []" using assms by (simp add: writer_inv_def offered_def)
    then show ?thesis using assms True prefix
      by (cases r) (auto simp: msg_output_def writer_inv_def)
  next
    case False
    then have ok: "writer_ok msgs wire s" using assms by (simp add: writer_inv_def)
    show ?thesis
    proof (cases r)
      case (Wrote n)
      let ?bs = "take n (offered s)"
      show ?thesis
      proof (cases "?bs = []")
        case True
        then show ?thesis using Wrote prefix by (auto simp: msg_output_def writer_inv_def)
      next
        case False2: False
        obtain rest where u: "unsent s = offered s @ rest" using offered_unsent by blast
        have l: "length ?bs \<le> length (unsent s)" "take (length ?bs) (unsent s) = ?bs"
          using u by (simp_all add: min_def)
        from pop_wbytes_drops[OF ok l(1)] obtain s' where s': "pop_wbytes (length ?bs) s = Inr s'"
          "writer_ok msgs (wire @ ?bs) s'" "wfail s' = wfail s" unfolding l(2) by blast
        have "writer_ok msgs (wire @ ?bs) (s'\<lparr>write_cb := b\<rparr>)" for b
          using s'(2) unfolding writer_ok_cb .
        then show ?thesis using Wrote False2 False s' by (simp add: msg_output_def Let_def writer_inv_def)
      qed
    qed (use assms False prefix in \<open>auto simp: msg_output_def writer_inv_def\<close>)
  qed
qed

lemma putmsg_inv:
  assumes "writer_inv msgs (wire, s)"
  shows "\<exists>bs s'. putmsg m r s = Inr (bs, s') \<and> writer_inv (msgs @ [m]) (wire @ bs, s')"
proof (cases "wfail s")
  case True
  then obtain rest where "wire @ rest = concat (map raw_message msgs)" using assms by (auto simp: writer_inv_def)
  then have "wire @ rest @ raw_message m = concat (map raw_message (msgs @ [m]))" by simp
  then have "writer_inv (msgs @ [m]) (wire, s)"
    using True assms unfolding writer_inv_def by (auto simp del: map_append concat_append)
  then show ?thesis using True by (simp add: putmsg_def)
next
  case False
  then have ok: "writer_ok msgs wire s" using assms by (simp add: writer_inv_def)
  let ?s = "s\<lparr>wsize := wsize s + length (raw_message m), wqueue := wqueue s @ [raw_message m]\<rparr>"
  have start: "wstart s \<le> length (concat (wqueue s))" using ok by (cases "wqueue s") (auto simp: writer_ok_def)
  then have "unsent ?s = unsent s @ raw_message m" by (simp add: unsent_def)
  moreover have "raw_message m \<noteq> []" by (simp add: raw_message_def flip: length_0_conv)
  ultimately have "writer_ok (msgs @ [m]) wire ?s"
    using ok by (cases "wqueue s") (auto simp: writer_ok_def)
  then have inv: "writer_inv (msgs @ [m]) (wire, ?s)" using False by (simp add: writer_inv_def)
  show ?thesis
    using msg_output_inv[OF inv, of False r] inv False by (cases "wsize s = 0") (simp_all add: putmsg_def Let_def)
qed

lemma write_step_inv:
  assumes "writer_inv msgs x"
  shows "\<exists>y. write_step e x = Inr y \<and> writer_inv (msgs @ puts [e]) y"
proof (cases x)
  case (Pair wire s)
  show ?thesis
  proof (cases e)
    case (Put m r)
    from putmsg_inv[OF assms[unfolded Pair], of m r] show ?thesis using Put Pair by auto
  next
    case (Writable r)
    from msg_output_inv[OF assms[unfolded Pair], of True r] show ?thesis using Writable Pair assms by auto
  qed
qed

lemma write_steps_inv:
  assumes "writer_inv msgs x"
  shows "\<exists>y. rfold write_step es x = Inr y \<and> writer_inv (msgs @ puts es) y"
  using assms
proof (induction es arbitrary: msgs x)
  case (Cons e es)
  from write_step_inv[OF Cons.prems, of e] obtain y where y: "write_step e x = Inr y" "writer_inv (msgs @ puts [e]) y"
    by blast
  from Cons.IH[OF y(2)] show ?case using y(1) puts_append[of "[e]" es] by simp
qed simp

lemma writer_inv_new: "writer_inv [] ([], new_msg_sock maxlen memory)"
  by (simp add: writer_inv_def writer_ok_def new_msg_sock_def unsent_def)

text \<open>Queued messages without a registered callback stay where they are.\<close>

lemma stalled_step:
  assumes "0 < wsize s" and "\<not> write_cb s" and "\<not> wfail s"
  shows "\<exists>s'. write_step e (wire, s) = Inr (wire, s') \<and> 0 < wsize s' \<and> \<not> write_cb s' \<and> \<not> wfail s'
    \<and> wsize s' = wsize s + length (concat (map raw_message (puts [e])))"
  using assms by (cases e) (auto simp: putmsg_def Let_def)

section \<open>Claims\<close>

text \<open>C13: messages cross the wire: when the writer has written all it was given, however much each call of \<open>writev\<close> took,
a reader at the other end, however the stream is cut into pieces, calls back with exactly these messages, in order.\<close>

theorem messages_cross_the_wire:
  assumes "rfold write_step es ([], new_msg_sock l memory) = Inr (wire, s)" and "\<not> wfail s" and "wsize s = 0"
    and "concat segs = wire" and "list_all (readable env maxlen) (puts es)" and "length memory' = 4" and "length wire \<le> n"
  shows "\<exists>src r. (msg_input env ^^ n) (map Arrived segs, new_msg_sock maxlen memory') = (src, r)
    \<and> rcb_calls r = map Some (puts es) \<and> \<not> destroyed r"
proof -
  have "writer_inv (puts es) (wire, s)"
    using write_steps_inv[OF writer_inv_new, of es l memory] assms(1) by simp
  then have "writer_ok (puts es) wire s" using assms(2) by (simp add: writer_inv_def)
  then have w: "wire @ unsent s = concat (map raw_message (puts es))" "wsize s = length (unsent s)"
    unfolding writer_ok_def by simp_all
  have "unsent s = []" using w(2) assms(3) by simp
  then have "concat segs = concat (map raw_message (puts es))" using w(1) assms(4) by simp
  from msg_input_delivers[OF this assms(5,6), of n] assms(4,7) show ?thesis by auto
qed

text \<open>Two messages, written and read in odd pieces.\<close>

definition sample_env :: sock_env where
  "sample_env = \<lparr>kills = (\<lambda>m. m = None), can_alloc = (\<lambda>_. True)\<rparr>"

theorem messages_cross_the_wire_witness:
  "\<exists>src r. (msg_input sample_env ^^ 14) (map Arrived [take 5 (raw_message [7] @ raw_message [8, 9]),
      drop 5 (raw_message [7] @ raw_message [8, 9])], new_msg_sock 100 [0, 0, 0, 0]) = (src, r)
    \<and> rcb_calls r = map Some [[7], [8, 9]] \<and> \<not> destroyed r"
proof -
  let ?es = "[Put [7] (Wrote 3), Put [8, 9] Write_again, Writable (Wrote 6), Writable (Wrote 2)]"
  have "\<exists>s. rfold write_step ?es ([], new_msg_sock 100 [0, 0, 0, 0]) = Inr (raw_message [7] @ raw_message [8, 9], s)
      \<and> \<not> wfail s \<and> wsize s = 0"
    by (simp add: new_msg_sock_def putmsg_def msg_output_def offered_def pop_wbytes_def pop_loop.simps raw_message_def
        raw_header_def le_store32_def Let_def)
  then obtain s where s: "rfold write_step ?es ([], new_msg_sock 100 [0, 0, 0, 0]) = Inr (raw_message [7] @ raw_message [8, 9], s)"
    "\<not> wfail s" "wsize s = 0" by blast
  have p: "puts ?es = [[7], [8, 9]]" by simp
  show ?thesis
    using messages_cross_the_wire[OF s(1), where segs = "[take 5 (raw_message [7] @ raw_message [8, 9]),
      drop 5 (raw_message [7] @ raw_message [8, 9])]" and env = sample_env and maxlen = 100 and memory' = "[0, 0, 0, 0]" and n = 14]
      s(2,3) unfolding p by (simp add: readable_def sample_env_def)
qed

text \<open>At every moment what is on the wire is a prefix of the stream of messages.\<close>

lemma wire_prefix:
  "\<exists>wire s rest. rfold write_step es ([], new_msg_sock l memory) = Inr (wire, s)
    \<and> wire @ rest = concat (map raw_message (puts es))"
  using write_steps_inv[OF writer_inv_new, of es l memory]
  by (auto simp: writer_inv_def writer_ok_def split: if_splits)

text \<open>C36: a writer whose queue is empty and whose first \<open>writev\<close> would block does not register for being called again: the
message and all that follow are queued and none of them is ever written.\<close>

theorem blocked_writer_stalls:
  assumes "\<not> wfail s" and "wsize s = 0" and "\<not> write_cb s"
  shows "\<exists>s'. rfold write_step (Put m Write_again # es) (wire, s) = Inr (wire, s')
    \<and> wsize s' = length (concat (map raw_message (m # puts es))) \<and> \<not> write_cb s'"
proof -
  let ?s = "s\<lparr>wsize := length (raw_message m), wqueue := wqueue s @ [raw_message m]\<rparr>"
  have first: "write_step (Put m Write_again) (wire, s) = Inr (wire, ?s)"
    using assms by (simp add: putmsg_def msg_output_def Let_def)
  have "\<exists>s'. rfold write_step es (wire, t) = Inr (wire, s') \<and> wsize s' = wsize t + length (concat (map raw_message (puts es)))
      \<and> \<not> write_cb s'" if "0 < wsize t" "\<not> write_cb t" "\<not> wfail t" for t
    using that
  proof (induction es arbitrary: t)
    case (Cons e es)
    from stalled_step[OF Cons.prems, of e wire] obtain t' where t': "write_step e (wire, t) = Inr (wire, t')" "0 < wsize t'"
      "\<not> write_cb t'" "\<not> wfail t'" "wsize t' = wsize t + length (concat (map raw_message (puts [e])))" by blast
    from Cons.IH[OF t'(2-4)] show ?case using t'(1,5) puts_append[of "[e]" es] by auto
  qed auto
  from this[of ?s] show ?thesis using first assms by (simp del: length_concat)
qed

theorem blocked_writer_stalls_witness:
  "\<exists>s'. rfold write_step [Put [1] Write_again, Put [2] (Wrote 9), Writable (Wrote 9)] ([], new_msg_sock 100 [0, 0, 0, 0])
      = Inr ([], s') \<and> wsize s' = length (concat (map raw_message [[1], [2]])) \<and> \<not> write_cb s'"
  using blocked_writer_stalls[of "new_msg_sock 100 [0, 0, 0, 0]" "[1]" "[Put [2] (Wrote 9), Writable (Wrote 9)]" "[]"]
  by (simp add: new_msg_sock_def del: rfold.simps write_step.simps)

end
