(* ===== verification/Rpc_Call.thy ===== *)
theory Rpc_Call
  imports Rpc_Server
begin

text \<open>
  Remote calls from end to end: the synchronous client of \<open>xdrpp/srpc.h\<close> and \<open>srpc.cc\<close> against the
  listener of \<open>server.cc\<close>. The theory shows that a call of a registered procedure runs its handler once
  on the argument and returns the result to the caller, however the two streams are cut into pieces, and
  that each way a call can be refused reaches the caller as the exception for it, the state of the server
  being untouched.
\<close>

section \<open>The synchronous client (\<open>srpc.h\<close>)\<close>

definition prepare_call :: "32 word \<Rightarrow> 32 word \<Rightarrow> 32 word \<Rightarrow> 32 word \<Rightarrow> 32 word \<times> rpc_msg" where
  "prepare_call prg vrs prc counter =
     (let counter = counter + 1 in
      (counter, \<lparr>xid = counter, rpc_body = Cbody \<lparr>rpcvers = 2, prog = prg, vers = vrs, proc = prc,
         cred = no_auth, verf = no_auth\<rparr>\<rparr>))"

text \<open>The part of \<open>invoke\<close> after \<open>read_message\<close>.\<close>

definition invoke_result :: "(bytes \<Rightarrow> ('r \<times> bytes) result) \<Rightarrow> 32 word \<Rightarrow> bytes \<Rightarrow> 'r result" where
  "invoke_result load x m =
     (if length m mod 4 \<noteq> 0 then Inl Xdr_bad_message_size
      else rbind (load_rpc_msg m) (\<lambda>(hdr, g).
        rbind (check_call_hdr hdr) (\<lambda>_.
        if xid hdr \<noteq> x then Inl (Xdr_runtime_error ''synchronous_client: unexpected xid'')
        else rbind (load g) (\<lambda>(r, p). if p \<noteq> [] then Inl Xdr_bad_message_size else Inr r))))"

text \<open>
  \<open>invoke\<close>: \<open>n\<close> is the result of \<open>write\<close>, \<open>peer\<close> what arrives on the socket after what was written to it.
  The counter is advanced also when an exception is thrown.
\<close>

definition srpc_invoke :: "32 word \<Rightarrow> 32 word \<Rightarrow> 32 word \<Rightarrow> ('a \<Rightarrow> nat) \<Rightarrow> ('a \<Rightarrow> bytes)
    \<Rightarrow> (bytes \<Rightarrow> ('r \<times> bytes) result) \<Rightarrow> 'a \<Rightarrow> int \<Rightarrow> (bytes \<Rightarrow> arrival list) \<Rightarrow> 32 word
    \<Rightarrow> 32 word \<times> ('r \<times> arrival list) result" where
  "srpc_invoke prg vrs prc serial_size save load a n peer counter =
     (let (counter, hdr) = prepare_call prg vrs prc counter in
      (counter,
       rbind (xdr_to_msg (size_rpc_msg hdr + serial_size a) (save_rpc_msg hdr @ save a)) (\<lambda>m.
       rbind (write_message n m []) (\<lambda>out.
       rbind (read_message (peer out)) (\<lambda>(m, src).
       rbind (invoke_result load (xid hdr) m) (\<lambda>r. Inr (r, src)))))))"

section \<open>Headers on the wire\<close>

definition call_hdr :: "32 word \<Rightarrow> 32 word \<Rightarrow> 32 word \<Rightarrow> 32 word \<Rightarrow> rpc_msg" where
  "call_hdr x prg vrs prc = \<lparr>xid = x, rpc_body = Cbody \<lparr>rpcvers = 2, prog = prg, vers = vrs, proc = prc,
     cred = no_auth, verf = no_auth\<rparr>\<rparr>"

lemma prepare_call_hdr: "prepare_call prg vrs prc counter = (counter + 1, call_hdr (counter + 1) prg vrs prc)"
  by (simp add: prepare_call_def call_hdr_def Let_def)

lemma wf_call_hdr [simp]: "wf_rpc_msg (call_hdr x prg vrs prc)"
  by (simp add: wf_rpc_msg_def call_hdr_def wf_call_body_def wf_auth_def no_auth_def)

lemma size_call_hdr [simp]: "size_rpc_msg (call_hdr x prg vrs prc) = 40"
  by (simp add: size_rpc_msg_def call_hdr_def size_call_body_def size_auth_def no_auth_def opaque_vec_size_def)

lemma length_call_hdr [simp]: "length (save_rpc_msg (call_hdr x prg vrs prc)) = 40"
  using rpc_msg_codec.length_save[OF wf_call_hdr] by simp

lemma call_hdr_words_at:
  "msg_word 0 (save_rpc_msg (call_hdr x prg vrs prc) @ g) = swap32 x"
  "msg_word 1 (save_rpc_msg (call_hdr x prg vrs prc) @ g) = swap32 CALL"
  by (simp_all add: msg_word_def save_rpc_msg_def call_hdr_def put32_def)

lemmas call_hdr_words = call_hdr_words_at call_hdr_words_at(2)[unfolded One_nat_def]

text \<open>What the client makes of a reply that the server accepted.\<close>

lemma invoke_accepted:
  assumes "wf_reply_data d" and "length g mod 4 = 0"
  shows "invoke_result load x (save_rpc_msg (accepted x d) @ g) =
    (if accept_stat d = SUCCESS then rbind (load g) (\<lambda>(r, p). if p \<noteq> [] then Inl Xdr_bad_message_size else Inr r)
     else Inl (Xdr_call_error (accept_errmsg (accept_stat d))))"
proof -
  have "length (save_rpc_msg (accepted x d)) mod 4 = 0"
    using rpc_msg_codec.size_aligned[of "accepted x d"] rpc_msg_codec.length_save[of "accepted x d"] assms by simp
  then have "length (save_rpc_msg (accepted x d) @ g) mod 4 = 0" using assms by (simp add: mod_add_eq[symmetric])
  then show ?thesis
    using assms(1) by (simp add: invoke_result_def rpc_msg_codec.load_save check_accepted)
      (simp add: accepted_def)
qed

section \<open>The listener and a call\<close>

text \<open>What \<open>dispatch\<close> does with a call, up to the procedure.\<close>

definition procedure_reply :: "'st service \<Rightarrow> 32 word \<Rightarrow> 32 word \<Rightarrow> bytes \<Rightarrow> 'st \<Rightarrow> 'st reply" where
  "procedure_reply sv x prc g st =
     (case sv_proc sv prc of
        None \<Rightarrow> ([Some (save_rpc_msg (accepted x (No_results PROC_UNAVAIL)))], None, st)
      | Some p \<Rightarrow>
          (case p x g st of
             (rs, None, st) \<Rightarrow> (rs, None, st)
           | (rs, Some e, st) \<Rightarrow>
               if is_xdr_runtime_error e then (rs @ [Some (save_rpc_msg (accepted x (No_results GARBAGE_ARGS)))], None, st)
               else (rs, Some e, st)))"

lemma dispatch_call:
  assumes "servers_ok servers" and "length g mod 4 = 0"
  shows "rpc_dispatch servers (save_rpc_msg (call_hdr x prg vrs prc) @ g) st =
    (case map_of servers prg of
       None \<Rightarrow> ([Some (save_rpc_msg (accepted x (No_results PROG_UNAVAIL)))], None, st)
     | Some versions \<Rightarrow>
         (case map_of versions vrs of
            None \<Rightarrow> ([Some (save_rpc_msg (accepted x (Mismatch \<lparr>low = fst (hd versions), high = fst (last versions)\<rparr>)))], None, st)
          | Some sv \<Rightarrow> procedure_reply sv x prc g st))"
proof -
  have "length (save_rpc_msg (call_hdr x prg vrs prc) @ g) mod 4 = 0" using assms(2) by (simp add: mod_add_eq[symmetric])
  moreover have "sv_prog sv = prg \<and> sv_vers sv = vrs" if "map_of servers prg = Some versions" "map_of versions vrs = Some sv"
    for versions sv using servers_ok_lookup(3)[OF assms(1) that(1)] that(2) by (auto dest: map_of_SomeD)
  ultimately show ?thesis
    by (auto simp: rpc_dispatch_def rpc_msg_codec.load_save call_hdr_def srpc_process_def check_call_def Let_def
        send_result_def garbage_reply ready_made_replies(3) procedure_reply_def wf_call_hdr[unfolded call_hdr_def]
        split: option.split prod.split)
qed

lemma connection_call_throws:
  assumes "rpc_dispatch servers (save_rpc_msg (call_hdr x prg vrs prc) @ g) st = ([], Some e, st')" and "\<not> is_xdr_runtime_error e"
  shows "connection_step servers (Some (save_rpc_msg (call_hdr x prg vrs prc) @ g)) (False, out, st) = Inl e"
  using assms by (simp add: connection_step_def recv_msg_accept call_hdr_words receive_cb_def)

lemma connection_call:
  assumes "rpc_dispatch servers (save_rpc_msg (call_hdr x prg vrs prc) @ g) st = ([Some reply], None, st')"
  shows "connection_step servers (Some (save_rpc_msg (call_hdr x prg vrs prc) @ g)) (False, out, st)
    = Inr (False, out @ [reply], st')"
  using assms by (simp add: connection_step_def recv_msg_accept call_hdr_words receive_cb_def)

text \<open>However the bytes of a call arrive, the listener handles this one message.\<close>

lemma listener_reads_call:
  assumes "length g mod 4 = 0" and "40 + length g \<le> default_maxmsglen" and "can (40 + length g)"
    and "concat segs = raw_message (save_rpc_msg (call_hdr x prg vrs prc) @ g)" and "length memory = 4" and "44 + length g \<le> n"
  shows "listener_answers can servers memory n (map Arrived segs) st
    = connection_step servers (Some (save_rpc_msg (call_hdr x prg vrs prc) @ g)) (False, [], st)"
proof -
  let ?m = "save_rpc_msg (call_hdr x prg vrs prc) @ g"
  have "(40 + length g) mod 4 = 0" using assms(1) by (simp add: mod_add_eq[symmetric])
  then have "readable (listener_env can) default_maxmsglen ?m"
    using assms(2,3) by (simp add: readable_def listener_env_def listener_kills_def call_hdr_words default_maxmsglen_def)
  then have r: "list_all (readable (listener_env can) default_maxmsglen) [?m]" by simp
  have c: "concat segs = concat (map raw_message [?m])" using assms(4) by simp
  have "length (concat segs) \<le> n" using assms(4,6) by simp
  from msg_input_delivers[OF c r assms(5) this] obtain src rd where
    "(msg_input (listener_env can) ^^ n) (map Arrived segs, new_msg_sock default_maxmsglen memory) = (src, rd)"
    "rcb_calls rd = [Some ?m]" by auto
  then show ?thesis by (simp add: listener_answers_def rfold_one del: rfold.simps)
qed

section \<open>The client and the listener together\<close>

text \<open>
  What arrives at a client whose bytes the listener reads: \<open>chop\<close> and \<open>chop'\<close> say how the network cuts the
  call and the replies.
\<close>

definition listener_peer :: "(nat \<Rightarrow> bool) \<Rightarrow> 'st servers \<Rightarrow> bytes \<Rightarrow> nat \<Rightarrow> (bytes \<Rightarrow> bytes list) \<Rightarrow> (bytes \<Rightarrow> bytes list)
    \<Rightarrow> 'st \<Rightarrow> bytes \<Rightarrow> arrival list" where
  "listener_peer can servers memory n chop chop' st out =
     (case listener_answers can servers memory n (map Arrived (chop out)) st of
        Inl _ \<Rightarrow> [Hangup]
      | Inr (_, ms, _) \<Rightarrow> map Arrived (chop' (concat (map raw_message ms))))"

definition call_message :: "32 word \<Rightarrow> 32 word \<Rightarrow> 32 word \<Rightarrow> 32 word \<Rightarrow> bytes \<Rightarrow> bytes" where
  "call_message x prg vrs prc g = save_rpc_msg (call_hdr x prg vrs prc) @ g"

lemma invoke_listener:
  assumes d: "rpc_dispatch servers (call_message (counter + 1) prg vrs prc (save a)) st = ([Some reply], None, st')"
    and a: "length (save a) mod 4 = 0" "length (save a) = serial_size a" "40 + length (save a) \<le> default_maxmsglen"
      "can (40 + length (save a))"
    and reply: "length reply < 0x80000000"
    and chop: "\<And>w. concat (chop w) = w" "\<And>w. concat (chop' w) = w" and memory: "length memory = 4"
    and n: "44 + length (save a) \<le> n"
  shows "listener_answers can servers memory n
      (map Arrived (chop (raw_message (call_message (counter + 1) prg vrs prc (save a))))) st = Inr (False, [reply], st')"
    and "length reply div 0x1000000 mod 4 = 0 \<Longrightarrow>
      \<exists>src. srpc_invoke prg vrs prc serial_size save load a (int (44 + serial_size a))
        (listener_peer can servers memory n chop chop' st) counter
      = (counter + 1, rbind (invoke_result load (counter + 1) reply) (\<lambda>r. Inr (r, src)))"
    and "length reply div 0x1000000 mod 4 \<noteq> 0 \<Longrightarrow>
      srpc_invoke prg vrs prc serial_size save load a (int (44 + serial_size a))
        (listener_peer can servers memory n chop chop' st) counter = (counter + 1, Inl Xdr_bad_message_size)"
proof -
  let ?m = "call_message (counter + 1) prg vrs prc (save a)"
  let ?src = "map Arrived (chop' (raw_message reply))"
  show answers: "listener_answers can servers memory n (map Arrived (chop (raw_message ?m))) st = Inr (False, [reply], st')"
    unfolding call_message_def
    using listener_reads_call[where can = can and servers = servers and st = st, OF a(1,3,4) chop(1) memory n]
      connection_call[OF d[unfolded call_message_def], of "[]"] by simp
  have small: "40 + serial_size a < 0x80000000" using a(2,3) by (simp add: default_maxmsglen_def)
  have peer: "listener_peer can servers memory n chop chop' st (raw_message ?m) = ?src"
    using answers by (simp add: listener_peer_def)
  note read = read_raw_message[OF reply, of "chop' (raw_message reply)" "[]", unfolded chop(2)]
  have "xdr_to_msg (40 + serial_size a) ?m = Inr ?m"
    using small a(2) by (simp add: xdr_to_msg_def message_alloc_def call_message_def)
  moreover have "write_message (int (44 + serial_size a)) ?m [] = Inr (raw_message ?m)"
    using a(2) by (simp add: write_message_def call_message_def)
  moreover have "xid (call_hdr (counter + 1) prg vrs prc) = counter + 1" by (simp add: call_hdr_def)
  ultimately have inv: "srpc_invoke prg vrs prc serial_size save load a (int (44 + serial_size a))
      (listener_peer can servers memory n chop chop' st) counter
    = (counter + 1, rbind (read_message ?src) (\<lambda>(m, src). rbind (invoke_result load (counter + 1) m) (\<lambda>r. Inr (r, src))))"
    by (simp add: srpc_invoke_def prepare_call_hdr peer flip: call_message_def del: of_nat_add)
  show "\<exists>src. srpc_invoke prg vrs prc serial_size save load a (int (44 + serial_size a))
      (listener_peer can servers memory n chop chop' st) counter
    = (counter + 1, rbind (invoke_result load (counter + 1) reply) (\<lambda>r. Inr (r, src)))"
    if "length reply div 0x1000000 mod 4 = 0"
    using read that by (auto simp: inv simp del: of_nat_add)
  show "srpc_invoke prg vrs prc serial_size save load a (int (44 + serial_size a))
      (listener_peer can servers memory n chop chop' st) counter = (counter + 1, Inl Xdr_bad_message_size)"
    if "length reply div 0x1000000 mod 4 \<noteq> 0"
    using read that by (simp add: inv del: of_nat_add)
qed

lemma dispatch_proc_returns:
  assumes "xdr_codec save_arg load_arg size_arg wf_arg" and "xdr_codec save_res load_res size_res wf_res"
    and "wf_arg a" and "handler a st = Inr (r, st')" and "wf_res r" and "24 + size_res r < 0x80000000"
  shows "dispatch_proc load_arg handler size_res save_res x (save_arg a) st = ([Some (rpc_success_hdr x @ save_res r)], None, st')"
proof -
  have "load_arg (save_arg a @ []) = Inr (a, [])" using assms(1,3) by (simp only: xdr_codec.load_save)
  moreover have "length (save_res r) = size_res r" using assms(2,5) by (simp only: xdr_codec.length_save)
  ultimately show ?thesis
    using assms(4,6) by (simp add: dispatch_proc_def decode_arg_def send_result_def xdr_to_msg_def message_alloc_def
        rpc_success_hdr_def)
qed

text \<open>Why a call is refused, as far as the tables tell.\<close>

definition refusal :: "'st servers \<Rightarrow> 32 word \<Rightarrow> 32 word \<Rightarrow> 32 word \<Rightarrow> string option" where
  "refusal servers prg vrs prc =
     (case map_of servers prg of
        None \<Rightarrow> Some ''remote hasn't exported program''
      | Some versions \<Rightarrow>
          (case map_of versions vrs of
             None \<Rightarrow> Some ''remote can't support version #''
           | Some sv \<Rightarrow> if sv_proc sv prc = None then Some ''program can't support procedure'' else None))"

lemma refused_errmsgs:
  "accept_errmsg PROG_UNAVAIL = ''remote hasn't exported program''"
  "accept_errmsg PROG_MISMATCH = ''remote can't support version #''"
  "accept_errmsg PROC_UNAVAIL = ''program can't support procedure''"
  "PROG_UNAVAIL \<noteq> SUCCESS" "PROG_UNAVAIL \<noteq> PROG_MISMATCH" "PROC_UNAVAIL \<noteq> SUCCESS" "PROC_UNAVAIL \<noteq> PROG_MISMATCH"
  "PROG_MISMATCH \<noteq> SUCCESS"
  by (simp_all add: accept_errmsg_def rpc_enums)

lemma dispatch_refused:
  assumes "servers_ok servers" and "length g mod 4 = 0" and "refusal servers prg vrs prc = Some why"
  shows "\<exists>d. rpc_dispatch servers (call_message x prg vrs prc g) st = ([Some (save_rpc_msg (accepted x d))], None, st)
    \<and> wf_reply_data d \<and> accept_stat d \<noteq> SUCCESS \<and> accept_errmsg (accept_stat d) = why"
proof (cases "map_of servers prg")
  case None
  then show ?thesis using assms(3) dispatch_call[OF assms(1,2), of x prg vrs prc st]
    by (intro exI[of _ "No_results PROG_UNAVAIL"]) (simp add: call_message_def refusal_def refused_errmsgs)
next
  case (Some versions)
  note prg = this
  show ?thesis
  proof (cases "map_of versions vrs")
    case None
    then show ?thesis using prg assms(3) dispatch_call[OF assms(1,2), of x prg vrs prc st]
      by (intro exI[of _ "Mismatch \<lparr>low = fst (hd versions), high = fst (last versions)\<rparr>"])
        (simp add: call_message_def refusal_def refused_errmsgs)
  next
    case (Some sv)
    then show ?thesis using prg assms(3) dispatch_call[OF assms(1,2), of x prg vrs prc st]
      by (intro exI[of _ "No_results PROC_UNAVAIL"])
        (simp add: call_message_def refusal_def refused_errmsgs procedure_reply_def split: if_splits)
  qed
qed

lemma length_accepted: "length (save_rpc_msg (accepted x d)) \<le> 32"
  by (cases d) (simp_all add: save_accepted save_mismatch_def)

text \<open>A call whose procedure is registered, at the listener.\<close>

lemma dispatch_registered:
  assumes "servers_ok servers" and "map_of servers prg = Some versions" and "map_of versions vrs = Some sv"
    and "sv_proc sv prc = Some (dispatch_proc load_arg handler size_res save_res)"
    and "xdr_codec save_arg load_arg size_arg wf_arg" and "xdr_codec save_res load_res size_res wf_res"
    and "wf_arg a" and "handler a st = Inr (r, st')" and "wf_res r" and "24 + size_res r < 0x80000000"
  shows "rpc_dispatch servers (call_message x prg vrs prc (save_arg a)) st = ([Some (rpc_success_hdr x @ save_res r)], None, st')"
    and "length (save_arg a) mod 4 = 0" and "length (save_arg a) = size_arg a"
    and "length (rpc_success_hdr x @ save_res r) = 24 + size_res r"
    and "invoke_result load_res x (rpc_success_hdr x @ save_res r) = Inr r"
proof -
  show a: "length (save_arg a) = size_arg a" using assms(5,7) by (rule xdr_codec.length_save)
  show a4: "length (save_arg a) mod 4 = 0" using xdr_codec.size_aligned[OF assms(5,7)] a by simp
  have r: "length (save_res r) = size_res r" using assms(6,9) by (rule xdr_codec.length_save)
  have r4: "length (save_res r) mod 4 = 0" using xdr_codec.size_aligned[OF assms(6,9)] r by simp
  have l: "load_res (save_res r) = Inr (r, [])" using xdr_codec.load_save[OF assms(6,9), of "[]"] by simp
  from assms(5-10) have "dispatch_proc load_arg handler size_res save_res x (save_arg a) st
      = ([Some (rpc_success_hdr x @ save_res r)], None, st')"
    by (rule dispatch_proc_returns)
  then show "rpc_dispatch servers (call_message x prg vrs prc (save_arg a)) st = ([Some (rpc_success_hdr x @ save_res r)], None, st')"
    using assms(2-4) unfolding call_message_def dispatch_call[OF assms(1) a4] procedure_reply_def by simp
  show "length (rpc_success_hdr x @ save_res r) = 24 + size_res r" using r by (simp add: rpc_success_hdr_def)
  show "invoke_result load_res x (rpc_success_hdr x @ save_res r) = Inr r"
    using l r4 by (simp add: ready_made_replies(1) invoke_accepted)
qed

text \<open>The two ends of such a call: up to the size of the result, where the fourth clause of \<open>invoke_listener\<close> takes over.\<close>

lemma registered_call:
  assumes "servers_ok servers" and "map_of servers prg = Some versions" and "map_of versions vrs = Some sv"
    and "sv_proc sv prc = Some (dispatch_proc load_arg handler size_res save_res)"
    and "xdr_codec save_arg load_arg size_arg wf_arg" and "xdr_codec save_res load_res size_res wf_res"
    and "wf_arg a" and "handler a st = Inr (r, st')" and "wf_res r" and "24 + size_res r < 0x80000000"
    and "40 + size_arg a \<le> default_maxmsglen" and "can (40 + size_arg a)"
    and "\<And>w. concat (chop w) = w" and "\<And>w. concat (chop' w) = w" and "length memory = 4" and "44 + size_arg a \<le> n"
  shows "\<exists>reply. listener_answers can servers memory n
        (map Arrived (chop (raw_message (call_message (counter + 1) prg vrs prc (save_arg a))))) st = Inr (False, [reply], st')"
    and "(24 + size_res r) div 0x1000000 mod 4 = 0 \<Longrightarrow>
      \<exists>src. srpc_invoke prg vrs prc size_arg save_arg load_res a (int (44 + size_arg a))
        (listener_peer can servers memory n chop chop' st) counter = (counter + 1, Inr (r, src))"
    and "(24 + size_res r) div 0x1000000 mod 4 \<noteq> 0 \<Longrightarrow>
      srpc_invoke prg vrs prc size_arg save_arg load_res a (int (44 + size_arg a))
        (listener_peer can servers memory n chop chop' st) counter = (counter + 1, Inl Xdr_bad_message_size)"
proof -
  note reg0 = dispatch_registered[OF assms(1-10)]
  note reg = reg0(1)[of "counter + 1"] reg0(2,3) reg0(4)[of "counter + 1"] reg0(5)[of "counter + 1"]
  have bounds: "40 + length (save_arg a) \<le> default_maxmsglen" "can (40 + length (save_arg a))" "44 + length (save_arg a) \<le> n"
    using assms(11,12,16) reg(3) by simp_all
  have len: "length (rpc_success_hdr (counter + 1) @ save_res r) < 0x80000000" using assms(10) reg(4) by simp
  note both = invoke_listener[where can = can and servers = servers and st = st and st' = st'
      and serial_size = size_arg and save = save_arg and a = a and chop = chop and chop' = chop' and n = n,
      OF reg(1-3) bounds(1,2) len assms(13-15) bounds(3)]
  show "\<exists>reply. listener_answers can servers memory n
      (map Arrived (chop (raw_message (call_message (counter + 1) prg vrs prc (save_arg a))))) st = Inr (False, [reply], st')"
    using both(1) by blast
  show "\<exists>src. srpc_invoke prg vrs prc size_arg save_arg load_res a (int (44 + size_arg a))
      (listener_peer can servers memory n chop chop' st) counter = (counter + 1, Inr (r, src))"
    if "(24 + size_res r) div 0x1000000 mod 4 = 0"
    using both(2)[where load = load_res, unfolded reg(4,5) rbind_Inr] that by blast
  show "srpc_invoke prg vrs prc size_arg save_arg load_res a (int (44 + size_arg a))
      (listener_peer can servers memory n chop chop' st) counter = (counter + 1, Inl Xdr_bad_message_size)"
    if "(24 + size_res r) div 0x1000000 mod 4 \<noteq> 0"
    using both(3)[where load = load_res, unfolded reg(4)] that by blast
qed

text \<open>An exception that is none of the archives' leaves the server, and its client sees the end of the stream.\<close>

lemma call_throws:
  assumes d: "rpc_dispatch servers (call_message (counter + 1) prg vrs prc (save a)) st = ([], Some e, st')"
    "\<not> is_xdr_runtime_error e"
    and a: "length (save a) mod 4 = 0" "length (save a) = serial_size a" "40 + length (save a) \<le> default_maxmsglen"
      "can (40 + length (save a))"
    and chop: "\<And>w. concat (chop w) = w" and memory: "length memory = 4" and n: "44 + length (save a) \<le> n"
  shows "listener_answers can servers memory n
      (map Arrived (chop (raw_message (call_message (counter + 1) prg vrs prc (save a))))) st = Inl e"
    and "srpc_invoke prg vrs prc serial_size save load a (int (44 + serial_size a))
        (listener_peer can servers memory n chop chop' st) counter = (counter + 1, Inl Xdr_bad_message_size)"
proof -
  let ?m = "call_message (counter + 1) prg vrs prc (save a)"
  show answers: "listener_answers can servers memory n (map Arrived (chop (raw_message ?m))) st = Inl e"
    unfolding call_message_def
    using listener_reads_call[where can = can and servers = servers and st = st, OF a(1,3,4) chop memory n]
      connection_call_throws[OF d(1)[unfolded call_message_def] d(2), of "[]"] by simp
  have small: "40 + serial_size a < 0x80000000" using a(2,3) by (simp add: default_maxmsglen_def)
  have "listener_peer can servers memory n chop chop' st (raw_message ?m) = [Hangup]"
    using answers by (simp add: listener_peer_def)
  moreover have "read_message [Hangup] = Inl Xdr_bad_message_size"
    by (simp add: read_message_def numeral_eq_Suc)
  moreover have "xdr_to_msg (40 + serial_size a) ?m = Inr ?m"
    using small a(2) by (simp add: xdr_to_msg_def message_alloc_def call_message_def)
  moreover have "write_message (int (44 + serial_size a)) ?m [] = Inr (raw_message ?m)"
    using a(2) by (simp add: write_message_def call_message_def)
  ultimately show "srpc_invoke prg vrs prc serial_size save load a (int (44 + serial_size a))
      (listener_peer can servers memory n chop chop' st) counter = (counter + 1, Inl Xdr_bad_message_size)"
    by (simp add: srpc_invoke_def prepare_call_hdr flip: call_message_def del: of_nat_add)
qed

section \<open>Claims\<close>


text \<open>A service that adds up the numbers it is sent.\<close>

interpretation u32_codec: xdr_codec put32 xdr_get_u32 "\<lambda>_. 4" "\<lambda>_. True"
  by unfold_locales (auto dest!: xdr_get_u32_canonical)

definition sample_service :: "32 word service" where
  "sample_service = \<lparr>sv_prog = 7, sv_vers = 1, sv_proc = (\<lambda>p. if p = 1
     then Some (dispatch_proc xdr_get_u32 (\<lambda>a st. Inr (st + a, st + a)) (\<lambda>_. 4) put32) else None)\<rparr>"

definition sample_servers :: "32 word servers" where
  "sample_servers = register_service_base sample_service []"

lemma sample_servers_ok: "servers_ok sample_servers"
  unfolding sample_servers_def by (rule servers_ok_register) (simp add: servers_ok_def ordered_def)

lemma sample_lookup: "map_of sample_servers 7 = Some [(1, sample_service)]" "map_of [(1, sample_service)] (1 :: 32 word) = Some sample_service"
  "sv_proc sample_service 1 = Some (dispatch_proc xdr_get_u32 (\<lambda>a st. Inr (st + a, st + a)) (\<lambda>_. 4) put32)"
  by (simp_all add: sample_servers_def register_service_base_def sample_service_def)


text \<open>C35: large results are lost: when the handler of a registered procedure returns a result whose reply has bit 24 or
25 set in its length (a fetch of 16 to 64 megabytes of blocks, say), the call has run and is answered, and its caller
throws \<open>xdr_bad_message_size\<close>.\<close>

theorem large_results_lost:
  assumes "servers_ok servers" and "map_of servers prg = Some versions" and "map_of versions vrs = Some sv"
    and "sv_proc sv prc = Some (dispatch_proc load_arg handler size_res save_res)"
    and "xdr_codec save_arg load_arg size_arg wf_arg" and "xdr_codec save_res load_res size_res wf_res"
    and "wf_arg a" and "handler a st = Inr (r, st')" and "wf_res r"
    and "40 + size_arg a \<le> default_maxmsglen" and "can (40 + size_arg a)" and "24 + size_res r < 0x80000000"
    and "(24 + size_res r) div 0x1000000 mod 4 \<noteq> 0"
    and "\<And>w. concat (chop w) = w" and "\<And>w. concat (chop' w) = w" and "length memory = 4" and "44 + size_arg a \<le> n"
  shows "\<exists>reply. srpc_invoke prg vrs prc size_arg save_arg load_res a (int (44 + size_arg a))
        (listener_peer can servers memory n chop chop' st) counter = (counter + 1, Inl Xdr_bad_message_size)
    \<and> listener_answers can servers memory n
        (map Arrived (chop (raw_message (call_message (counter + 1) prg vrs prc (save_arg a))))) st = Inr (False, [reply], st')"
  using registered_call(1,3)[where can = can and chop = chop and chop' = chop' and n = n and memory = memory and counter = counter,
      OF assms(1-9) assms(12) assms(10,11,14-17)] assms(13) by blast

text \<open>A service that returns as many bytes as it is asked for.\<close>

interpretation bytes_codec: xdr_codec put_opaque_vec "get_opaque_vec 0xffffffff" opaque_vec_size "\<lambda>b. length b \<le> 0xffffffff"
  by unfold_locales (auto simp: opaque_vec_size_put opaque_vec_size_def intro: get_opaque_vec_put dest: get_opaque_vec_canonical)

definition bulk_service :: "unit service" where
  "bulk_service = \<lparr>sv_prog = 7, sv_vers = 1, sv_proc = (\<lambda>p. Some (dispatch_proc xdr_get_u32
     (\<lambda>a st. Inr (replicate (unat a) 0, st)) opaque_vec_size put_opaque_vec))\<rparr>"

theorem large_results_lost_witness:
  "\<exists>reply. srpc_invoke 7 1 1 (\<lambda>_. 4) put32 (get_opaque_vec 0xffffffff) (0x1000000 :: 32 word) (int (44 + 4))
        (listener_peer (\<lambda>_. True) (register_service_base bulk_service []) [0, 0, 0, 0] 48 (\<lambda>w. [w]) (\<lambda>w. [w]) ()) 3
        = (3 + 1, Inl Xdr_bad_message_size)
    \<and> listener_answers (\<lambda>_. True) (register_service_base bulk_service []) [0, 0, 0, 0] 48
        (map Arrived [raw_message (call_message (3 + 1) 7 1 1 (put32 0x1000000))]) () = Inr (False, [reply], ())"
proof -
  have ok: "servers_ok (register_service_base bulk_service [])"
    by (rule servers_ok_register) (simp add: servers_ok_def ordered_def)
  have lookup: "map_of (register_service_base bulk_service []) 7 = Some [(1, bulk_service)]"
    "map_of [(1, bulk_service)] (1 :: 32 word) = Some bulk_service"
    "sv_proc bulk_service 1 = Some (dispatch_proc xdr_get_u32 (\<lambda>a st. Inr (replicate (unat a) 0, st)) opaque_vec_size put_opaque_vec)"
    by (simp_all add: register_service_base_def bulk_service_def)
  show ?thesis
    by (rule large_results_lost[where st = "()" and chop = "\<lambda>w. [w]" and r = "replicate 0x1000000 0",
        OF ok lookup u32_codec.xdr_codec_axioms bytes_codec.xdr_codec_axioms])
      (simp_all add: default_maxmsglen_def opaque_vec_size_def del: replicate.simps)
qed

text \<open>C34: refusals reach the caller: a call of a program, version or procedure that is not registered leaves the server
as it is, is answered, and raises \<open>xdr_call_error\<close> with the matching message at the caller; the connection stays open.\<close>

theorem refusals_reach_the_caller:
  assumes "servers_ok servers" and "refusal servers prg vrs prc = Some why"
    and "length (save_arg a) = size_arg a" and "size_arg a mod 4 = 0"
    and "40 + size_arg a \<le> default_maxmsglen" and "can (40 + size_arg a)"
    and "\<And>w. concat (chop w) = w" and "\<And>w. concat (chop' w) = w" and "length memory = 4" and "44 + size_arg a \<le> n"
  shows "\<exists>reply. srpc_invoke prg vrs prc size_arg save_arg load_res a (int (44 + size_arg a))
        (listener_peer can servers memory n chop chop' st) counter = (counter + 1, Inl (Xdr_call_error why))
    \<and> listener_answers can servers memory n
        (map Arrived (chop (raw_message (call_message (counter + 1) prg vrs prc (save_arg a))))) st = Inr (False, [reply], st)"
proof -
  have a4: "length (save_arg a) mod 4 = 0" using assms(3,4) by simp
  from dispatch_refused[OF assms(1) a4 assms(2), of "counter + 1" st] obtain d where
    d: "rpc_dispatch servers (call_message (counter + 1) prg vrs prc (save_arg a)) st
        = ([Some (save_rpc_msg (accepted (counter + 1) d))], None, st)"
      "wf_reply_data d" "accept_stat d \<noteq> SUCCESS" "accept_errmsg (accept_stat d) = why" by blast
  have res: "invoke_result load_res (counter + 1) (save_rpc_msg (accepted (counter + 1) d)) = Inl (Xdr_call_error why)"
    using invoke_accepted[OF d(2), of "[]" load_res "counter + 1"] d(3,4) by simp
  have bounds: "40 + length (save_arg a) \<le> default_maxmsglen" "can (40 + length (save_arg a))" "44 + length (save_arg a) \<le> n"
    using assms(3,5,6,10) by simp_all
  have len: "length (save_rpc_msg (accepted (counter + 1) d)) < 0x80000000"
    and small: "length (save_rpc_msg (accepted (counter + 1) d)) div 0x1000000 mod 4 = 0"
    using length_accepted[of "counter + 1" d] by simp_all
  note both = invoke_listener[where can = can and servers = servers and st = st and st' = st and serial_size = size_arg and save = save_arg and a = a and chop = chop and chop' = chop' and n = n,
      OF d(1) a4 assms(3) bounds(1,2) len assms(7-9) bounds(3)]
  show ?thesis using both(2)[where load = load_res, OF small, unfolded res rbind_Inl] both(1) by blast
qed

theorem refusals_reach_the_caller_witness:
  "\<exists>reply. srpc_invoke 7 2 1 (\<lambda>_. 4) put32 xdr_get_u32 (5 :: 32 word) (int (44 + 4))
        (listener_peer (\<lambda>_. True) sample_servers [0, 0, 0, 0] 48 (\<lambda>w. [w]) (map (\<lambda>b. [b])) 20) 3
        = (3 + 1, Inl (Xdr_call_error ''remote can't support version #'') :: (32 word \<times> arrival list) result)
    \<and> listener_answers (\<lambda>_. True) sample_servers [0, 0, 0, 0] 48
        (map Arrived [raw_message (call_message (3 + 1) 7 2 1 (put32 5))]) 20 = Inr (False, [reply], 20)"
  by (rule refusals_reach_the_caller[where st = 20 and chop = "\<lambda>w. [w]", OF sample_servers_ok])
    (simp_all add: sample_lookup refusal_def default_maxmsglen_def)

text \<open>Arguments that cannot be decoded, too.\<close>

lemma garbage_reaches_the_caller:
  assumes "servers_ok servers" and "map_of servers prg = Some versions" and "map_of versions vrs = Some sv"
    and "sv_proc sv prc = Some (dispatch_proc load_arg handler size_res save_res)" and "decode_arg load_arg g = Inr None"
    and "length g mod 4 = 0"
  shows "\<exists>reply. rpc_dispatch servers (call_message x prg vrs prc g) st = ([Some reply], None, st)
    \<and> invoke_result load x reply = Inl (Xdr_call_error ''procedure can't decode params'')"
proof -
  let ?d = "No_results GARBAGE_ARGS"
  have d: "wf_reply_data ?d" "accept_stat ?d \<noteq> SUCCESS" "accept_errmsg (accept_stat ?d) = ''procedure can't decode params''"
    by (simp_all add: rpc_enums accept_errmsg_def)
  have "rpc_dispatch servers (call_message x prg vrs prc g) st = ([Some (save_rpc_msg (accepted x ?d))], None, st)"
    using assms(2-5) unfolding call_message_def dispatch_call[OF assms(1,6)] procedure_reply_def
    by (simp add: dispatch_proc_def send_result_def garbage_reply)
  then show ?thesis using invoke_accepted[OF d(1), of "[]" load x] d(2,3) by auto
qed

text \<open>
  A call to an \<open>rpc_sock\<close> without a server callback: the refusal has the identifier with its bytes
  reversed, and a caller that waits for the reply with an \<open>rpc_sock\<close> of its own ignores it.
\<close>

lemma unserved_call_unanswered:
  assumes "\<not> has_servcb s" and "map_of (calls t) x = None"
  shows "\<exists>reply. recv_msg (Some (call_message x prg vrs prc g)) s = Inr ([Send_reply reply], s) \<and> recv_msg (Some reply) t = Inr ([], t)"
proof -
  let ?r = "save_rpc_msg (accepted (swap32 x) (No_results PROG_UNAVAIL))"
  have "recv_msg (Some (call_message x prg vrs prc g)) s = Inr ([Send_reply ?r], s)"
    using unserved_call[OF assms(1), of "call_message x prg vrs prc g"]
    by (simp add: call_message_def call_hdr_words flip: One_nat_def)
  moreover have "length ?r = 24" "msg_word 0 ?r = x" "msg_word 1 ?r = swap32 REPLY"
    by (simp_all add: save_accepted msg_word_def put32_def)
  ultimately show ?thesis using assms(2) swap_enums by (intro exI[of _ ?r]) (simp add: recv_msg_def)
qed

end
