(* ===== verification/Rpc_System.thy ===== *)
theory Rpc_System
  imports Rpc_Call Network
begin

text \<open>
  The remote interfaces of a replica: the programs of \<open>xdr/hotstuff.x\<close> as services of the listeners in
  \<open>protocol/hotstuff_server.cc\<close> and \<open>block_storage/block_fetch_server.cc\<close>, over the handlers of
  \<open>Network\<close>, and the calls of \<open>hotstuff_protocol_client.h\<close> and \<open>block_fetch_worker.cc\<close> through the
  synchronous client.

  The theory composes the layers: a vote, a proposal or a fetch given to a client at one replica is
  handled at the other exactly as the handler says, through the encoders, the headers, the streams
  and the dispatch in between.
\<close>

section \<open>The services\<close>

text \<open>\<open>xdr_void\<close>.\<close>

definition save_void :: "unit \<Rightarrow> bytes" where "save_void _ = []"
definition load_void :: "bytes \<Rightarrow> (unit \<times> bytes) result" where "load_void p = Inr ((), p)"

interpretation void_codec: xdr_codec save_void load_void "\<lambda>_. 0" "\<lambda>_. True"
  by unfold_locales (simp_all add: save_void_def load_void_def)

text \<open>A procedure that returns nothing, and one that only reads.\<close>

definition void_handler :: "('a \<Rightarrow> 'st \<Rightarrow> 'st result) \<Rightarrow> 'a \<Rightarrow> 'st \<Rightarrow> error \<times> 'st + unit \<times> 'st" where
  "void_handler f a st = (case f a st of Inl e \<Rightarrow> Inl (e, st) | Inr st' \<Rightarrow> Inr ((), st'))"

definition HotstuffProtocolV1 :: "crypto \<Rightarrow> ('d, 'x) node_scheme service" where
  "HotstuffProtocolV1 cr = \<lparr>sv_prog = 0x11111115, sv_vers = 1, sv_proc = (\<lambda>p.
     if p = 1 then Some (dispatch_proc load_vote_message (void_handler (handler_vote cr)) (\<lambda>_. 0) save_void)
     else if p = 2 then Some (dispatch_proc load_propose_message (void_handler (handler_propose cr)) (\<lambda>_. 0) save_void)
     else None)\<rparr>"

definition FetchBlocksV1 :: "('d, 'x) node_scheme service" where
  "FetchBlocksV1 = \<lparr>sv_prog = 0x11111114, sv_vers = 1, sv_proc = (\<lambda>p.
     if p = 1 then Some (dispatch_proc load_fetch_request
       (\<lambda>req s. Inr (fetch_handler req (block_store s) (blk_heap s), s)) size_fetch_response save_fetch_response)
     else None)\<rparr>"

definition protocol_listener :: "crypto \<Rightarrow> ('d, 'x) node_scheme servers" where
  "protocol_listener cr = register_service_base (HotstuffProtocolV1 cr) []"

definition fetch_listener :: "('d, 'x) node_scheme servers" where
  "fetch_listener = register_service_base FetchBlocksV1 []"

lemma one_service: "servers_ok (register_service_base s [])"
  by (rule servers_ok_register) (simp add: servers_ok_def ordered_def)

lemma protocol_lookup:
  "map_of (protocol_listener cr) 0x11111115 = Some [(1, HotstuffProtocolV1 cr)]"
  "map_of [(1, HotstuffProtocolV1 cr)] (1 :: 32 word) = Some (HotstuffProtocolV1 cr)"
  "sv_proc (HotstuffProtocolV1 cr) 1 = Some (dispatch_proc load_vote_message (void_handler (handler_vote cr)) (\<lambda>_. 0) save_void)"
  "sv_proc (HotstuffProtocolV1 cr) 2 = Some (dispatch_proc load_propose_message (void_handler (handler_propose cr)) (\<lambda>_. 0) save_void)"
  by (simp_all add: protocol_listener_def register_service_base_def HotstuffProtocolV1_def)

lemma fetch_lookup:
  "map_of fetch_listener 0x11111114 = Some [(1, FetchBlocksV1)]"
  "map_of [(1, FetchBlocksV1)] (1 :: 32 word) = Some FetchBlocksV1"
  "sv_proc FetchBlocksV1 1 = Some (dispatch_proc load_fetch_request
     (\<lambda>req s. Inr (fetch_handler req (block_store s) (blk_heap s), s)) size_fetch_response save_fetch_response)"
  by (simp_all add: fetch_listener_def register_service_base_def FetchBlocksV1_def)

section \<open>Calls of the replicas\<close>

text \<open>The calls of the generated clients.\<close>

definition call_vote :: "VoteMessage \<Rightarrow> int \<Rightarrow> (bytes \<Rightarrow> arrival list) \<Rightarrow> 32 word \<Rightarrow> 32 word \<times> (unit \<times> arrival list) result" where
  "call_vote = srpc_invoke 0x11111115 1 1 size_vote_message save_vote_message load_void"

definition call_propose :: "ProposeMessage \<Rightarrow> int \<Rightarrow> (bytes \<Rightarrow> arrival list) \<Rightarrow> 32 word \<Rightarrow> 32 word \<times> (unit \<times> arrival list) result" where
  "call_propose = srpc_invoke 0x11111115 1 2 size_propose_message save_propose_message load_void"

definition call_fetch :: "BlockFetchRequest \<Rightarrow> int \<Rightarrow> (bytes \<Rightarrow> arrival list) \<Rightarrow> 32 word
    \<Rightarrow> 32 word \<times> (BlockFetchResponse \<times> arrival list) result" where
  "call_fetch = srpc_invoke 0x11111114 1 1 size_fetch_request save_fetch_request load_fetch_response"

text \<open>A call of a procedure without a result, whatever its handler does with the argument.\<close>

lemma void_call:
  assumes "servers_ok servers" and "map_of servers prg = Some versions" and "map_of versions vrs = Some sv"
    and "sv_proc sv prc = Some (dispatch_proc load_arg (void_handler f) (\<lambda>_. 0) save_void)"
    and "xdr_codec save_arg load_arg size_arg wf_arg" and "wf_arg a"
    and "40 + size_arg a \<le> default_maxmsglen" and "can (40 + size_arg a)"
    and "\<And>w. concat (chop w) = w" and "\<And>w. concat (chop' w) = w" and "length memory = 4" and "44 + size_arg a \<le> n"
  shows "f a st = Inr st' \<Longrightarrow>
      (\<exists>src. srpc_invoke prg vrs prc size_arg save_arg load_void a (int (44 + size_arg a))
        (listener_peer can servers memory n chop chop' st) counter = (counter + 1, Inr ((), src)))
      \<and> (\<exists>reply. listener_answers can servers memory n
        (map Arrived (chop (raw_message (call_message (counter + 1) prg vrs prc (save_arg a))))) st = Inr (False, [reply], st'))"
    and "f a st = Inl e \<Longrightarrow> \<not> is_xdr_runtime_error e \<Longrightarrow>
      srpc_invoke prg vrs prc size_arg save_arg load_void a (int (44 + size_arg a))
        (listener_peer can servers memory n chop chop' st) counter = (counter + 1, Inl Xdr_bad_message_size)
      \<and> listener_answers can servers memory n
        (map Arrived (chop (raw_message (call_message (counter + 1) prg vrs prc (save_arg a))))) st = Inl e"
    and "f a st = Inl e \<Longrightarrow> is_xdr_runtime_error e \<Longrightarrow>
      srpc_invoke prg vrs prc size_arg save_arg load_void a (int (44 + size_arg a))
        (listener_peer can servers memory n chop chop' st) counter
        = (counter + 1, Inl (Xdr_call_error ''procedure can't decode params''))
      \<and> (\<exists>reply. listener_answers can servers memory n
        (map Arrived (chop (raw_message (call_message (counter + 1) prg vrs prc (save_arg a))))) st = Inr (False, [reply], st))"
proof -
  assume "f a st = Inr st'"
  then have h: "void_handler f a st = Inr ((), st')" by (simp add: void_handler_def)
  have small: "24 + (0 :: nat) < 0x80000000" "(24 + (0 :: nat)) div 0x1000000 mod 4 = 0" by simp_all
  note reg = registered_call[where can = can and chop = chop and chop' = chop' and n = n and memory = memory and counter = counter,
      OF assms(1-5) void_codec.xdr_codec_axioms assms(6) h TrueI small(1) assms(7-12)]
  show "(\<exists>src. srpc_invoke prg vrs prc size_arg save_arg load_void a (int (44 + size_arg a))
        (listener_peer can servers memory n chop chop' st) counter = (counter + 1, Inr ((), src)))
      \<and> (\<exists>reply. listener_answers can servers memory n
        (map Arrived (chop (raw_message (call_message (counter + 1) prg vrs prc (save_arg a))))) st = Inr (False, [reply], st'))"
    using reg(1) reg(2)[OF small(2)] by blast
next
  have a: "length (save_arg a) = size_arg a" using assms(5,6) by (rule xdr_codec.length_save)
  have a4: "length (save_arg a) mod 4 = 0" using xdr_codec.size_aligned[OF assms(5,6)] a by simp
  have l: "load_arg (save_arg a) = Inr (a, [])" using xdr_codec.load_save[OF assms(5,6), of "[]"] by simp
  have bounds: "40 + length (save_arg a) \<le> default_maxmsglen" "can (40 + length (save_arg a))" "44 + length (save_arg a) \<le> n"
    using assms(7,8,12) a by simp_all
  have proc: "dispatch_proc load_arg (void_handler f) (\<lambda>_. 0) save_void x (save_arg a) st = ([], Some e, st)"
    if "f a st = Inl e" for x
    using l that by (simp add: dispatch_proc_def decode_arg_def void_handler_def)
  note d = dispatch_call[OF assms(1) a4, of "counter + 1" prg vrs prc st, folded call_message_def]
  show "srpc_invoke prg vrs prc size_arg save_arg load_void a (int (44 + size_arg a))
        (listener_peer can servers memory n chop chop' st) counter = (counter + 1, Inl Xdr_bad_message_size)
      \<and> listener_answers can servers memory n
        (map Arrived (chop (raw_message (call_message (counter + 1) prg vrs prc (save_arg a))))) st = Inl e"
    if f: "f a st = Inl e" and e: "\<not> is_xdr_runtime_error e"
  proof -
    have "rpc_dispatch servers (call_message (counter + 1) prg vrs prc (save_arg a)) st = ([], Some e, st)"
      unfolding d procedure_reply_def using assms(2-4) e proc[OF f] by simp
    note both = call_throws[where can = can and chop = chop and n = n and memory = memory and serial_size = size_arg
        and save = save_arg and a = a, OF this e a4 a bounds(1,2) assms(9,11) bounds(3)]
    show ?thesis using both by blast
  qed
  show "srpc_invoke prg vrs prc size_arg save_arg load_void a (int (44 + size_arg a))
        (listener_peer can servers memory n chop chop' st) counter
        = (counter + 1, Inl (Xdr_call_error ''procedure can't decode params''))
      \<and> (\<exists>reply. listener_answers can servers memory n
        (map Arrived (chop (raw_message (call_message (counter + 1) prg vrs prc (save_arg a))))) st = Inr (False, [reply], st))"
    if f: "f a st = Inl e" and e: "is_xdr_runtime_error e"
  proof -
    let ?d = "No_results GARBAGE_ARGS"
    have g: "wf_reply_data ?d" "accept_stat ?d \<noteq> SUCCESS" "accept_errmsg (accept_stat ?d) = ''procedure can't decode params''"
      by (simp_all add: rpc_enums accept_errmsg_def)
    have r: "rpc_dispatch servers (call_message (counter + 1) prg vrs prc (save_arg a)) st
        = ([Some (save_rpc_msg (accepted (counter + 1) ?d))], None, st)"
      unfolding d procedure_reply_def using assms(2-4) e proc[OF f] by simp
    have res: "invoke_result load_void (counter + 1) (save_rpc_msg (accepted (counter + 1) ?d))
        = Inl (Xdr_call_error ''procedure can't decode params'')"
      using invoke_accepted[OF g(1), of "[]" load_void "counter + 1"] g(2,3) by simp
    have len: "length (save_rpc_msg (accepted (counter + 1) ?d)) < 0x80000000"
      and small: "length (save_rpc_msg (accepted (counter + 1) ?d)) div 0x1000000 mod 4 = 0"
      using length_accepted[of "counter + 1" ?d] by simp_all
    note both = invoke_listener[where can = can and chop = chop and chop' = chop' and n = n and memory = memory
        and serial_size = size_arg and save = save_arg and a = a,
        OF r a4 a bounds(1,2) len assms(9-11) bounds(3)]
    show ?thesis using both(1) both(2)[where load = load_void, OF small, unfolded res rbind_Inl] by blast
  qed
qed

lemma vote_reaches_the_replica:
  assumes "wf_vote_message v" and "can (40 + size_vote_message v)"
    and "\<And>w. concat (chop w) = w" and "\<And>w. concat (chop' w) = w" and "length memory = 4" and "44 + size_vote_message v \<le> n"
    and "handler_vote cr v s = Inr s'"
  shows "(\<exists>src. call_vote v (int (44 + size_vote_message v)) (listener_peer can (protocol_listener cr) memory n chop chop' s) counter
        = (counter + 1, Inr ((), src)))
    \<and> (\<exists>reply. listener_answers can (protocol_listener cr) memory n
        (map Arrived (chop (raw_message (call_message (counter + 1) 0x11111115 1 1 (save_vote_message v))))) s = Inr (False, [reply], s'))"
proof -
  have "40 + size_vote_message v \<le> default_maxmsglen"
    by (simp add: size_vote_message_def size_partial_cert_def opaque_array_size_def wire_consts default_maxmsglen_def)
  from void_call(1)[where can = can and chop = chop and chop' = chop' and n = n and memory = memory and counter = counter and f = "handler_vote cr",
      OF one_service[of "HotstuffProtocolV1 cr", folded protocol_listener_def] protocol_lookup(1-3)
      vote_codec.xdr_codec_axioms assms(1) this assms(2-7)]
  show ?thesis unfolding call_vote_def .
qed

lemma fetch_returns_the_blocks:
  assumes "wf_fetch_request req" and "40 + size_fetch_request req \<le> default_maxmsglen" and "can (40 + size_fetch_request req)"
    and "\<And>w. concat (chop w) = w" and "\<And>w. concat (chop' w) = w" and "length memory = 4" and "44 + size_fetch_request req \<le> n"
    and "wf_fetch_response (fetch_handler req (block_store s) (blk_heap s))"
    and "24 + size_fetch_response (fetch_handler req (block_store s) (blk_heap s)) < 0x1000000"
  shows "(\<exists>src. call_fetch req (int (44 + size_fetch_request req)) (listener_peer can fetch_listener memory n chop chop' s) counter
        = (counter + 1, Inr (fetch_handler req (block_store s) (blk_heap s), src)))
    \<and> (\<exists>reply. listener_answers can fetch_listener memory n
        (map Arrived (chop (raw_message (call_message (counter + 1) 0x11111114 1 1 (save_fetch_request req))))) s
        = Inr (False, [reply], s))"
proof -
  let ?r = "fetch_handler req (block_store s) (blk_heap s)"
  have small: "24 + size_fetch_response ?r < 0x80000000" "(24 + size_fetch_response ?r) div 0x1000000 mod 4 = 0"
    using assms(9) by simp_all
  note reg = registered_call[where can = can and chop = chop and chop' = chop' and n = n and memory = memory and counter = counter
      and st = s and st' = s and a = req and r = ?r,
      OF one_service[of FetchBlocksV1, folded fetch_listener_def] fetch_lookup fetch_request_codec.xdr_codec_axioms
        fetch_response_codec.xdr_codec_axioms assms(1) refl assms(8) small(1) assms(2-7)]
  show ?thesis unfolding call_fetch_def using reg(1) reg(2)[OF small(2)] by blast
qed

section \<open>Claims\<close>

text \<open>C10: a proposal given to the client of one replica is handled at the other as \<open>propose\<close> says, through marshalling, the
headers, the streams and the dispatch: if the handler returns, the replica is in the state it leaves and the client
returns; an exception of the archives is reported to the client as an argument that cannot be decoded, the replica being
as before; any other exception leaves the thread of the listener, and the client finds the stream ended.\<close>

theorem proposals_reach_the_replica:
  assumes "wf_propose_message p" and "40 + size_propose_message p \<le> default_maxmsglen" and "can (40 + size_propose_message p)"
    and "\<And>w. concat (chop w) = w" and "\<And>w. concat (chop' w) = w" and "length memory = 4" and "44 + size_propose_message p \<le> n"
    and "client = call_propose p (int (44 + size_propose_message p)) (listener_peer can (protocol_listener cr) memory n chop chop' s)"
    and "server = listener_answers can (protocol_listener cr) memory n
        (map Arrived (chop (raw_message (call_message (counter + 1) 0x11111115 1 2 (save_propose_message p))))) s"
  shows "case handler_propose cr p s of
      Inr s' \<Rightarrow> (\<exists>src. client counter = (counter + 1, Inr ((), src))) \<and> (\<exists>reply. server = Inr (False, [reply], s'))
    | Inl e \<Rightarrow> if is_xdr_runtime_error e
        then client counter = (counter + 1, Inl (Xdr_call_error ''procedure can't decode params'')) \<and> (\<exists>reply. server = Inr (False, [reply], s))
        else client counter = (counter + 1, Inl Xdr_bad_message_size) \<and> server = Inl e"
proof -
  note call = void_call[where can = can and chop = chop and chop' = chop' and n = n and memory = memory and counter = counter
    and f = "handler_propose cr" and st = s,
    OF one_service[of "HotstuffProtocolV1 cr", folded protocol_listener_def] protocol_lookup(1,2,4)
      propose_codec.xdr_codec_axioms assms(1-7)]
  show ?thesis unfolding assms(8,9) call_propose_def
    using call by (cases "handler_propose cr p s") simp_all
qed

text \<open>A proposal on the genesis block.\<close>

definition sample_proposal :: ProposeMessage where
  "sample_proposal = \<lparr>proposal = sample_wire\<lparr>header := (header sample_wire)\<lparr>body_hash := replicate 32 7\<rparr>\<rparr>, msg_proposer = 0\<rparr>"

lemma sample_proposal_facts:
  "wf_propose_message sample_proposal" "size_propose_message sample_proposal = 112"
  "wf_block_wire (proposal sample_proposal)"
proof -
  show w: "wf_block_wire (proposal sample_proposal)"
    using sample_wire_facts(1) by (simp add: sample_proposal_def wf_block_wire_def wf_header_def wf_hash_def HASH_LEN_def)
  then show "wf_propose_message sample_proposal"
    by (simp add: wf_propose_message_def wf_replica_id_def sample_proposal_def)
  show "size_propose_message sample_proposal = 112"
    using sample_wire_facts(3)
    by (simp add: size_propose_message_def sample_proposal_def size_block_wire_def size_header_def)
qed

lemma sample_proposal_handled:
  "\<exists>s'. handler_propose sample_crypto sample_proposal sample_node = Inr s' \<and> network_event_queue s' \<noteq> new_queue"
proof -
  let ?w = "proposal sample_proposal"
  have "wf_header (header ?w)" using sample_proposal_facts(3) by (simp add: wf_block_wire_def)
  then have "xdr_to_opaque size_header save_header (header ?w) = Inr (save_header (header ?w))" by (rule header_codec.to_opaque)
  then have h: "hash_header sample_crypto (header ?w) = Inr (replicate 32 7)"
    by (simp add: hash_header_def hash_xdr_def sample_crypto_def)
  let ?b = "\<lparr>wire_block = ?w, parsed_qc = Some (new_qc zero_hash), blk_proposer = 0, block_height = 0, parent_block_ptr = None,
    justify_block_ptr = None, self_qc = new_qc (replicate 32 7), decided = False, written_to_disk = False,
    hash_checked = False, hash_valid = False, flushed_from_memory = False\<rparr>"
  have "header_qc (header ?w) = qc_serialize (new_qc zero_hash)"
    by (simp add: sample_proposal_def sample_wire_def qc_serialize_def new_qc_def)
  moreover have "qc_of_wire (qc_serialize (new_qc zero_hash)) = Inr (new_qc zero_hash)"
    by (rule qc_of_wire_serialize) (simp add: qc_ok_def new_qc_def map_keys_ok_def)
  ultimately have c: "construct_received sample_crypto ?w 0 = Inr ?b"
    using h by (simp add: construct_received_def)
  have "hash_body sample_crypto [] = Inr (replicate 32 7)"
    by (simp add: hash_body_def xdr_to_opaque_def opaque_vec_size_put hash_xdr_def sample_crypto_def)
  moreover have "body ?w = []" "body_hash (header ?w) = replicate 32 7" by (simp_all add: sample_proposal_def sample_wire_def)
  ultimately have v: "\<exists>b. validate_hotstuff sample_crypto sample_config ?b = Inr (True, b)"
    by (simp add: validate_hotstuff_def validate_hash_def get_justify_qc_def qc_verify_def new_qc_def Let_def)
  have "msg_proposer sample_proposal = 0" "is_valid_replica sample_config 0"
    by (simp_all add: sample_proposal_def sample_config_def is_valid_replica_def)
  then show ?thesis
    using c v by (auto simp: handler_propose_def receive_block_def sample_node_def alloc_def validate_and_add_net_event_def
        new_queue_def add_event_def Let_def)
qed

theorem proposals_reach_the_replica_witness:
  "\<exists>src reply s'. call_propose sample_proposal (int (44 + 112))
      (listener_peer (\<lambda>_. True) (protocol_listener sample_crypto) [0, 0, 0, 0] 156 (\<lambda>w. [w]) (map (\<lambda>b. [b])) sample_node) 3
      = (3 + 1, Inr ((), src))
    \<and> listener_answers (\<lambda>_. True) (protocol_listener sample_crypto) [0, 0, 0, 0] 156
      (map Arrived [raw_message (call_message (3 + 1) 0x11111115 1 2 (save_propose_message sample_proposal))]) sample_node
      = Inr (False, [reply], s')
    \<and> network_event_queue s' \<noteq> new_queue"
proof -
  obtain s' where h: "handler_propose sample_crypto sample_proposal sample_node = Inr s'" "network_event_queue s' \<noteq> new_queue"
    using sample_proposal_handled by blast
  have bounds: "40 + size_propose_message sample_proposal \<le> default_maxmsglen" "44 + size_propose_message sample_proposal \<le> 156"
    by (simp_all add: sample_proposal_facts(2) default_maxmsglen_def)
  have "concat [w] = w" "concat (map (\<lambda>b. [b]) w) = w" for w :: bytes by simp_all
  note claim = proposals_reach_the_replica[where can = "\<lambda>_. True" and chop = "\<lambda>w. [w]" and chop' = "map (\<lambda>b. [b])"
      and memory = "[0, 0, 0, 0]" and n = 156 and counter = 3 and cr = sample_crypto and s = sample_node,
      OF sample_proposal_facts(1) bounds(1) TrueI this _ bounds(2) refl refl]
  show ?thesis using claim h unfolding sample_proposal_facts(2) by auto
qed

end
