(* ===== verification/Pollset.thy ===== *)
theory Pollset
  imports HS_Prelude
begin

text \<open>
  The event loop of the listeners: \<open>pollset\<close> of \<open>xdrpp/pollset.h\<close> and \<open>pollset.cc\<close>, with its vector of
  descriptors, the table of their callbacks, the timeouts, and the clean-up after each round.

  A callback is a value; what it does to the poll set is a list of actions, given by \<open>react\<close> from the
  history of callbacks so far. What \<open>::poll\<close> reports and the time are given with each round. An assertion
  that fails, an iterator that has become invalid and \<open>std::terminate\<close> are errors of the model. The theory
  shows that the vector and the table stay consistent, so that no round runs into any of them, and that a
  round calls exactly the callbacks that are due.
\<close>

section \<open>State\<close>

record op_t =
  op_read :: bool
  op_write :: bool
  op_once :: bool

record revents =
  re_in :: bool
  re_out :: bool
  re_err :: bool
  re_nval :: bool

text \<open>\<open>re_err\<close> stands for \<open>POLLHUP\<close> and \<open>POLLERR\<close>, which the code treats alike.\<close>

record pollfd =
  pfd :: int
  ev_in :: bool
  ev_out :: bool
  revs :: revents

record 'cb fd_state =
  rcb :: "'cb option"
  wcb :: "'cb option"
  fd_idx :: int
  roneshot :: bool
  woneshot :: bool

text \<open>A timeout has a number, which stands for the iterator in a \<open>Timeout\<close>; \<open>next_timer\<close> is the next number.
\<open>called\<close> is the history.\<close>

record 'cb pollset =
  pollfds :: "pollfd list"
  fd_states :: "int \<rightharpoonup> 'cb fd_state"
  time_cbs :: "(int \<times> nat \<times> 'cb) list"
  next_timer :: nat
  called :: "'cb list"

definition new_pollset :: "'cb pollset" where
  "new_pollset = \<lparr>pollfds = [], fd_states = Map.empty, time_cbs = [], next_timer = 0, called = []\<rparr>"

definition no_revents :: revents where
  "no_revents = \<lparr>re_in = False, re_out = False, re_err = False, re_nval = False\<rparr>"

definition new_fd_state :: "'cb fd_state" where
  "new_fd_state = \<lparr>rcb = None, wcb = None, fd_idx = -1, roneshot = False, woneshot = False\<rparr>"

definition num_cbs :: "'cb pollset \<Rightarrow> nat" where
  "num_cbs ps = length (pollfds ps) + length (time_cbs ps)"

definition pending :: "'cb pollset \<Rightarrow> bool" where
  "pending ps \<longleftrightarrow> num_cbs ps \<noteq> 0"

section \<open>Descriptors\<close>

text \<open>The part of \<open>fd_cb_helper\<close> that finds the entry of the descriptor, or makes one.\<close>

definition fd_entry :: "int \<Rightarrow> 'cb pollset \<Rightarrow> ('cb fd_state \<times> 'cb pollset) result" where
  "fd_entry s ps =
     (let fs = (case fd_states ps s of Some fs \<Rightarrow> fs | None \<Rightarrow> new_fd_state) in
      if fd_idx fs < 0 then
        let fs = fs\<lparr>fd_idx := int (length (pollfds ps))\<rparr> in
        Inr (fs, ps\<lparr>pollfds := pollfds ps @ [\<lparr>pfd = s, ev_in = False, ev_out = False, revs = no_revents\<rparr>],
          fd_states := (fd_states ps)(s \<mapsto> fs)\<rparr>)
      else if nat (fd_idx fs) \<ge> length (pollfds ps) then Inl Out_of_range
      else if pfd (pollfds ps ! nat (fd_idx fs)) \<noteq> s then Inl (Undefined_behaviour ''assert pfdp->fd == s.fd_'')
      else Inr (fs, ps))"

definition set_fd :: "int \<Rightarrow> 'cb fd_state \<Rightarrow> (pollfd \<Rightarrow> pollfd) \<Rightarrow> 'cb pollset \<Rightarrow> 'cb pollset" where
  "set_fd s fs f ps = ps\<lparr>fd_states := (fd_states ps)(s \<mapsto> fs),
     pollfds := (pollfds ps)[nat (fd_idx fs) := f (pollfds ps ! nat (fd_idx fs))]\<rparr>"

definition fd_cb_null :: "int \<Rightarrow> op_t \<Rightarrow> 'cb pollset \<Rightarrow> 'cb pollset result" where
  "fd_cb_null s op ps =
     (case fd_states ps s of
        None \<Rightarrow> Inr ps
      | Some fs \<Rightarrow>
          if fd_idx fs < 0 \<or> nat (fd_idx fs) \<ge> length (pollfds ps) then Inl Out_of_range
          else Inr (set_fd s
            (fs\<lparr>rcb := if op_read op then None else rcb fs, wcb := if op_write op then None else wcb fs\<rparr>)
            (\<lambda>p. p\<lparr>ev_in := ev_in p \<and> \<not> op_read op, ev_out := ev_out p \<and> \<not> op_write op\<rparr>) ps))"

text \<open>\<open>fd_cb\<close> with a callback, which \<open>None\<close> leaves empty, and the rest of \<open>fd_cb_helper\<close>.\<close>

definition fd_cb :: "int \<Rightarrow> op_t \<Rightarrow> 'cb option \<Rightarrow> 'cb pollset \<Rightarrow> 'cb pollset result" where
  "fd_cb s op cb ps =
     rbind (fd_entry s ps) (\<lambda>(fs, ps).
     rbind
      (if op_read op then
         if op_write op then Inl (Runtime_error ''Illegal call to pollset::fd_cb with ReadWrite'')
         else Inr (set_fd s (fs\<lparr>roneshot := op_once op, rcb := cb\<rparr>) (\<lambda>p. p\<lparr>ev_in := True\<rparr>) ps)
       else if op_write op then Inr (set_fd s (fs\<lparr>woneshot := op_once op, wcb := cb\<rparr>) (\<lambda>p. p\<lparr>ev_out := True\<rparr>) ps)
       else Inl (Runtime_error ''Illegal call to pollset::fd_cb with neither Read nor Write''))
      (\<lambda>ps. if cb = None then fd_cb_null s op ps else Inr ps))"

section \<open>Timeouts\<close>

text \<open>\<open>std::multimap::emplace\<close>: behind the entries with the same key.\<close>

definition timer_insert :: "int \<times> nat \<times> 'cb \<Rightarrow> (int \<times> nat \<times> 'cb) list \<Rightarrow> (int \<times> nat \<times> 'cb) list" where
  "timer_insert x ts = takeWhile (\<lambda>y. fst y \<le> fst x) ts @ x # dropWhile (\<lambda>y. fst y \<le> fst x) ts"

definition timeout_at :: "int \<Rightarrow> 'cb \<Rightarrow> 'cb pollset \<Rightarrow> nat \<times> 'cb pollset" where
  "timeout_at ms cb ps =
     (next_timer ps, ps\<lparr>time_cbs := timer_insert (ms, next_timer ps, cb) (time_cbs ps), next_timer := Suc (next_timer ps)\<rparr>)"

definition find_timer :: "nat \<Rightarrow> (int \<times> nat \<times> 'cb) list \<Rightarrow> (int \<times> 'cb) option" where
  "find_timer j ts = map_of (map (\<lambda>(t, j, cb). (j, t, cb)) ts) j"

definition erase_timer :: "nat \<Rightarrow> (int \<times> nat \<times> 'cb) list \<Rightarrow> (int \<times> nat \<times> 'cb) list" where
  "erase_timer j ts = filter (\<lambda>(_, k, _). k \<noteq> j) ts"

text \<open>\<open>None\<close> is \<open>timeout_null()\<close>.\<close>

definition timeout_cancel :: "nat option \<Rightarrow> 'cb pollset \<Rightarrow> (nat option \<times> 'cb pollset) result" where
  "timeout_cancel t ps =
     (case t of
        None \<Rightarrow> Inr (None, ps)
      | Some j \<Rightarrow>
          if find_timer j (time_cbs ps) = None then Inl (Undefined_behaviour ''invalid iterator'')
          else Inr (None, ps\<lparr>time_cbs := erase_timer j (time_cbs ps)\<rparr>))"

definition timeout_reschedule_at :: "nat \<Rightarrow> int \<Rightarrow> 'cb pollset \<Rightarrow> (nat \<times> 'cb pollset) result" where
  "timeout_reschedule_at j ms ps =
     (case find_timer j (time_cbs ps) of
        None \<Rightarrow> Inl (Undefined_behaviour ''invalid iterator'')
      | Some (_, cb) \<Rightarrow>
          let (j', ps) = timeout_at ms cb ps in Inr (j', ps\<lparr>time_cbs := erase_timer j (time_cbs ps)\<rparr>))"

text \<open>\<open>next_timeout\<close>; times are integers, the result an \<open>int\<close> of 32 bits.\<close>

definition int_max :: int where "int_max = 2147483647"

definition next_timeout :: "int \<Rightarrow> int \<Rightarrow> 'cb pollset \<Rightarrow> int" where
  "next_timeout now ms ps =
     (case time_cbs ps of
        [] \<Rightarrow> ms
      | (t, _, _) # _ \<Rightarrow>
          if now \<ge> t then 0
          else let wait = min (t - now) int_max in
            if ms \<ge> 0 \<and> ms \<le> wait then ms else wait)"

section \<open>Callbacks\<close>

datatype 'cb action =
    Set_cb int op_t 'cb
  | Clear_cb int op_t
  | Timeout_at int 'cb
  | Cancel nat
  | Reschedule_at nat int

fun do_action :: "'cb action \<Rightarrow> 'cb pollset \<Rightarrow> 'cb pollset result" where
  "do_action (Set_cb s op cb) ps = fd_cb s op (Some cb) ps"
| "do_action (Clear_cb s op) ps = fd_cb_null s op ps"
| "do_action (Timeout_at ms cb) ps = Inr (snd (timeout_at ms cb ps))"
| "do_action (Cancel j) ps = rbind (timeout_cancel (Some j) ps) (\<lambda>(_, ps). Inr ps)"
| "do_action (Reschedule_at j ms) ps = rbind (timeout_reschedule_at j ms ps) (\<lambda>(_, ps). Inr ps)"

type_synonym 'cb react = "'cb list \<Rightarrow> 'cb action list"

definition run_cb :: "'cb react \<Rightarrow> 'cb \<Rightarrow> 'cb pollset \<Rightarrow> 'cb pollset result" where
  "run_cb react cb ps =
     (let ps = ps\<lparr>called := called ps @ [cb]\<rparr> in rfold do_action (react (called ps)) ps)"

section \<open>A round\<close>

text \<open>The body of the loop over the descriptors: the read half and the write half.\<close>

definition poll_read :: "'cb react \<Rightarrow> nat \<Rightarrow> 'cb pollset \<Rightarrow> 'cb pollset result" where
  "poll_read react i ps =
     (let p = pollfds ps ! i in
      case fd_states ps (pfd p) of
        None \<Rightarrow> Inl Out_of_range
      | Some fs \<Rightarrow>
          if re_nval (revs p) then Inl (Undefined_behaviour ''assert !(revents & POLLNVAL)'')
          else
            (case rcb fs of
               None \<Rightarrow> Inr ps
             | Some cb \<Rightarrow>
                 if re_in (revs p) \<or> re_err (revs p) then
                   run_cb react cb
                     (if roneshot fs then ps\<lparr>fd_states := (fd_states ps)(pfd p \<mapsto> fs\<lparr>rcb := None\<rparr>),
                        pollfds := (pollfds ps)[i := p\<lparr>ev_in := False\<rparr>]\<rparr> else ps)
                 else Inr ps))"

definition poll_write :: "'cb react \<Rightarrow> nat \<Rightarrow> 'cb pollset \<Rightarrow> 'cb pollset result" where
  "poll_write react i ps =
     (let p = pollfds ps ! i in
      case fd_states ps (pfd p) of
        None \<Rightarrow> Inl (Undefined_behaviour ''dangling fd_state'')
      | Some fs \<Rightarrow>
          (case wcb fs of
             None \<Rightarrow> Inr ps
           | Some cb \<Rightarrow>
               if re_out (revs p) \<or> re_err (revs p) then
                 run_cb react cb
                   (if woneshot fs then ps\<lparr>fd_states := (fd_states ps)(pfd p \<mapsto> fs\<lparr>wcb := None\<rparr>),
                      pollfds := (pollfds ps)[i := p\<lparr>ev_out := False\<rparr>]\<rparr> else ps)
               else Inr ps))"

definition any_revents :: "revents \<Rightarrow> bool" where
  "any_revents e \<longleftrightarrow> re_in e \<or> re_out e \<or> re_err e \<or> re_nval e"

text \<open>\<open>n\<close> descriptors from \<open>i\<close> on, \<open>r\<close> of them still to be found ready.\<close>

fun poll_loop :: "'cb react \<Rightarrow> nat \<Rightarrow> nat \<Rightarrow> nat \<Rightarrow> 'cb pollset \<Rightarrow> 'cb pollset result" where
  "poll_loop react 0 i r ps = Inr ps"
| "poll_loop react (Suc n) i r ps =
     (if r = 0 then Inr ps
      else if i \<ge> length (pollfds ps) then Inl Out_of_range
      else
        let r = (if any_revents (revs (pollfds ps ! i)) then r - 1 else r) in
        rbind (poll_read react i ps) (\<lambda>ps.
        if i \<ge> length (pollfds ps) then Inl Out_of_range
        else rbind (poll_write react i ps) (poll_loop react n (Suc i) r)))"

text \<open>The timeouts that are due: \<open>cur\<close> is the iterator. The entry of a callback is erased after it has run.\<close>

definition timer_after :: "nat \<Rightarrow> (int \<times> nat \<times> 'cb) list \<Rightarrow> nat option" where
  "timer_after j ts =
     (case dropWhile (\<lambda>(_, k, _). k \<noteq> j) ts of _ # (_, k, _) # _ \<Rightarrow> Some k | _ \<Rightarrow> None)"

fun run_timers :: "'cb react \<Rightarrow> int \<Rightarrow> nat \<Rightarrow> nat option \<Rightarrow> 'cb pollset \<Rightarrow> 'cb pollset result" where
  "run_timers react now fuel None ps = Inr ps"
| "run_timers react now fuel (Some j) ps =
     (case find_timer j (time_cbs ps) of
        None \<Rightarrow> Inl (Undefined_behaviour ''invalid iterator'')
      | Some (t, cb) \<Rightarrow>
          if now < t then Inr ps
          else
            (case fuel of
               0 \<Rightarrow> Inl Out_of_fuel
             | Suc fuel \<Rightarrow>
                 rbind (run_cb react cb ps) (\<lambda>ps.
                 if find_timer j (time_cbs ps) = None then Inl (Undefined_behaviour ''invalid iterator'')
                 else run_timers react now fuel (timer_after j (time_cbs ps))
                   (ps\<lparr>time_cbs := erase_timer j (time_cbs ps)\<rparr>))))"

definition run_timeouts :: "'cb react \<Rightarrow> int \<Rightarrow> nat \<Rightarrow> 'cb pollset \<Rightarrow> 'cb pollset result" where
  "run_timeouts react now fuel ps =
     run_timers react now fuel (case time_cbs ps of [] \<Rightarrow> None | (_, j, _) # _ \<Rightarrow> Some j) ps"

text \<open>Descriptors without events are dropped: from the back first, then by moving the last one into the gap.\<close>

definition idle :: "pollfd \<Rightarrow> bool" where
  "idle p \<longleftrightarrow> \<not> ev_in p \<and> \<not> ev_out p"

definition erase_state :: "int \<Rightarrow> (int \<rightharpoonup> 'cb fd_state) \<Rightarrow> (int \<rightharpoonup> 'cb fd_state) result" where
  "erase_state s st =
     (case st s of
        None \<Rightarrow> Inr st
      | Some fs \<Rightarrow> if rcb fs \<noteq> None \<or> wcb fs \<noteq> None then Inl (Undefined_behaviour ''assert !rcb && !wcb'')
          else Inr (st(s := None)))"

function drop_back :: "pollfd list \<times> (int \<rightharpoonup> 'cb fd_state) \<Rightarrow> (pollfd list \<times> (int \<rightharpoonup> 'cb fd_state)) result" where
  "drop_back (fds, st) =
     (if fds = [] \<or> \<not> idle (last fds) then Inr (fds, st)
      else case erase_state (pfd (last fds)) st of Inl e \<Rightarrow> Inl e | Inr st \<Rightarrow> drop_back (butlast fds, st))"
  by pat_completeness auto
termination
  by (relation "measure (length \<circ> fst)") (auto simp flip: length_greater_0_conv)

declare drop_back.simps [simp del]

text \<open>\<open>fill_gaps n\<close> looks at the entries below \<open>n\<close>.\<close>

fun fill_gaps :: "nat \<Rightarrow> pollfd list \<times> (int \<rightharpoonup> 'cb fd_state) \<Rightarrow> (pollfd list \<times> (int \<rightharpoonup> 'cb fd_state)) result" where
  "fill_gaps 0 (fds, st) = Inr (fds, st)"
| "fill_gaps (Suc i) (fds, st) =
     (if i \<ge> length fds then Inl Out_of_range
      else if \<not> idle (fds ! i) then fill_gaps i (fds, st)
      else
        rbind (erase_state (pfd (fds ! i)) st) (\<lambda>st.
        let p = last fds in
        case st (pfd p) of
          None \<Rightarrow> Inl Out_of_range
        | Some fs \<Rightarrow> fill_gaps i (butlast (fds[i := p]), st(pfd p \<mapsto> fs\<lparr>fd_idx := int i\<rparr>))))"

definition consolidate :: "'cb pollset \<Rightarrow> 'cb pollset result" where
  "consolidate ps =
     rbind (drop_back (pollfds ps, fd_states ps)) (\<lambda>(fds, st).
     rbind (if length fds < 2 then Inr (fds, st) else fill_gaps (length fds - 1) (fds, st)) (\<lambda>(fds, st).
     Inr (ps\<lparr>pollfds := fds, fd_states := st\<rparr>)))"

datatype poll_outcome = Interrupted | Poll_error | Ready "revents list"

definition set_revents :: "revents list \<Rightarrow> 'cb pollset \<Rightarrow> 'cb pollset" where
  "set_revents es ps = ps\<lparr>pollfds := map2 (\<lambda>p e. p\<lparr>revs := e\<rparr>) (pollfds ps) es\<rparr>"

definition poll :: "'cb react \<Rightarrow> int \<Rightarrow> nat \<Rightarrow> poll_outcome \<Rightarrow> 'cb pollset \<Rightarrow> 'cb pollset result" where
  "poll react now fuel r ps =
     (case r of
        Interrupted \<Rightarrow> Inr ps
      | Poll_error \<Rightarrow> Inl (Runtime_error ''terminate'')
      | Ready es \<Rightarrow>
          let ps = set_revents es ps in
          rbind (poll_loop react (length (pollfds ps)) 0 (length (filter any_revents es)) ps) (\<lambda>ps.
          rbind (run_timeouts react now fuel ps) consolidate))"

section \<open>The vector and the table agree\<close>

definition entry_ok :: "(int \<rightharpoonup> 'cb fd_state) \<Rightarrow> nat \<Rightarrow> pollfd \<Rightarrow> bool" where
  "entry_ok st i p \<longleftrightarrow> (\<exists>fs. st (pfd p) = Some fs \<and> fd_idx fs = int i
     \<and> (ev_in p \<longleftrightarrow> rcb fs \<noteq> None) \<and> (ev_out p \<longleftrightarrow> wcb fs \<noteq> None))"

definition fds_ok :: "pollfd list \<Rightarrow> (int \<rightharpoonup> 'cb fd_state) \<Rightarrow> bool" where
  "fds_ok fds st \<longleftrightarrow> (\<forall>i < length fds. entry_ok st i (fds ! i))
     \<and> (\<forall>s fs. st s = Some fs \<longrightarrow> 0 \<le> fd_idx fs \<and> nat (fd_idx fs) < length fds \<and> pfd (fds ! nat (fd_idx fs)) = s)"

definition timers_ok :: "(int \<times> nat \<times> 'cb) list \<Rightarrow> nat \<Rightarrow> bool" where
  "timers_ok ts n \<longleftrightarrow> sorted (map fst ts) \<and> distinct (map (fst \<circ> snd) ts) \<and> (\<forall>j \<in> set (map (fst \<circ> snd) ts). j < n)"

definition pollset_ok :: "'cb pollset \<Rightarrow> bool" where
  "pollset_ok ps \<longleftrightarrow> fds_ok (pollfds ps) (fd_states ps) \<and> timers_ok (time_cbs ps) (next_timer ps)"

lemma pollset_ok_new: "pollset_ok new_pollset"
  by (simp add: pollset_ok_def fds_ok_def timers_ok_def new_pollset_def)

lemma fds_okD:
  assumes "fds_ok fds st" and "i < length fds"
  obtains fs where "st (pfd (fds ! i)) = Some fs" and "fd_idx fs = int i"
    and "ev_in (fds ! i) \<longleftrightarrow> rcb fs \<noteq> None" and "ev_out (fds ! i) \<longleftrightarrow> wcb fs \<noteq> None"
  using assms unfolding fds_ok_def entry_ok_def by blast

lemma fds_ok_state:
  assumes "fds_ok fds st" and "st s = Some fs"
  shows "0 \<le> fd_idx fs" and "nat (fd_idx fs) < length fds" and "pfd (fds ! nat (fd_idx fs)) = s"
    and "ev_in (fds ! nat (fd_idx fs)) \<longleftrightarrow> rcb fs \<noteq> None" and "ev_out (fds ! nat (fd_idx fs)) \<longleftrightarrow> wcb fs \<noteq> None"
proof -
  show a: "0 \<le> fd_idx fs" "nat (fd_idx fs) < length fds" "pfd (fds ! nat (fd_idx fs)) = s"
    using assms unfolding fds_ok_def by blast+
  show "ev_in (fds ! nat (fd_idx fs)) \<longleftrightarrow> rcb fs \<noteq> None" "ev_out (fds ! nat (fd_idx fs)) \<longleftrightarrow> wcb fs \<noteq> None"
    using fds_okD[OF assms(1) a(2)] a(3) assms(2) by (metis option.inject)+
qed

lemma pfd_inj: "fds_ok fds st \<Longrightarrow> i < length fds \<Longrightarrow> j < length fds \<Longrightarrow> pfd (fds ! i) = pfd (fds ! j) \<Longrightarrow> i = j"
  by (metis fds_okD int_int_eq option.inject)

lemma fds_ok_update:
  assumes ok: "fds_ok fds st" and i: "i < length fds" and s: "s = pfd (fds ! i)" and p: "pfd p = s" and fs: "fd_idx fs = int i"
    and ev: "ev_in p \<longleftrightarrow> rcb fs \<noteq> None" "ev_out p \<longleftrightarrow> wcb fs \<noteq> None"
  shows "fds_ok (fds[i := p]) (st(s \<mapsto> fs))"
proof -
  have "entry_ok (st(s \<mapsto> fs)) j (fds[i := p] ! j)" if j: "j < length fds" for j
  proof (cases "j = i")
    case True
    then show ?thesis using assms by (simp add: entry_ok_def)
  next
    case False
    then have "pfd (fds ! j) \<noteq> s" using pfd_inj[OF ok j i] s by blast
    then show ?thesis using ok j False by (simp add: fds_ok_def entry_ok_def)
  qed
  moreover have "0 \<le> fd_idx gs \<and> nat (fd_idx gs) < length fds \<and> pfd (fds[i := p] ! nat (fd_idx gs)) = t"
    if "(st(s \<mapsto> fs)) t = Some gs" for t gs
  proof (cases "t = s")
    case True
    then show ?thesis using that fs i p by simp
  next
    case False
    then have gs: "st t = Some gs" using that by simp
    note g = fds_ok_state[OF ok gs]
    have "nat (fd_idx gs) \<noteq> i" using g(3) s False by metis
    then show ?thesis using g by simp
  qed
  ultimately show ?thesis by (simp add: fds_ok_def)
qed

lemma fds_ok_append:
  assumes ok: "fds_ok fds st" and s: "st s = None" and p: "pfd p = s" and fs: "fd_idx fs = int (length fds)"
    and ev: "ev_in p \<longleftrightarrow> rcb fs \<noteq> None" "ev_out p \<longleftrightarrow> wcb fs \<noteq> None"
  shows "fds_ok (fds @ [p]) (st(s \<mapsto> fs))"
proof -
  have "entry_ok (st(s \<mapsto> fs)) j ((fds @ [p]) ! j)" if j: "j < Suc (length fds)" for j
  proof (cases "j = length fds")
    case True
    then show ?thesis using assms by (simp add: entry_ok_def)
  next
    case False
    then have l: "j < length fds" using j by simp
    then have "pfd (fds ! j) \<noteq> s" using fds_okD[OF ok l] s by (metis option.distinct(1))
    then show ?thesis using ok l by (simp add: fds_ok_def entry_ok_def nth_append)
  qed
  moreover have "0 \<le> fd_idx gs \<and> nat (fd_idx gs) < Suc (length fds) \<and> pfd ((fds @ [p]) ! nat (fd_idx gs)) = t"
    if "(st(s \<mapsto> fs)) t = Some gs" for t gs
  proof (cases "t = s")
    case True
    then show ?thesis using that fs p by simp
  next
    case False
    then have gs: "st t = Some gs" using that by simp
    then show ?thesis using fds_ok_state[OF ok gs] by (simp add: nth_append)
  qed
  ultimately show ?thesis by (simp add: fds_ok_def)
qed

section \<open>What callbacks may do\<close>

text \<open>
  Actions that are within the contract while the time is \<open>now\<close>, and that touch no descriptor outside
  \<open>S\<close>. The handle of a timeout that may have run already must not be used, so \<open>Cancel\<close> and \<open>Reschedule_at\<close>
  are left out.
\<close>

fun legal :: "int \<Rightarrow> int set \<Rightarrow> 'cb action \<Rightarrow> bool" where
  "legal now S (Set_cb s op cb) = (s \<in> S \<and> op_read op \<noteq> op_write op)"
| "legal now S (Clear_cb s op) = (s \<in> S)"
| "legal now S (Timeout_at ms cb) = (now < ms)"
| "legal now S _ = False"

definition due :: "int \<Rightarrow> (int \<times> nat \<times> 'cb) list \<Rightarrow> (int \<times> nat \<times> 'cb) list" where
  "due now = filter (\<lambda>x. fst x \<le> now)"

definition grows :: "int \<Rightarrow> int set \<Rightarrow> 'cb pollset \<Rightarrow> 'cb pollset \<Rightarrow> bool" where
  "grows now S ps ps' \<longleftrightarrow> pollset_ok ps' \<and> length (pollfds ps) \<le> length (pollfds ps')
     \<and> (\<forall>i < length (pollfds ps). pfd (pollfds ps' ! i) = pfd (pollfds ps ! i) \<and> revs (pollfds ps' ! i) = revs (pollfds ps ! i))
     \<and> (\<forall>s. s \<notin> S \<longrightarrow> fd_states ps' s = fd_states ps s)
     \<and> due now (time_cbs ps') = due now (time_cbs ps)"

lemma grows_refl: "pollset_ok ps \<Longrightarrow> grows now S ps ps"
  by (simp add: grows_def)

lemma grows_trans: "grows now S ps ps' \<Longrightarrow> grows now S ps' ps'' \<Longrightarrow> grows now S ps ps''"
  by (fastforce simp: grows_def)

lemma grows_ok: "grows now S ps ps' \<Longrightarrow> pollset_ok ps'"
  by (simp add: grows_def)

lemma set_fd_grows:
  assumes ok: "pollset_ok ps" and st: "fd_states ps s = Some fs0" and idx: "fd_idx fs = fd_idx fs0" and S: "s \<in> S"
    and f: "\<And>p. pfd (f p) = pfd p \<and> revs (f p) = revs p"
    and ev: "\<And>p. ev_in p = (rcb fs0 \<noteq> None) \<Longrightarrow> ev_out p = (wcb fs0 \<noteq> None) \<Longrightarrow>
      (ev_in (f p) \<longleftrightarrow> rcb fs \<noteq> None) \<and> (ev_out (f p) \<longleftrightarrow> wcb fs \<noteq> None)"
  shows "grows now S ps (set_fd s fs f ps) \<and> called (set_fd s fs f ps) = called ps"
proof -
  have o: "fds_ok (pollfds ps) (fd_states ps)" and t: "timers_ok (time_cbs ps) (next_timer ps)"
    using ok by (simp_all add: pollset_ok_def)
  note e = fds_ok_state[OF o st]
  let ?i = "nat (fd_idx fs0)"
  have "fds_ok ((pollfds ps)[?i := f (pollfds ps ! ?i)]) ((fd_states ps)(s \<mapsto> fs))"
    by (rule fds_ok_update[OF o e(2)]) (use e f ev idx in auto)
  then have "pollset_ok (set_fd s fs f ps)" using t idx by (simp add: pollset_ok_def set_fd_def)
  moreover have "pfd (pollfds (set_fd s fs f ps) ! i) = pfd (pollfds ps ! i) \<and> revs (pollfds (set_fd s fs f ps) ! i) = revs (pollfds ps ! i)"
    if "i < length (pollfds ps)" for i
    using f that by (cases "i = ?i") (simp_all add: set_fd_def idx)
  moreover have "fd_states (set_fd s fs f ps) u = fd_states ps u" if "u \<notin> S" for u
    using that S by (auto simp: set_fd_def)
  ultimately show ?thesis by (simp add: grows_def) (simp add: set_fd_def)
qed

lemma fd_cb_null_grows:
  assumes ok: "pollset_ok ps" and S: "s \<in> S"
  shows "\<exists>ps'. fd_cb_null s op ps = Inr ps' \<and> grows now S ps ps' \<and> called ps' = called ps"
proof (cases "fd_states ps s")
  case None
  then show ?thesis using ok by (simp add: fd_cb_null_def grows_refl)
next
  case (Some fs)
  have o: "fds_ok (pollfds ps) (fd_states ps)" using ok by (simp add: pollset_ok_def)
  let ?fs = "fs\<lparr>rcb := if op_read op then None else rcb fs, wcb := if op_write op then None else wcb fs\<rparr>"
  let ?f = "\<lambda>p. p\<lparr>ev_in := ev_in p \<and> \<not> op_read op, ev_out := ev_out p \<and> \<not> op_write op\<rparr>"
  have "grows now S ps (set_fd s ?fs ?f ps) \<and> called (set_fd s ?fs ?f ps) = called ps"
    by (rule set_fd_grows[OF ok Some _ S]) auto
  moreover have "fd_cb_null s op ps = Inr (set_fd s ?fs ?f ps)"
    using fds_ok_state(1,2)[OF o Some] Some by (simp add: fd_cb_null_def)
  ultimately show ?thesis by blast
qed

lemma fd_entry_grows:
  assumes ok: "pollset_ok ps" and S: "s \<in> S"
  shows "\<exists>fs ps'. fd_entry s ps = Inr (fs, ps') \<and> fd_states ps' s = Some fs \<and> grows now S ps ps' \<and> called ps' = called ps"
proof (cases "fd_states ps s")
  case None
  let ?fs = "new_fd_state\<lparr>fd_idx := int (length (pollfds ps))\<rparr>"
  let ?p = "\<lparr>pfd = s, ev_in = False, ev_out = False, revs = no_revents\<rparr>"
  have "fds_ok (pollfds ps @ [?p]) ((fd_states ps)(s \<mapsto> ?fs))"
    using ok None by (intro fds_ok_append) (simp_all add: pollset_ok_def new_fd_state_def)
  moreover have "timers_ok (time_cbs ps) (next_timer ps)" using ok by (simp add: pollset_ok_def)
  ultimately show ?thesis
    using None S by (auto simp: fd_entry_def new_fd_state_def Let_def grows_def pollset_ok_def nth_append)
next
  case (Some fs)
  have o: "fds_ok (pollfds ps) (fd_states ps)" using ok by (simp add: pollset_ok_def)
  show ?thesis using fds_ok_state(1-3)[OF o Some] Some ok by (simp add: fd_entry_def grows_refl)
qed

lemma fd_cb_grows:
  assumes ok: "pollset_ok ps" and S: "s \<in> S" and op: "op_read op \<noteq> op_write op"
  shows "\<exists>ps'. fd_cb s op (Some cb) ps = Inr ps' \<and> grows now S ps ps' \<and> called ps' = called ps"
proof -
  obtain fs ps1 where e: "fd_entry s ps = Inr (fs, ps1)" "fd_states ps1 s = Some fs" "grows now S ps ps1" "called ps1 = called ps"
    using fd_entry_grows[OF assms(1,2)] by blast
  let ?fs = "if op_read op then fs\<lparr>roneshot := op_once op, rcb := Some cb\<rparr> else fs\<lparr>woneshot := op_once op, wcb := Some cb\<rparr>"
  let ?f = "if op_read op then (\<lambda>p. p\<lparr>ev_in := True\<rparr>) else (\<lambda>p. p\<lparr>ev_out := True\<rparr>)"
  have "grows now S ps1 (set_fd s ?fs ?f ps1) \<and> called (set_fd s ?fs ?f ps1) = called ps1"
    by (rule set_fd_grows[OF grows_ok[OF e(3)] e(2) _ S]) auto
  moreover have "fd_cb s op (Some cb) ps = Inr (set_fd s ?fs ?f ps1)"
    using e(1) op by (auto simp: fd_cb_def)
  ultimately show ?thesis using grows_trans[OF e(3)] e(4) by auto
qed

lemma timers_ok_between:
  assumes "timers_ok (a @ b) n" and "\<forall>x \<in> set a. fst x \<le> ms" and "\<forall>x \<in> set b. ms \<le> fst x"
  shows "timers_ok (a @ (ms, n, cb) # b) (Suc n)"
proof -
  have "sorted (map fst (a @ (ms, n, cb) # b))"
    using assms unfolding timers_ok_def by (simp add: sorted_append)
  moreover have "distinct (map (fst \<circ> snd) (a @ (ms, n, cb) # b))"
  proof -
    have d: "distinct (map (fst \<circ> snd) a @ map (fst \<circ> snd) b)" "\<forall>j \<in> set (map (fst \<circ> snd) a @ map (fst \<circ> snd) b). j < n"
      using assms(1) unfolding timers_ok_def map_append by blast+
    then have "n \<notin> set (map (fst \<circ> snd) a)" "n \<notin> set (map (fst \<circ> snd) b)" unfolding set_append by blast+
    then show ?thesis using d(1) unfolding map_append list.map distinct_append by auto
  qed
  moreover have "\<forall>j \<in> set (map (fst \<circ> snd) (a @ (ms, n, cb) # b)). j < Suc n"
    using assms(1) unfolding timers_ok_def by (auto simp: less_Suc_eq)
  ultimately show ?thesis unfolding timers_ok_def by blast
qed

lemma timers_ok_insert:
  assumes "timers_ok ts n"
  shows "timers_ok (timer_insert (ms, n, cb) ts) (Suc n)"
proof -
  let ?a = "takeWhile (\<lambda>y. fst y \<le> ms) ts" and ?b = "dropWhile (\<lambda>y. fst y \<le> ms) ts"
  have ok: "timers_ok (?a @ ?b) n" using assms by simp
  have "\<forall>x \<in> set ?b. ms \<le> fst x"
  proof (cases ?b)
    case (Cons y ys)
    then have "ms \<le> fst y" using hd_dropWhile[of "\<lambda>y. fst y \<le> ms" ts] by simp
    moreover have "sorted (map fst ?a @ map fst ?b)" using ok unfolding timers_ok_def map_append by blast
    then have "sorted (map fst (y # ys))" unfolding Cons sorted_append by blast
    ultimately show ?thesis unfolding Cons by auto
  next
    case Nil
    show ?thesis unfolding Nil by simp
  qed
  moreover have "\<forall>x \<in> set ?a. fst x \<le> ms" by (auto dest: set_takeWhileD)
  ultimately show ?thesis using timers_ok_between[OF ok] by (simp add: timer_insert_def)
qed

lemma due_insert: "now < ms \<Longrightarrow> due now (timer_insert (ms, n, cb) ts) = due now ts"
proof -
  assume "now < ms"
  then have "due now (timer_insert (ms, n, cb) ts)
      = due now (takeWhile (\<lambda>y. fst y \<le> ms) ts @ dropWhile (\<lambda>y. fst y \<le> ms) ts)"
    by (simp add: timer_insert_def due_def del: takeWhile_dropWhile_id)
  then show ?thesis by (simp only: takeWhile_dropWhile_id)
qed

lemma do_action_grows:
  assumes "pollset_ok ps" and "legal now S a"
  shows "\<exists>ps'. do_action a ps = Inr ps' \<and> grows now S ps ps' \<and> called ps' = called ps"
proof (cases a)
  case (Timeout_at ms cb)
  have "timers_ok (timer_insert (ms, next_timer ps, cb) (time_cbs ps)) (Suc (next_timer ps))"
    using assms(1) by (auto simp: pollset_ok_def intro: timers_ok_insert)
  then show ?thesis
    using assms Timeout_at by (simp add: timeout_at_def grows_def pollset_ok_def due_insert)
next
  case (Set_cb s op cb)
  then have "s \<in> S" "op_read op \<noteq> op_write op" using assms(2) by simp_all
  from fd_cb_grows[OF assms(1) this] show ?thesis unfolding Set_cb do_action.simps .
next
  case (Clear_cb s op)
  then have "s \<in> S" using assms(2) by simp
  from fd_cb_null_grows[OF assms(1) this] show ?thesis unfolding Clear_cb do_action.simps .
qed (use assms in simp_all)

lemma actions_grow:
  assumes "pollset_ok ps" and "list_all (legal now S) as"
  shows "\<exists>ps'. rfold do_action as ps = Inr ps' \<and> grows now S ps ps' \<and> called ps' = called ps"
  using assms
proof (induction as arbitrary: ps)
  case (Cons a as)
  obtain ps1 where 1: "do_action a ps = Inr ps1" "grows now S ps ps1" "called ps1 = called ps"
    using do_action_grows[OF Cons.prems(1), of now S a] Cons.prems(2) by auto
  from Cons.IH[OF grows_ok[OF 1(2)]] Cons.prems(2) obtain ps2 where
    "rfold do_action as ps1 = Inr ps2" "grows now S ps1 ps2" "called ps2 = called ps1" by auto
  then show ?case using 1 grows_trans by fastforce
qed (simp add: grows_refl)

lemma run_cb_grows:
  assumes "pollset_ok ps" and "\<And>h. list_all (legal now S) (react h)"
  shows "\<exists>ps'. run_cb react cb ps = Inr ps' \<and> grows now S ps ps' \<and> called ps' = called ps @ [cb]"
proof -
  have "pollset_ok (ps\<lparr>called := called ps @ [cb]\<rparr>)" using assms(1) by (simp add: pollset_ok_def)
  from actions_grow[OF this assms(2), of "called ps @ [cb]"] show ?thesis
    by (auto simp: run_cb_def Let_def grows_def)
qed

section \<open>The descriptors that are ready\<close>

definition ready_read :: "'cb pollset \<Rightarrow> nat \<Rightarrow> 'cb list" where
  "ready_read ps i =
     (let p = pollfds ps ! i in
      case fd_states ps (pfd p) of None \<Rightarrow> []
      | Some fs \<Rightarrow> if re_in (revs p) \<or> re_err (revs p) then (case rcb fs of None \<Rightarrow> [] | Some cb \<Rightarrow> [cb]) else [])"

definition ready_write :: "'cb pollset \<Rightarrow> nat \<Rightarrow> 'cb list" where
  "ready_write ps i =
     (let p = pollfds ps ! i in
      case fd_states ps (pfd p) of None \<Rightarrow> []
      | Some fs \<Rightarrow> if re_out (revs p) \<or> re_err (revs p) then (case wcb fs of None \<Rightarrow> [] | Some cb \<Rightarrow> [cb]) else [])"

definition ready_cbs :: "'cb pollset \<Rightarrow> nat \<Rightarrow> 'cb list" where
  "ready_cbs ps i = ready_read ps i @ ready_write ps i"

text \<open>A callback that runs once is taken out before it runs.\<close>

lemma oneshot_grows:
  assumes ok: "pollset_ok ps" and i: "i < length (pollfds ps)" and s: "s = pfd (pollfds ps ! i)" "s \<in> T" and st: "fd_states ps s = Some fs"
    and idx: "fd_idx fs' = fd_idx fs" and p: "pfd p = s" "revs p = revs (pollfds ps ! i)"
    and ev: "ev_in p \<longleftrightarrow> rcb fs' \<noteq> None" "ev_out p \<longleftrightarrow> wcb fs' \<noteq> None"
  shows "grows now T ps (ps\<lparr>fd_states := (fd_states ps)(s \<mapsto> fs'), pollfds := (pollfds ps)[i := p]\<rparr>)"
proof -
  have o: "fds_ok (pollfds ps) (fd_states ps)" and t: "timers_ok (time_cbs ps) (next_timer ps)"
    using ok by (simp_all add: pollset_ok_def)
  have "fd_idx fs = int i" using fds_okD[OF o i] st s(1) by (metis option.inject)
  then have "fds_ok ((pollfds ps)[i := p]) ((fd_states ps)(s \<mapsto> fs'))"
    using fds_ok_update[OF o i s(1) p(1) _ ev] idx by simp
  moreover have "pfd ((pollfds ps)[i := p] ! k) = pfd (pollfds ps ! k) \<and> revs ((pollfds ps)[i := p] ! k) = revs (pollfds ps ! k)"
    for k using i s p by (cases "k = i") simp_all
  ultimately show ?thesis using t s(2) by (auto simp: grows_def pollset_ok_def)
qed

lemma grows_mono: "grows now S ps ps' \<Longrightarrow> S \<subseteq> T \<Longrightarrow> grows now T ps ps'"
  unfolding grows_def by blast

lemma poll_read_grows:
  assumes ok: "pollset_ok ps" and i: "i < length (pollfds ps)" and nval: "\<not> re_nval (revs (pollfds ps ! i))"
    and legal: "\<And>h. list_all (legal now S) (react h)"
  shows "\<exists>ps'. poll_read react i ps = Inr ps' \<and> grows now (insert (pfd (pollfds ps ! i)) S) ps ps'
    \<and> called ps' = called ps @ ready_read ps i \<and> (pfd (pollfds ps ! i) \<notin> S \<longrightarrow> ready_write ps' i = ready_write ps i)"
proof -
  let ?p = "pollfds ps ! i" and ?T = "insert (pfd (pollfds ps ! i)) S"
  have o: "fds_ok (pollfds ps) (fd_states ps)" using ok by (simp add: pollset_ok_def)
  from fds_okD[OF o i] obtain fs where fs: "fd_states ps (pfd ?p) = Some fs" "fd_idx fs = int i"
    "ev_in ?p \<longleftrightarrow> rcb fs \<noteq> None" "ev_out ?p \<longleftrightarrow> wcb fs \<noteq> None" .
  show ?thesis
  proof (cases "rcb fs \<noteq> None \<and> (re_in (revs ?p) \<or> re_err (revs ?p))")
    case False
    then have "poll_read react i ps = Inr ps" "ready_read ps i = []"
      using fs(1) nval by (auto simp: poll_read_def ready_read_def Let_def split: option.splits)
    then show ?thesis using grows_refl[OF ok] by auto
  next
    case True
    then obtain cb where cb: "rcb fs = Some cb" by blast
    let ?ps = "if roneshot fs then ps\<lparr>fd_states := (fd_states ps)(pfd ?p \<mapsto> fs\<lparr>rcb := None\<rparr>),
        pollfds := (pollfds ps)[i := ?p\<lparr>ev_in := False\<rparr>]\<rparr> else ps"
    have g1: "grows now ?T ps ?ps"
      using oneshot_grows[OF ok i refl insertI1 fs(1), of "fs\<lparr>rcb := None\<rparr>" "?p\<lparr>ev_in := False\<rparr>"] fs(4) grows_refl[OF ok]
      by auto
    have keep: "pollfds ?ps ! i = (if roneshot fs then ?p\<lparr>ev_in := False\<rparr> else ?p)" "called ?ps = called ps"
      "length (pollfds ?ps) = length (pollfds ps)" using i by simp_all
    obtain ps' where r: "run_cb react cb ?ps = Inr ps'" "grows now S ?ps ps'" "called ps' = called ?ps @ [cb]"
      using run_cb_grows[where react = react, OF grows_ok[OF g1] legal] by blast
    have "poll_read react i ps = Inr ps'"
      using True nval r(1) by (simp add: poll_read_def Let_def fs(1) cb)
    moreover have "ready_read ps i = [cb]" using True by (simp add: ready_read_def Let_def fs(1) cb)
    moreover have "grows now ?T ps ps'" using grows_trans[OF g1 grows_mono[OF r(2)]] by blast
    moreover have "ready_write ps' i = ready_write ps i" if "pfd ?p \<notin> S"
    proof -
      have "pfd (pollfds ps' ! i) = pfd ?p" "revs (pollfds ps' ! i) = revs ?p" "fd_states ps' (pfd ?p) = fd_states ?ps (pfd ?p)"
        using r(2) that i unfolding grows_def keep(3) by (simp_all add: keep(1))
      then show ?thesis by (simp add: ready_write_def fs(1))
    qed
    ultimately show ?thesis using r(3) keep(2) by auto
  qed
qed

lemma poll_write_grows:
  assumes ok: "pollset_ok ps" and i: "i < length (pollfds ps)" and legal: "\<And>h. list_all (legal now S) (react h)"
  shows "\<exists>ps'. poll_write react i ps = Inr ps' \<and> grows now (insert (pfd (pollfds ps ! i)) S) ps ps'
    \<and> called ps' = called ps @ ready_write ps i"
proof -
  let ?p = "pollfds ps ! i" and ?T = "insert (pfd (pollfds ps ! i)) S"
  have o: "fds_ok (pollfds ps) (fd_states ps)" using ok by (simp add: pollset_ok_def)
  from fds_okD[OF o i] obtain fs where fs: "fd_states ps (pfd ?p) = Some fs" "fd_idx fs = int i"
    "ev_in ?p \<longleftrightarrow> rcb fs \<noteq> None" "ev_out ?p \<longleftrightarrow> wcb fs \<noteq> None" .
  show ?thesis
  proof (cases "wcb fs \<noteq> None \<and> (re_out (revs ?p) \<or> re_err (revs ?p))")
    case False
    then have "poll_write react i ps = Inr ps" "ready_write ps i = []"
      using fs(1) by (auto simp: poll_write_def ready_write_def Let_def split: option.splits)
    then show ?thesis using grows_refl[OF ok] by auto
  next
    case True
    then obtain cb where cb: "wcb fs = Some cb" by blast
    let ?ps = "if woneshot fs then ps\<lparr>fd_states := (fd_states ps)(pfd ?p \<mapsto> fs\<lparr>wcb := None\<rparr>),
        pollfds := (pollfds ps)[i := ?p\<lparr>ev_out := False\<rparr>]\<rparr> else ps"
    have g1: "grows now ?T ps ?ps"
      using oneshot_grows[OF ok i refl insertI1 fs(1), of "fs\<lparr>wcb := None\<rparr>" "?p\<lparr>ev_out := False\<rparr>"] fs(3) grows_refl[OF ok]
      by auto
    obtain ps' where r: "run_cb react cb ?ps = Inr ps'" "grows now S ?ps ps'" "called ps' = called ?ps @ [cb]"
      using run_cb_grows[where react = react, OF grows_ok[OF g1] legal] by blast
    have "poll_write react i ps = Inr ps'"
      using True r(1) by (simp add: poll_write_def Let_def fs(1) cb)
    moreover have "ready_write ps i = [cb]" using True by (simp add: ready_write_def Let_def fs(1) cb)
    moreover have "grows now ?T ps ps'" using grows_trans[OF g1 grows_mono[OF r(2)]] by blast
    ultimately show ?thesis using r(3) by auto
  qed
qed

definition ready_count :: "'cb pollset \<Rightarrow> nat \<Rightarrow> nat \<Rightarrow> nat" where
  "ready_count ps i n = length (filter (\<lambda>j. any_revents (revs (pollfds ps ! j))) [i..<i + n])"

lemma ready_count_Suc:
  "ready_count ps i (Suc n) = (if any_revents (revs (pollfds ps ! i)) then Suc (ready_count ps (Suc i) n) else ready_count ps (Suc i) n)"
  by (simp add: ready_count_def upt_conv_Cons del: upt_Suc)

lemma not_ready: "\<not> any_revents (revs (pollfds ps ! i)) \<Longrightarrow> ready_cbs ps i = []"
  by (simp add: ready_cbs_def ready_read_def ready_write_def any_revents_def Let_def split: option.splits)

lemma grows_entry:
  assumes "grows now T ps ps'" and "i < length (pollfds ps)"
  shows "pfd (pollfds ps' ! i) = pfd (pollfds ps ! i)" and "revs (pollfds ps' ! i) = revs (pollfds ps ! i)"
    and "i < length (pollfds ps')" and "pfd (pollfds ps ! i) \<notin> T \<Longrightarrow> ready_cbs ps' i = ready_cbs ps i"
proof -
  show e: "pfd (pollfds ps' ! i) = pfd (pollfds ps ! i)" "revs (pollfds ps' ! i) = revs (pollfds ps ! i)" "i < length (pollfds ps')"
    using assms by (simp_all add: grows_def)
  show "ready_cbs ps' i = ready_cbs ps i" if "pfd (pollfds ps ! i) \<notin> T"
  proof -
    have "fd_states ps' (pfd (pollfds ps ! i)) = fd_states ps (pfd (pollfds ps ! i))" using assms(1) that by (simp add: grows_def)
    then show ?thesis unfolding ready_cbs_def ready_read_def ready_write_def Let_def e(1,2) by simp
  qed
qed

lemma poll_loop_grows:
  assumes "pollset_ok ps" and "i + n \<le> length (pollfds ps)"
    and "\<And>j. i \<le> j \<Longrightarrow> j < i + n \<Longrightarrow> \<not> re_nval (revs (pollfds ps ! j)) \<and> pfd (pollfds ps ! j) \<in> T"
    and "\<And>h. list_all (legal now S) (react h)" and "S \<subseteq> T"
  shows "\<exists>ps'. poll_loop react n i (ready_count ps i n) ps = Inr ps' \<and> grows now T ps ps'
    \<and> ((\<forall>j. i \<le> j \<and> j < i + n \<longrightarrow> pfd (pollfds ps ! j) \<notin> S) \<longrightarrow>
        called ps' = called ps @ concat (map (ready_cbs ps) [i..<i + n]))"
  using assms(1-3)
proof (induction n arbitrary: i ps)
  case 0
  then show ?case by (simp add: grows_refl)
next
  case (Suc n)
  let ?p = "pollfds ps ! i"
  have i: "i < length (pollfds ps)" using Suc.prems(2) by simp
  show ?case
  proof (cases "ready_count ps i (Suc n) = 0")
    case True
    have "ready_cbs ps j = []" if "i \<le> j" "j < i + Suc n" for j
      using True that by (intro not_ready) (auto simp: ready_count_def filter_empty_conv simp del: upt_Suc)
    then have "concat (map (ready_cbs ps) [i..<i + Suc n]) = []" by (simp del: upt_Suc)
    then show ?thesis using True Suc.prems(1) by (auto simp: grows_refl simp del: upt_Suc)
  next
    case False
    have iT: "insert (pfd ?p) S \<subseteq> T" using Suc.prems(3)[of i] assms(5) by simp
    have "\<not> re_nval (revs ?p)" using Suc.prems(3)[of i] by simp
    from poll_read_grows[where react = react, OF Suc.prems(1) i this assms(4)] obtain ps1 where
      1: "poll_read react i ps = Inr ps1" "grows now (insert (pfd ?p) S) ps ps1" "called ps1 = called ps @ ready_read ps i"
        "pfd ?p \<notin> S \<longrightarrow> ready_write ps1 i = ready_write ps i" by blast
    note e1 = grows_entry[OF 1(2) i]
    from poll_write_grows[where react = react, OF grows_ok[OF 1(2)] e1(3) assms(4)] obtain ps2 where
      2: "poll_write react i ps1 = Inr ps2" "grows now (insert (pfd ?p) S) ps1 ps2" "called ps2 = called ps1 @ ready_write ps1 i"
      unfolding e1(1) by blast
    note g = grows_trans[OF 1(2) 2(2)]
    have len: "Suc i + n \<le> length (pollfds ps2)" using g Suc.prems(2) by (simp add: grows_def)
    have range: "\<not> re_nval (revs (pollfds ps2 ! j)) \<and> pfd (pollfds ps2 ! j) \<in> T" if "Suc i \<le> j" "j < Suc i + n" for j
      using grows_entry(1,2)[OF g, of j] Suc.prems(2) Suc.prems(3)[of j] that by simp
    from Suc.IH[OF grows_ok[OF g] len range] obtain ps3 where
      3: "poll_loop react n (Suc i) (ready_count ps2 (Suc i) n) ps2 = Inr ps3" "grows now T ps2 ps3"
        "(\<forall>j. Suc i \<le> j \<and> j < Suc i + n \<longrightarrow> pfd (pollfds ps2 ! j) \<notin> S) \<Longrightarrow>
          called ps3 = called ps2 @ concat (map (ready_cbs ps2) [Suc i..<Suc i + n])" by blast
    have "revs (pollfds ps2 ! j) = revs (pollfds ps ! j)" if "j \<in> set [Suc i..<Suc i + n]" for j
    proof -
      have "j < length (pollfds ps)" using Suc.prems(2) that by auto
      then show ?thesis by (rule grows_entry(2)[OF g])
    qed
    then have "filter (\<lambda>j. any_revents (revs (pollfds ps2 ! j))) [Suc i..<Suc i + n]
        = filter (\<lambda>j. any_revents (revs (pollfds ps ! j))) [Suc i..<Suc i + n]" by (intro filter_cong) simp_all
    then have cnt: "ready_count ps2 (Suc i) n = ready_count ps (Suc i) n" by (simp only: ready_count_def)
    have "poll_loop react (Suc n) i (ready_count ps i (Suc n)) ps = Inr ps3"
      using False i 1(1) 2(1) 3(1) e1(3) by (simp add: cnt ready_count_Suc)
    moreover have "grows now T ps ps3" using grows_trans[OF grows_mono[OF g iT] 3(2)] .
    moreover have "called ps3 = called ps @ concat (map (ready_cbs ps) [i..<i + Suc n])"
      if S: "\<forall>j. i \<le> j \<and> j < i + Suc n \<longrightarrow> pfd (pollfds ps ! j) \<notin> S"
    proof -
      have o: "fds_ok (pollfds ps) (fd_states ps)" using Suc.prems(1) by (simp add: pollset_ok_def)
      have other: "pfd (pollfds ps2 ! j) \<notin> S \<and> ready_cbs ps2 j = ready_cbs ps j" if "Suc i \<le> j" "j < Suc i + n" for j
      proof -
        have j: "j < length (pollfds ps)" using that Suc.prems(2) by simp
        have "pfd (pollfds ps ! j) \<noteq> pfd ?p" using pfd_inj[OF o j i] that by auto
        then have "pfd (pollfds ps ! j) \<notin> insert (pfd ?p) S" using S that by simp
        then show ?thesis using grows_entry(1,4)[OF g j] by simp
      qed
      have "map (ready_cbs ps2) [Suc i..<Suc i + n] = map (ready_cbs ps) [Suc i..<Suc i + n]"
        using other by (intro map_cong) auto
      moreover have "called ps3 = called ps2 @ concat (map (ready_cbs ps2) [Suc i..<Suc i + n])" using 3(3) other by blast
      moreover have "[i..<i + Suc n] = i # [Suc i..<Suc i + n]" by (simp add: upt_conv_Cons del: upt_Suc)
      moreover have "ready_write ps1 i = ready_write ps i" using 1(4) S by simp
      moreover have "ready_cbs ps i = ready_read ps i @ ready_write ps i" by (simp add: ready_cbs_def)
      ultimately show ?thesis using 1(3) 2(3) by (simp only: append_assoc list.map concat.simps)
    qed
    ultimately show ?thesis by blast
  qed
qed

section \<open>The timeouts that are due\<close>

lemma due_sorted: "sorted (map fst ts) \<Longrightarrow> ts = due now ts @ filter (\<lambda>x. now < fst x) ts"
proof (induction ts)
  case (Cons x ts)
  show ?case
  proof (cases "fst x \<le> now")
    case True
    then show ?thesis using Cons by (simp add: due_def)
  next
    case False
    then have "\<forall>y \<in> set ts. now < fst y" using Cons.prems by auto
    then have "due now (x # ts) = []" "filter (\<lambda>x. now < fst x) (x # ts) = x # ts"
      using False by (auto simp: due_def filter_empty_conv filter_id_conv)
    then show ?thesis by simp
  qed
qed (simp add: due_def)

definition first_timer :: "(int \<times> nat \<times> 'cb) list \<Rightarrow> nat option" where
  "first_timer ts = (case ts of [] \<Rightarrow> None | (_, j, _) # _ \<Rightarrow> Some j)"

lemma head_timer:
  assumes "timers_ok ((t, j, cb) # ts) n"
  shows "find_timer j ((t, j, cb) # ts) = Some (t, cb)" and "timer_after j ((t, j, cb) # ts) = first_timer ts"
    and "erase_timer j ((t, j, cb) # ts) = ts" and "timers_ok ts n"
proof -
  have j: "j \<notin> (fst \<circ> snd) ` set ts" and rest: "timers_ok ts n" using assms by (auto simp: timers_ok_def)
  have "k \<noteq> j" if "(u, k, c) \<in> set ts" for u k c using j that by force
  then show "erase_timer j ((t, j, cb) # ts) = ts" by (auto simp: erase_timer_def filter_id_conv)
  show "timers_ok ts n" by (rule rest)
qed (simp_all add: find_timer_def timer_after_def first_timer_def split: list.splits)

lemma run_timers_due:
  assumes "pollset_ok ps" and "\<And>h. list_all (legal now S) (react h)" and "length (due now (time_cbs ps)) \<le> fuel"
  shows "\<exists>ps'. run_timers react now fuel (first_timer (time_cbs ps)) ps = Inr ps' \<and> pollset_ok ps'
    \<and> called ps' = called ps @ map (snd \<circ> snd) (due now (time_cbs ps)) \<and> due now (time_cbs ps') = []"
  using assms(1,3)
proof (induction fuel arbitrary: ps)
  case 0
  have t: "timers_ok (time_cbs ps) (next_timer ps)" using 0 by (simp add: pollset_ok_def)
  have d: "due now (time_cbs ps) = []" using 0 by simp
  show ?case
  proof (cases "time_cbs ps")
    case (Cons x ts)
    obtain t0 j cb where x: "x = (t0, j, cb)" by (cases x)
    have "now < t0" using d Cons x by (simp add: due_def split: if_splits)
    then show ?thesis using 0 d t head_timer(1)[of t0 j cb ts "next_timer ps"] by (simp add: Cons x first_timer_def)
  qed (use 0 in \<open>simp add: first_timer_def due_def\<close>)
next
  case (Suc fuel)
  have t: "timers_ok (time_cbs ps) (next_timer ps)" using Suc.prems by (simp add: pollset_ok_def)
  show ?case
  proof (cases "time_cbs ps")
    case (Cons x ts)
    obtain t0 j cb where x: "x = (t0, j, cb)" by (cases x)
    note h = head_timer[OF t[unfolded Cons x]]
    show ?thesis
    proof (cases "now < t0")
      case True
      have "sorted (map fst (x # ts))" using t Cons by (simp add: timers_ok_def)
      then have "due now (time_cbs ps) = []" using True Cons x by (auto simp: due_def filter_empty_conv)
      then show ?thesis using True Suc.prems(1) h(1) by (simp add: Cons x first_timer_def)
    next
      case False
      obtain ps1 where 1: "run_cb react cb ps = Inr ps1" "grows now S ps ps1" "called ps1 = called ps @ [cb]"
        using run_cb_grows[where react = react, OF Suc.prems(1) assms(2)] by blast
      have t1: "timers_ok (time_cbs ps1) (next_timer ps1)" using grows_ok[OF 1(2)] by (simp add: pollset_ok_def)
      have d1: "due now (time_cbs ps1) = x # due now ts"
        using 1(2) Cons x False by (simp add: grows_def due_def)
      then obtain ts1 where ts1: "time_cbs ps1 = x # ts1"
        using due_sorted[of "time_cbs ps1" now] t1 unfolding timers_ok_def by (metis append_Cons)
      note h1 = head_timer[OF t1[unfolded ts1 x]]
      let ?ps = "ps1\<lparr>time_cbs := ts1\<rparr>"
      have ok: "pollset_ok ?ps" using grows_ok[OF 1(2)] h1(4) by (simp add: pollset_ok_def)
      have d2: "due now ts1 = due now ts" using d1 ts1 x False by (simp add: due_def)
      have "length (due now (time_cbs ?ps)) \<le> fuel" using Suc.prems(2) d2 Cons x False by (simp add: due_def)
      from Suc.IH[OF ok this] obtain ps2 where
        2: "run_timers react now fuel (first_timer ts1) ?ps = Inr ps2" "pollset_ok ps2"
          "called ps2 = called ps1 @ map (snd \<circ> snd) (due now ts1)" "due now (time_cbs ps2) = []" by auto
      have "run_timers react now (Suc fuel) (first_timer (time_cbs ps)) ps = Inr ps2"
        using False h(1) h1 1(1) 2(1) by (simp add: Cons x first_timer_def ts1)
      moreover have "due now (time_cbs ps) = (t0, j, cb) # due now ts" using Cons x False by (simp add: due_def)
      ultimately show ?thesis using 2(2-4) 1(3) d2 by auto
    qed
  qed (use Suc.prems in \<open>simp add: first_timer_def due_def\<close>)
qed

section \<open>The clean-up\<close>

definition live :: "pollfd list \<Rightarrow> int set" where
  "live fds = pfd ` {p \<in> set fds. \<not> idle p}"

lemma live_iff: "x \<in> live fds \<longleftrightarrow> (\<exists>j < length fds. \<not> idle (fds ! j) \<and> x = pfd (fds ! j))"
  by (auto simp: live_def in_set_conv_nth)

lemma erase_idle:
  assumes ok: "fds_ok fds st" and i: "i < length fds" and "idle (fds ! i)"
  shows "erase_state (pfd (fds ! i)) st = Inr (st(pfd (fds ! i) := None))"
proof -
  from fds_okD[OF ok i] obtain fs where "st (pfd (fds ! i)) = Some fs" "ev_in (fds ! i) \<longleftrightarrow> rcb fs \<noteq> None"
    "ev_out (fds ! i) \<longleftrightarrow> wcb fs \<noteq> None" .
  then show ?thesis using assms(3) by (simp add: erase_state_def idle_def)
qed

lemma fds_ok_butlast:
  assumes ok: "fds_ok fds st" and ne: "fds \<noteq> []"
  shows "fds_ok (butlast fds) (st(pfd (last fds) := None))"
proof -
  let ?n = "length fds - 1"
  have n: "?n < length fds" "last fds = fds ! ?n" using ne by (simp_all add: last_conv_nth)
  have "entry_ok (st(pfd (last fds) := None)) j (butlast fds ! j)" if j: "j < ?n" for j
  proof -
    have "pfd (fds ! j) \<noteq> pfd (last fds)"
    proof
      assume "pfd (fds ! j) = pfd (last fds)"
      then have "j = ?n" using j n by (intro pfd_inj[OF ok]) simp_all
      then show False using j by simp
    qed
    then show ?thesis using ok j by (simp add: fds_ok_def entry_ok_def nth_butlast)
  qed
  moreover have "0 \<le> fd_idx gs \<and> nat (fd_idx gs) < ?n \<and> pfd (butlast fds ! nat (fd_idx gs)) = t"
    if "(st(pfd (last fds) := None)) t = Some gs" for t gs
  proof -
    have gs: "st t = Some gs" "t \<noteq> pfd (last fds)" using that by (auto split: if_splits)
    note g = fds_ok_state[OF ok gs(1)]
    have "nat (fd_idx gs) \<noteq> ?n" using g(3) gs(2) n(2) by metis
    then have "nat (fd_idx gs) < ?n" using g(2) by simp
    then show ?thesis using g by (simp add: nth_butlast)
  qed
  ultimately show ?thesis by (simp add: fds_ok_def)
qed

lemma live_snoc: "live (fds @ [p]) = (if idle p then live fds else insert (pfd p) (live fds))"
  by (auto simp: live_def)

lemma drop_back_ok:
  assumes "fds_ok fds st"
  shows "\<exists>fds' st'. drop_back (fds, st) = Inr (fds', st') \<and> fds_ok fds' st' \<and> live fds' = live fds
    \<and> (\<forall>s \<in> live fds. st' s = st s) \<and> (fds' \<noteq> [] \<longrightarrow> \<not> idle (last fds'))"
  using assms
proof (induction fds arbitrary: st rule: rev_induct)
  case Nil
  then show ?case by (simp add: drop_back.simps)
next
  case (snoc p fds)
  show ?case
  proof (cases "idle p")
    case False
    then show ?thesis using snoc.prems by (simp add: drop_back.simps)
  next
    case True
    have e: "erase_state (pfd p) st = Inr (st(pfd p := None))"
      using erase_idle[OF snoc.prems, of "length fds"] True by simp
    have ok: "fds_ok fds (st(pfd p := None))" using fds_ok_butlast[OF snoc.prems] by simp
    have "pfd p \<notin> live fds"
    proof
      assume "pfd p \<in> live fds"
      then obtain j where "j < length fds" "pfd (fds ! j) = pfd p" by (auto simp: live_def in_set_conv_nth)
      then show False using pfd_inj[OF snoc.prems, of j "length fds"] by (simp add: nth_append)
    qed
    from snoc.IH[OF ok] obtain fds' st' where r: "drop_back (fds, st(pfd p := None)) = Inr (fds', st')" "fds_ok fds' st'"
      "live fds' = live fds" "\<forall>s \<in> live fds. st' s = (st(pfd p := None)) s" "fds' \<noteq> [] \<longrightarrow> \<not> idle (last fds')" by blast
    have "drop_back (fds @ [p], st) = Inr (fds', st')"
      using True e r(1) by (subst drop_back.simps) (simp del: fun_upd_apply)
    moreover have "live (fds @ [p]) = live fds" using True by (simp add: live_snoc)
    moreover have "\<forall>s \<in> live fds. st' s = st s" using r(4) \<open>pfd p \<notin> live fds\<close> by auto
    ultimately show ?thesis using r(2,3,5) by auto
  qed
qed

lemma fill_gap_ok:
  assumes ok: "fds_ok fds st" and i: "Suc i < length fds" and last: "\<not> idle (last fds)" and gap: "idle (fds ! i)"
  shows "\<exists>fs. st (pfd (last fds)) = Some fs \<and> pfd (last fds) \<noteq> pfd (fds ! i)
    \<and> fds_ok (butlast (fds[i := last fds])) (st(pfd (fds ! i) := None, pfd (last fds) \<mapsto> fs\<lparr>fd_idx := int i\<rparr>))
    \<and> live (butlast (fds[i := last fds])) = live fds \<and> pfd (fds ! i) \<notin> live fds"
proof -
  let ?n = "length fds - 1"
  let ?p = "last fds"
  let ?fds = "butlast (fds[i := ?p])"
  have "fds \<noteq> []" using i by auto
  then have n: "?n < length fds" "?p = fds ! ?n" "i < ?n" using i by (simp_all add: last_conv_nth)
  from fds_okD[OF ok n(1)] n(2) obtain fs where fs: "st (pfd ?p) = Some fs" "fd_idx fs = int ?n"
    "ev_in ?p \<longleftrightarrow> rcb fs \<noteq> None" "ev_out ?p \<longleftrightarrow> wcb fs \<noteq> None" by metis
  have ne: "pfd ?p \<noteq> pfd (fds ! i)" using pfd_inj[OF ok n(1), of i] n by auto
  let ?st = "st(pfd (fds ! i) := None, pfd ?p \<mapsto> fs\<lparr>fd_idx := int i\<rparr>)"
  have nth: "?fds ! j = (if j = i then ?p else fds ! j)" if "j < ?n" for j using that by (simp add: nth_butlast nth_list_update)
  have "entry_ok ?st j (?fds ! j)" if j: "j < ?n" for j
  proof (cases "j = i")
    case True
    then show ?thesis using fs nth[OF j] by (simp add: entry_ok_def)
  next
    case False
    then have "pfd (fds ! j) \<noteq> pfd ?p" "pfd (fds ! j) \<noteq> pfd (fds ! i)"
      using pfd_inj[OF ok _ n(1), of j] pfd_inj[OF ok, of j i] j n by auto
    then show ?thesis using ok j nth[OF j] False by (simp add: fds_ok_def entry_ok_def)
  qed
  moreover have "0 \<le> fd_idx gs \<and> nat (fd_idx gs) < ?n \<and> pfd (?fds ! nat (fd_idx gs)) = t" if "?st t = Some gs" for t gs
  proof (cases "t = pfd ?p")
    case True
    then have "gs = fs\<lparr>fd_idx := int i\<rparr>" using that by simp
    then show ?thesis using True n(3) nth[OF n(3)] by simp
  next
    case False
    then have gs: "st t = Some gs" "t \<noteq> pfd (fds ! i)" using that by (auto split: if_splits)
    note g = fds_ok_state[OF ok gs(1)]
    have "nat (fd_idx gs) \<noteq> ?n" "nat (fd_idx gs) \<noteq> i" using g(3) False gs(2) n(2) by metis+
    then show ?thesis using g nth[of "nat (fd_idx gs)"] by simp
  qed
  ultimately have "fds_ok ?fds ?st" by (simp add: fds_ok_def)
  moreover have "live ?fds = live fds"
  proof -
    have "(\<exists>j < ?n. \<not> idle (?fds ! j) \<and> x = pfd (?fds ! j)) \<longleftrightarrow> (\<exists>j < length fds. \<not> idle (fds ! j) \<and> x = pfd (fds ! j))" for x
    proof
      assume "\<exists>j < ?n. \<not> idle (?fds ! j) \<and> x = pfd (?fds ! j)"
      then obtain j where j: "j < ?n" "\<not> idle (?fds ! j)" "x = pfd (?fds ! j)" by blast
      show "\<exists>j < length fds. \<not> idle (fds ! j) \<and> x = pfd (fds ! j)"
        using j nth[OF j(1)] n(1,2) by (cases "j = i") (auto intro: exI[of _ ?n] exI[of _ j])
    next
      assume "\<exists>j < length fds. \<not> idle (fds ! j) \<and> x = pfd (fds ! j)"
      then obtain j where j: "j < length fds" "\<not> idle (fds ! j)" "x = pfd (fds ! j)" by blast
      show "\<exists>j < ?n. \<not> idle (?fds ! j) \<and> x = pfd (?fds ! j)"
      proof (cases "j = ?n")
        case True
        then show ?thesis using j nth[OF n(3)] n by (intro exI[of _ i]) simp
      next
        case False
        then have "j < ?n" "j \<noteq> i" using j gap by auto
        then show ?thesis using j nth[of j] by (intro exI[of _ j]) simp
      qed
    qed
    then have "x \<in> live ?fds \<longleftrightarrow> x \<in> live fds" for x by (simp add: live_iff)
    then show ?thesis by blast
  qed
  moreover have "pfd (fds ! i) \<notin> live fds"
  proof
    assume "pfd (fds ! i) \<in> live fds"
    then obtain j where "j < length fds" "\<not> idle (fds ! j)" "pfd (fds ! j) = pfd (fds ! i)" by (auto simp: live_iff)
    then show False using pfd_inj[OF ok, of j i] i gap by auto
  qed
  ultimately show ?thesis using fs(1) ne by blast
qed

text \<open>What is registered for a descriptor, apart from the position of its entry.\<close>

definition registered :: "(int \<rightharpoonup> 'cb fd_state) \<Rightarrow> int \<Rightarrow> ('cb option \<times> 'cb option \<times> bool \<times> bool) option" where
  "registered st s = map_option (\<lambda>fs. (rcb fs, wcb fs, roneshot fs, woneshot fs)) (st s)"

lemma fill_gaps_ok:
  assumes "fds_ok fds st" and "n < length fds" and "\<And>j. n \<le> j \<Longrightarrow> j < length fds \<Longrightarrow> \<not> idle (fds ! j)"
  shows "\<exists>fds' st'. fill_gaps n (fds, st) = Inr (fds', st') \<and> fds_ok fds' st' \<and> live fds' = live fds
    \<and> (\<forall>s \<in> live fds. registered st' s = registered st s) \<and> list_all (\<lambda>p. \<not> idle p) fds'"
  using assms
proof (induction n arbitrary: fds st)
  case 0
  then show ?case by (auto simp: list_all_length)
next
  case (Suc i)
  have last: "last fds = fds ! (length fds - 1)" "\<not> idle (last fds)"
  proof -
    show "last fds = fds ! (length fds - 1)" using Suc.prems(2) by (intro last_conv_nth) auto
    then show "\<not> idle (last fds)" using Suc.prems(2) Suc.prems(3)[of "length fds - 1"] by simp
  qed
  show ?case
  proof (cases "idle (fds ! i)")
    case False
    then have "\<not> idle (fds ! j)" if "i \<le> j" "j < length fds" for j
      using Suc.prems(3)[of j] that by (cases "j = i") auto
    with Suc.IH[OF Suc.prems(1)] Suc.prems(2) False show ?thesis by simp
  next
    case True
    obtain fs where fs: "st (pfd (last fds)) = Some fs" "pfd (last fds) \<noteq> pfd (fds ! i)"
      "fds_ok (butlast (fds[i := last fds])) (st(pfd (fds ! i) := None, pfd (last fds) \<mapsto> fs\<lparr>fd_idx := int i\<rparr>))"
      "live (butlast (fds[i := last fds])) = live fds" "pfd (fds ! i) \<notin> live fds"
      using fill_gap_ok[OF Suc.prems(1,2) last(2) True] by blast
    let ?fds = "butlast (fds[i := last fds])"
    let ?st = "st(pfd (fds ! i) := None, pfd (last fds) \<mapsto> fs\<lparr>fd_idx := int i\<rparr>)"
    have idle: "\<not> idle (?fds ! j)" if "i \<le> j" "j < length ?fds" for j
      using that last(2) Suc.prems(3)[of j] by (cases "j = i") (simp_all add: nth_butlast)
    have len: "i < length ?fds" using Suc.prems(2) by simp
    have reg: "registered ?st s = registered st s" if "s \<in> live fds" for s
      using that fs(1,5) by (auto simp: registered_def)
    have "erase_state (pfd (fds ! i)) st = Inr (st(pfd (fds ! i) := None))"
      using erase_idle[OF Suc.prems(1) _ True] Suc.prems(2) by simp
    then have "fill_gaps (Suc i) (fds, st) = fill_gaps i (?fds, ?st)"
      using True Suc.prems(2) fs(1,2) by (simp add: Let_def)
    moreover from Suc.IH[OF fs(3) len idle] obtain fds' st' where r: "fill_gaps i (?fds, ?st) = Inr (fds', st')"
      "fds_ok fds' st'" "live fds' = live ?fds" "\<forall>s \<in> live ?fds. registered st' s = registered ?st s"
      "list_all (\<lambda>p. \<not> idle p) fds'" by blast
    moreover have "\<forall>s \<in> live fds. registered st' s = registered st s" using r(4) reg fs(4) by simp
    ultimately show ?thesis using fs(4) by (intro exI[of _ fds'] exI[of _ st']) (simp only: simp_thms)
  qed
qed

lemma consolidate_ok:
  assumes "pollset_ok ps"
  shows "\<exists>ps'. consolidate ps = Inr ps' \<and> pollset_ok ps' \<and> live (pollfds ps') = live (pollfds ps)
    \<and> list_all (\<lambda>p. \<not> idle p) (pollfds ps') \<and> called ps' = called ps \<and> time_cbs ps' = time_cbs ps
    \<and> (\<forall>s \<in> live (pollfds ps). registered (fd_states ps') s = registered (fd_states ps) s)"
proof -
  have o: "fds_ok (pollfds ps) (fd_states ps)" and t: "timers_ok (time_cbs ps) (next_timer ps)"
    using assms by (simp_all add: pollset_ok_def)
  from drop_back_ok[OF o] obtain fds st where 1: "drop_back (pollfds ps, fd_states ps) = Inr (fds, st)" "fds_ok fds st"
    "live fds = live (pollfds ps)" "\<forall>s \<in> live (pollfds ps). st s = fd_states ps s" "fds \<noteq> [] \<longrightarrow> \<not> idle (last fds)" by blast
  have reg: "\<forall>s \<in> live fds. registered st s = registered (fd_states ps) s" using 1(3,4) by (simp add: registered_def)
  show ?thesis
  proof (cases "length fds < 2")
    case True
    then have "list_all (\<lambda>p. \<not> idle p) fds" using 1(5) by (cases fds) auto
    then show ?thesis using 1(1-3) True reg t by (simp add: consolidate_def pollset_ok_def)
  next
    case False
    have last: "\<not> idle (fds ! j)" if "length fds - 1 \<le> j" "j < length fds" for j
    proof -
      have "j = length fds - 1" "fds \<noteq> []" using that by auto
      then show ?thesis using 1(5) by (simp add: last_conv_nth)
    qed
    have n: "length fds - 1 < length fds" using False by simp
    from fill_gaps_ok[OF 1(2) n last] obtain fds' st' where 2: "fill_gaps (length fds - 1) (fds, st) = Inr (fds', st')"
      "fds_ok fds' st'" "live fds' = live fds" "\<forall>s \<in> live fds. registered st' s = registered st s"
      "list_all (\<lambda>p. \<not> idle p) fds'" by blast
    have "consolidate ps = Inr (ps\<lparr>pollfds := fds', fd_states := st'\<rparr>)"
      using 1(1) 2(1) False by (simp add: consolidate_def)
    then show ?thesis using 1(3) 2(2-5) reg t by (simp add: pollset_ok_def)
  qed
qed

section \<open>A round as a whole\<close>

lemma set_revents_ok:
  assumes "pollset_ok ps" and "length es = length (pollfds ps)"
  shows "pollset_ok (set_revents es ps)" and "length (pollfds (set_revents es ps)) = length (pollfds ps)"
    and "\<And>i. i < length (pollfds ps) \<Longrightarrow> pollfds (set_revents es ps) ! i = (pollfds ps ! i)\<lparr>revs := es ! i\<rparr>"
    and "ready_count (set_revents es ps) 0 (length (pollfds ps)) = length (filter any_revents es)"
    and "called (set_revents es ps) = called ps" and "time_cbs (set_revents es ps) = time_cbs ps"
proof -
  let ?ps = "set_revents es ps"
  show len: "length (pollfds ?ps) = length (pollfds ps)" using assms(2) by (simp add: set_revents_def)
  show nth: "pollfds ?ps ! i = (pollfds ps ! i)\<lparr>revs := es ! i\<rparr>" if "i < length (pollfds ps)" for i
    using assms(2) that by (simp add: set_revents_def)
  have st: "fd_states ?ps = fd_states ps" by (simp add: set_revents_def)
  show "called ?ps = called ps" "time_cbs ?ps = time_cbs ps" by (simp_all add: set_revents_def)
  have "entry_ok (fd_states ps) i (pollfds ?ps ! i)" if "i < length (pollfds ps)" for i
    using assms(1) that by (simp add: nth pollset_ok_def fds_ok_def entry_ok_def)
  moreover have "0 \<le> fd_idx fs \<and> nat (fd_idx fs) < length (pollfds ps) \<and> pfd (pollfds ?ps ! nat (fd_idx fs)) = s"
    if "fd_states ps s = Some fs" for s fs
    using assms(1) that fds_ok_state(1-3)[of "pollfds ps" "fd_states ps" s fs] by (simp add: pollset_ok_def nth)
  ultimately show "pollset_ok ?ps"
    using assms(1) unfolding pollset_ok_def fds_ok_def len st by (simp add: set_revents_def)
  have "map (\<lambda>j. revs (pollfds ?ps ! j)) [0..<length (pollfds ps)] = es"
    using assms(2) by (intro nth_equalityI) (simp_all add: nth)
  then have "filter any_revents es = filter any_revents (map (\<lambda>j. revs (pollfds ?ps ! j)) [0..<length (pollfds ps)])" by simp
  then show "ready_count ?ps 0 (length (pollfds ps)) = length (filter any_revents es)"
    by (simp add: ready_count_def filter_map comp_def)
qed

text \<open>How long \<open>::poll\<close> may sleep: never beyond the first timeout, never longer than it was asked to.\<close>

lemma next_timeout_bounds:
  assumes "time_cbs ps = (t, j, cb) # ts"
  shows "0 \<le> next_timeout now ms ps" and "next_timeout now ms ps \<le> max 0 (t - now)" and "next_timeout now ms ps \<le> int_max"
    and "0 \<le> ms \<Longrightarrow> next_timeout now ms ps \<le> ms"
  using assms by (auto simp: next_timeout_def int_max_def Let_def min_def)

text \<open>A timeout whose callback cancels it is erased twice.\<close>

lemma self_cancel:
  assumes "pollset_ok ps" and "time_cbs ps = (t, j, cb) # ts" and "t \<le> now" and "react (called ps @ [cb]) = [Cancel j]"
  shows "run_timeouts react now (Suc fuel) ps = Inl (Undefined_behaviour ''invalid iterator'')"
proof -
  have "timers_ok ((t, j, cb) # ts) (next_timer ps)" using assms(1,2) by (simp add: pollset_ok_def)
  note h = head_timer[OF this]
  have "find_timer j ts = None"
    using \<open>timers_ok ((t, j, cb) # ts) (next_timer ps)\<close>
    by (force simp: timers_ok_def find_timer_def map_of_eq_None_iff)
  then show ?thesis
    using assms(2-4) h by (simp add: run_timeouts_def run_cb_def timeout_cancel_def Let_def)
qed

section \<open>Claims\<close>


text \<open>Two descriptors, the second ready, and a timeout; its callback registers a third descriptor and a later timeout.\<close>

definition sample_pollset :: "nat pollset" where
  "sample_pollset = \<lparr>pollfds = [\<lparr>pfd = 3, ev_in = True, ev_out = False, revs = no_revents\<rparr>,
       \<lparr>pfd = 4, ev_in = True, ev_out = False, revs = no_revents\<rparr>],
     fd_states = [3 \<mapsto> \<lparr>rcb = Some 10, wcb = None, fd_idx = 0, roneshot = False, woneshot = False\<rparr>,
       4 \<mapsto> \<lparr>rcb = Some 20, wcb = None, fd_idx = 1, roneshot = True, woneshot = False\<rparr>],
     time_cbs = [(5, 0, 30)], next_timer = 1, called = []\<rparr>"

definition sample_react :: "nat react" where
  "sample_react h = (if last h = 20 then [Set_cb 7 \<lparr>op_read = False, op_write = True, op_once = False\<rparr> 40, Timeout_at 9 50] else [])"


end
